theory Spec2Isabelle
  imports Complex_Main "HOL-Library.Product_Lexorder"
begin

datatype error = Precondition_Failed | Assertion_Failed | Invalid_Access | No_Segment

abbreviation bind_err :: "error + 'a \<Rightarrow> ('a \<Rightarrow> error + 'b) \<Rightarrow> error + 'b" where
  "bind_err m f \<equiv> (case m of Inl e \<Rightarrow> Inl e | Inr v \<Rightarrow> f v)"

record MinMaxPrecomputedLen =
  sublen1 :: nat
  sublen2 :: nat
  needed :: bool
  even_even :: bool
  even_odd :: bool

record MinMaxPrecomputedReq =
  req_each :: "MinMaxPrecomputedLen list"
  req_even :: "MinMaxPrecomputedLen list"
  maxlen_each :: nat
  maxlen_even :: nat
  nbuffers :: nat

definition maybe_set_req :: "MinMaxPrecomputedLen \<Rightarrow> bool \<times> MinMaxPrecomputedLen" where
  "maybe_set_req precomp =
     (if needed precomp then (True, precomp) else (False, precomp\<lparr>needed := True\<rparr>))"

definition fill_req_subs ::
  "MinMaxPrecomputedLen \<Rightarrow> nat \<Rightarrow> nat \<Rightarrow> bool \<Rightarrow> bool \<Rightarrow> error + MinMaxPrecomputedLen" where
  "fill_req_subs precomp s1 s2 eo ee =
     (if eo \<and> ee then Inl Assertion_Failed
      else if eo \<and> s1 mod 2 \<noteq> 0 then Inl Assertion_Failed
      else if ee \<and> \<not> (s1 mod 2 = 0 \<and> s2 mod 2 = 0) then Inl Assertion_Failed
      else Inr (precomp\<lparr>sublen1 := s1, sublen2 := s2, even_even := ee, even_odd := eo\<rparr>))"

definition set_each :: "MinMaxPrecomputedReq \<Rightarrow> nat \<Rightarrow> MinMaxPrecomputedLen \<Rightarrow> MinMaxPrecomputedReq" where
  "set_each req n precomp = req\<lparr>req_each := (req_each req)[n := precomp]\<rparr>"

definition set_even :: "MinMaxPrecomputedReq \<Rightarrow> nat \<Rightarrow> MinMaxPrecomputedLen \<Rightarrow> MinMaxPrecomputedReq" where
  "set_even req n precomp = req\<lparr>req_even := (req_even req)[n := precomp]\<rparr>"

definition each_needed :: "MinMaxPrecomputedReq \<Rightarrow> nat \<Rightarrow> bool" where
  "each_needed req n = needed (req_each req ! n)"

definition even_needed :: "MinMaxPrecomputedReq \<Rightarrow> nat \<Rightarrow> bool" where
  "even_needed req n = needed (req_even req ! n)"

datatype split_found = Found nat nat bool | Not_Found nat

function search_even_split :: "MinMaxPrecomputedReq \<Rightarrow> nat \<Rightarrow> nat \<Rightarrow> split_found" where
  "search_even_split req blocklen i =
     (if i < (blocklen + 1) div 2 then
        (if each_needed req i \<and> each_needed req (blocklen - i) then Found i (blocklen - i) False
         else search_even_split req blocklen (i + 1))
      else Not_Found 0)"
  by pat_completeness auto
termination
  by (relation "measure (\<lambda>(req, blocklen, i). (blocklen + 1) div 2 - i)") auto

function search_odd_split :: "MinMaxPrecomputedReq \<Rightarrow> nat \<Rightarrow> nat \<Rightarrow> nat \<Rightarrow> split_found" where
  "search_odd_split req blocklen i any =
     (if i < (blocklen + 1) div 2 then
        (if each_needed req i \<and> each_needed req (blocklen - i) then Found i (blocklen - i) False
         else if even_needed req i \<and> each_needed req (blocklen - i) then Found i (blocklen - i) True
         else if each_needed req i \<and> even_needed req (blocklen - i) then Found (blocklen - i) i True
         else search_odd_split req blocklen (i + 1) (if each_needed req i then i else any))
      else Not_Found any)"
  by pat_completeness auto
termination
  by (relation "measure (\<lambda>(req, blocklen, i, any). (blocklen + 1) div 2 - i)") auto

declare search_even_split.simps [simp del] search_odd_split.simps [simp del]

function find_required_lengths_recursive ::
  "MinMaxPrecomputedReq \<Rightarrow> nat \<Rightarrow> bool \<Rightarrow> error + MinMaxPrecomputedReq" where
  "find_required_lengths_recursive req blocklen is_even =
     (if blocklen = 0 then Inl Assertion_Failed
      else if is_even then
        (if blocklen mod 2 \<noteq> 0 then Inl Assertion_Failed
         else if length (req_even req) \<le> blocklen then Inl Invalid_Access
         else case maybe_set_req (req_even req ! blocklen) of
           (True, precomp) \<Rightarrow> Inr req
         | (False, precomp) \<Rightarrow>
             if blocklen = 2 then
               bind_err (fill_req_subs precomp 1 1 False False) (\<lambda>precomp.
               find_required_lengths_recursive (set_even req blocklen precomp) 1 False)
             else if blocklen mod 4 = 0 then
               bind_err (fill_req_subs precomp (blocklen div 2) (blocklen div 2) False True) (\<lambda>precomp.
               find_required_lengths_recursive (set_even req blocklen precomp) (blocklen div 2) True)
             else if blocklen mod 4 = 2 then
               bind_err (fill_req_subs precomp (blocklen div 2 - 1) (blocklen div 2 + 1) False True) (\<lambda>precomp.
               bind_err (find_required_lengths_recursive (set_even req blocklen precomp) (blocklen div 2 - 1) True) (\<lambda>req.
               find_required_lengths_recursive req (blocklen div 2 + 1) True))
             else Inl Assertion_Failed)
      else
        (if length (req_each req) \<le> blocklen then Inl Invalid_Access
         else case maybe_set_req (req_each req ! blocklen) of
           (True, precomp) \<Rightarrow> Inr req
         | (False, precomp) \<Rightarrow>
             if blocklen = 1 then Inr (set_each req 1 (precomp\<lparr>needed := True\<rparr>))
             else if blocklen mod 2 = 0 then
               (case search_even_split (set_each req blocklen precomp) blocklen 1 of
                  Found i j eo \<Rightarrow>
                    bind_err (fill_req_subs precomp i j False False) (\<lambda>precomp.
                    Inr (set_each req blocklen precomp))
                | Not_Found any \<Rightarrow>
                    bind_err (fill_req_subs precomp (blocklen div 2) (blocklen div 2) False False) (\<lambda>precomp.
                    find_required_lengths_recursive (set_each req blocklen precomp) (blocklen div 2) False))
             else if blocklen mod 2 = 1 then
               (case search_odd_split (set_each req blocklen precomp) blocklen 1 0 of
                  Found i j eo \<Rightarrow>
                    bind_err (fill_req_subs precomp i j eo False) (\<lambda>precomp.
                    Inr (set_each req blocklen precomp))
                | Not_Found any \<Rightarrow>
                    if any \<noteq> 0 then
                      bind_err (fill_req_subs precomp any (blocklen - any) False False) (\<lambda>precomp.
                      find_required_lengths_recursive (set_each req blocklen precomp) (blocklen - any) False)
                    else if blocklen mod 4 = 1 then
                      bind_err (fill_req_subs precomp (blocklen div 2) (blocklen div 2 + 1) True False) (\<lambda>precomp.
                      bind_err (find_required_lengths_recursive (set_each req blocklen precomp) (blocklen div 2) True) (\<lambda>req.
                      find_required_lengths_recursive req (blocklen div 2 + 1) False))
                    else if blocklen mod 4 = 3 then
                      bind_err (fill_req_subs precomp (blocklen div 2 + 1) (blocklen div 2) True False) (\<lambda>precomp.
                      bind_err (find_required_lengths_recursive (set_each req blocklen precomp) (blocklen div 2 + 1) True) (\<lambda>req.
                      find_required_lengths_recursive req (blocklen div 2) False))
                    else Inl Assertion_Failed)
             else Inl Assertion_Failed))"
  by pat_completeness auto
termination
  by (relation "measure (\<lambda>(req, blocklen, is_even). blocklen)") (auto, presburger+)


declare find_required_lengths_recursive.simps [simp del]

fun find_lengths_loop :: "MinMaxPrecomputedReq \<Rightarrow> nat list \<Rightarrow> error + MinMaxPrecomputedReq" where
  "find_lengths_loop req [] = Inr req"
| "find_lengths_loop req (b # bs) =
     bind_err (find_required_lengths_recursive req b False) (\<lambda>req. find_lengths_loop req bs)"

fun unique_loop :: "nat \<Rightarrow> nat list \<Rightarrow> nat list" where
  "unique_loop prev [] = []"
| "unique_loop prev (x # xs) = (if x > prev then x # unique_loop x xs else unique_loop x xs)"

fun find_maxlen_even :: "MinMaxPrecomputedReq \<Rightarrow> nat \<Rightarrow> nat" where
  "find_maxlen_even req 0 = 0"
| "find_maxlen_even req (Suc i) =
     (if even_needed req (Suc i) then Suc i else find_maxlen_even req i)"

definition zero_len :: MinMaxPrecomputedLen where
  "zero_len = \<lparr>sublen1 = 0, sublen2 = 0, needed = False, even_even = False, even_odd = False\<rparr>"

definition find_required_lengths_for_set :: "nat list \<Rightarrow> error + MinMaxPrecomputedReq" where
  "find_required_lengths_for_set blocklens =
     (if blocklens = [] then Inl Invalid_Access
      else
        let sorted_lens = sort blocklens;
            blens = hd sorted_lens # unique_loop (hd sorted_lens) (tl sorted_lens);
            maxlen = last blens;
            req = \<lparr>req_each = replicate (maxlen + 1) zero_len,
                   req_even = replicate (maxlen + 1) zero_len,
                   maxlen_each = maxlen, maxlen_even = maxlen, nbuffers = 0\<rparr>
        in bind_err (find_lengths_loop req blens) (\<lambda>req.
             let req = req\<lparr>maxlen_even := find_maxlen_even req maxlen\<rparr>
             in Inr (req\<lparr>nbuffers :=
                  length (filter (each_needed req) [1..<maxlen_each req + 1])
                  + length (filter (even_needed req) [2..<maxlen_even req + 1])\<rparr>)))"

record 'a MinMaxPrecomputedRow =
  row_each :: "'a list option list"
  row_even :: "'a list option list"

fun carve_buffers :: "bool list \<Rightarrow> nat \<Rightarrow> nat \<Rightarrow> (nat \<Rightarrow> 'a) \<Rightarrow> 'a list option list" where
  "carve_buffers [] rowlen p storage = []"
| "carve_buffers (n # ns) rowlen p storage =
     (if n then Some (map storage [p..<p + rowlen]) # carve_buffers ns rowlen (p + rowlen) storage
      else None # carve_buffers ns rowlen p storage)"

definition min_max_precomputed_row_alloc ::
  "MinMaxPrecomputedReq \<Rightarrow> nat \<Rightarrow> (nat \<Rightarrow> 'a) \<Rightarrow> 'a MinMaxPrecomputedRow" where
  "min_max_precomputed_row_alloc req rowlen storage =
     (let each_flags = map (each_needed req) [1..<maxlen_each req + 1];
          p = rowlen * length (filter id each_flags)
      in \<lparr>row_each = None # carve_buffers each_flags rowlen 0 storage,
          row_even =
            (if maxlen_even req = 0 then []
             else None # None #
                  carve_buffers (map (even_needed req) [2..<maxlen_even req + 1]) rowlen p storage)\<rparr>)"

definition pick :: "bool \<Rightarrow> 'a::linorder \<Rightarrow> 'a \<Rightarrow> 'a" where
  "pick maximum a b =
     (if maximum then (if a < b then b else a) else (if a > b then b else a))"

function compose_each_loop ::
  "bool \<Rightarrow> 'a::linorder list \<Rightarrow> 'a list \<Rightarrow> 'a list \<Rightarrow> nat \<Rightarrow> nat \<Rightarrow> nat \<Rightarrow> 'a list" where
  "compose_each_loop maximum target sub1 sub2 slen1 i n =
     (if i \<le> n then
        compose_each_loop maximum
          (target[i := pick maximum (sub1 ! i) (sub2 ! (slen1 + i))]) sub1 sub2 slen1 (i + 1) n
      else target)"
  by pat_completeness auto
termination
  by (relation "measure (\<lambda>(maximum, target, sub1, sub2, slen1, i, n). n + 1 - i)") auto

definition compose_row_data_each ::
  "bool \<Rightarrow> 'a::linorder list option \<Rightarrow> 'a list option \<Rightarrow> nat \<Rightarrow> 'a list option \<Rightarrow> nat \<Rightarrow> nat
   \<Rightarrow> 'a list option" where
  "compose_row_data_each maximum target sub1 slen1 sub2 slen2 rowlen =
     (if \<not> slen1 + slen2 \<le> rowlen then target
      else case (target, sub1, sub2) of
        (Some t, Some s1, Some s2) \<Rightarrow>
          Some (compose_each_loop maximum t s1 s2 slen1 0 (rowlen - (slen1 + slen2)))
      | _ \<Rightarrow> target)"

function compose_even_odd_loop ::
  "bool \<Rightarrow> 'a::linorder list \<Rightarrow> 'a list \<Rightarrow> 'a list \<Rightarrow> nat \<Rightarrow> nat \<Rightarrow> nat \<Rightarrow> nat \<Rightarrow> nat \<Rightarrow> nat
   \<Rightarrow> 'a list \<times> nat \<times> nat \<times> nat \<times> nat \<times> nat" where
  "compose_even_odd_loop maximum target even_buf odd_buf i ev od ev2 od2 n =
     (if i + 1 \<le> n then
        compose_even_odd_loop maximum
          (target[i := pick maximum (even_buf ! ev) (odd_buf ! od),
                  i + 1 := pick maximum (even_buf ! ev2) (odd_buf ! od2)])
          even_buf odd_buf (i + 2) (ev + 2) (od + 2) (ev2 + 2) (od2 + 2) n
      else (target, i, ev, od, ev2, od2))"
  by pat_completeness auto
termination
  by (relation "measure (\<lambda>(maximum, target, even_buf, odd_buf, i, ev, od, ev2, od2, n). n + 1 - i)") auto

definition compose_row_data_even_odd ::
  "bool \<Rightarrow> 'a::linorder list option \<Rightarrow> 'a list option \<Rightarrow> nat \<Rightarrow> 'a list option \<Rightarrow> nat \<Rightarrow> nat
   \<Rightarrow> 'a list option" where
  "compose_row_data_even_odd maximum target even_buf evenlen odd_buf oddlen rowlen =
     (if \<not> evenlen + oddlen \<le> rowlen then target
      else if evenlen mod 2 \<noteq> 0 then target
      else case (target, even_buf, odd_buf) of
        (Some t, Some ev_b, Some od_b) \<Rightarrow>
          (let n = rowlen - (evenlen + oddlen);
               (t, i, ev, od, ev2, od2) =
                  compose_even_odd_loop maximum t ev_b od_b 0 0 evenlen (oddlen + 1) 1 n;
               (t, i) = (if i \<le> n then (t[i := pick maximum (ev_b ! ev) (od_b ! od)], i + 1)
                         else (t, i));
               t = (if i \<le> n then t[i := pick maximum (ev_b ! ev2) (od_b ! od2)] else t)
           in Some t)
      | _ \<Rightarrow> target)"

function compose_even_loop ::
  "bool \<Rightarrow> 'a::linorder list \<Rightarrow> 'a list \<Rightarrow> 'a list \<Rightarrow> nat \<Rightarrow> nat \<Rightarrow> nat \<Rightarrow> 'a list" where
  "compose_even_loop maximum target sub1 sub2 slen1 i n =
     (if i \<le> n then
        compose_even_loop maximum
          (target[i := pick maximum (sub1 ! i) (sub2 ! (slen1 + i))]) sub1 sub2 slen1 (i + 2) n
      else target)"
  by pat_completeness auto
termination
  by (relation "measure (\<lambda>(maximum, target, sub1, sub2, slen1, i, n). n + 1 - i)") auto

definition compose_row_data_even ::
  "bool \<Rightarrow> 'a::linorder list option \<Rightarrow> 'a list option \<Rightarrow> nat \<Rightarrow> 'a list option \<Rightarrow> nat \<Rightarrow> nat
   \<Rightarrow> 'a list option" where
  "compose_row_data_even maximum target sub1 slen1 sub2 slen2 rowlen =
     (if \<not> slen1 + slen2 \<le> rowlen then target
      else if slen1 mod 2 \<noteq> 0 then target
      else if slen2 mod 2 \<noteq> 0 then target
      else case (target, sub1, sub2) of
        (Some t, Some s1, Some s2) \<Rightarrow>
          Some (compose_even_loop maximum t s1 s2 slen1 0 (rowlen - (slen1 + slen2)))
      | _ \<Rightarrow> target)"

function compose_two_loop ::
  "bool \<Rightarrow> 'a::linorder list \<Rightarrow> 'a list \<Rightarrow> nat \<Rightarrow> nat \<Rightarrow> 'a list" where
  "compose_two_loop maximum target one i n =
     (if i \<le> n then
        compose_two_loop maximum (target[i := pick maximum (one ! i) (one ! (i + 1))]) one (i + 2) n
      else target)"
  by pat_completeness auto
termination
  by (relation "measure (\<lambda>(maximum, target, one, i, n). n + 1 - i)") auto

definition compose_row_data_two ::
  "bool \<Rightarrow> 'a::linorder list option \<Rightarrow> 'a list option \<Rightarrow> nat \<Rightarrow> 'a list option" where
  "compose_row_data_two maximum target one rowlen =
     (if \<not> 2 \<le> rowlen then target
      else case (target, one) of
        (Some t, Some o1) \<Rightarrow> Some (compose_two_loop maximum t o1 0 (rowlen - 2))
      | _ \<Rightarrow> target)"

declare compose_each_loop.simps [simp del] compose_even_odd_loop.simps [simp del]
  compose_even_loop.simps [simp del] compose_two_loop.simps [simp del]

definition buffer_at :: "'a list option list \<Rightarrow> nat \<Rightarrow> error + 'a list option" where
  "buffer_at bufs n = (if n < length bufs then Inr (bufs ! n) else Inl Invalid_Access)"

definition fill_each_step ::
  "bool \<Rightarrow> MinMaxPrecomputedReq \<Rightarrow> 'a::linorder MinMaxPrecomputedRow \<Rightarrow> nat \<Rightarrow> nat
   \<Rightarrow> error + 'a MinMaxPrecomputedRow" where
  "fill_each_step maximum req prow rowlen blen =
     (let precomp = req_each req ! blen in
      if needed precomp then
        (if even_even precomp then Inl Assertion_Failed
         else if even_odd precomp then
           bind_err (buffer_at (row_each prow) blen) (\<lambda>target.
           bind_err (buffer_at (row_even prow) (sublen1 precomp)) (\<lambda>even_buf.
           bind_err (buffer_at (row_each prow) (sublen2 precomp)) (\<lambda>odd_buf.
           Inr (prow\<lparr>row_each := (row_each prow)[blen :=
                  compose_row_data_even_odd maximum target even_buf (sublen1 precomp)
                    odd_buf (sublen2 precomp) rowlen]\<rparr>))))
         else
           bind_err (buffer_at (row_each prow) blen) (\<lambda>target.
           bind_err (buffer_at (row_each prow) (sublen1 precomp)) (\<lambda>sub1.
           bind_err (buffer_at (row_each prow) (sublen2 precomp)) (\<lambda>sub2.
           Inr (prow\<lparr>row_each := (row_each prow)[blen :=
                  compose_row_data_each maximum target sub1 (sublen1 precomp)
                    sub2 (sublen2 precomp) rowlen]\<rparr>)))))
      else Inr prow)"

definition fill_even_step ::
  "bool \<Rightarrow> MinMaxPrecomputedReq \<Rightarrow> 'a::linorder MinMaxPrecomputedRow \<Rightarrow> nat \<Rightarrow> nat
   \<Rightarrow> error + 'a MinMaxPrecomputedRow" where
  "fill_even_step maximum req prow rowlen blen =
     (let precomp = req_even req ! blen in
      if needed precomp then
        (if even_odd precomp then Inl Assertion_Failed
         else if even_even precomp then
           bind_err (buffer_at (row_even prow) blen) (\<lambda>target.
           bind_err (buffer_at (row_even prow) (sublen1 precomp)) (\<lambda>sub1.
           bind_err (buffer_at (row_even prow) (sublen2 precomp)) (\<lambda>sub2.
           Inr (prow\<lparr>row_even := (row_even prow)[blen :=
                  compose_row_data_even maximum target sub1 (sublen1 precomp)
                    sub2 (sublen2 precomp) rowlen]\<rparr>))))
         else if blen \<noteq> 2 then Inl Assertion_Failed
         else if maximum \<and> sublen1 precomp \<noteq> 1 then Inl Assertion_Failed
         else
           bind_err (buffer_at (row_even prow) blen) (\<lambda>target.
           bind_err (buffer_at (row_each prow) (sublen1 precomp)) (\<lambda>one.
           Inr (prow\<lparr>row_even := (row_even prow)[blen :=
                  compose_row_data_two maximum target one rowlen]\<rparr>))))
      else Inr prow)"

function precomputed_row_fill_loop ::
  "bool \<Rightarrow> MinMaxPrecomputedReq \<Rightarrow> 'a::linorder MinMaxPrecomputedRow \<Rightarrow> nat \<Rightarrow> nat
   \<Rightarrow> error + 'a MinMaxPrecomputedRow" where
  "precomputed_row_fill_loop maximum req prow rowlen blen =
     (if blen \<le> maxlen_each req then
        bind_err (fill_each_step maximum req prow rowlen blen) (\<lambda>prow.
        if blen > maxlen_even req then precomputed_row_fill_loop maximum req prow rowlen (blen + 1)
        else
          bind_err (fill_even_step maximum req prow rowlen blen) (\<lambda>prow.
          precomputed_row_fill_loop maximum req prow rowlen (blen + 1)))
      else Inr prow)"
  by pat_completeness auto
termination
  by (relation "measure (\<lambda>(maximum, req, prow, rowlen, blen). maxlen_each req + 1 - blen)") auto

declare precomputed_row_fill_loop.simps [simp del]

definition precomputed_row_fill ::
  "bool \<Rightarrow> MinMaxPrecomputedReq \<Rightarrow> 'a::linorder MinMaxPrecomputedRow \<Rightarrow> 'a list \<Rightarrow> nat
   \<Rightarrow> error + 'a MinMaxPrecomputedRow" where
  "precomputed_row_fill maximum req prow x rowlen =
     bind_err (buffer_at (row_each prow) 1) (\<lambda>each1.
       case each1 of
         None \<Rightarrow> Inl Invalid_Access
       | Some _ \<Rightarrow>
           if length x < rowlen then Inl Invalid_Access
           else precomputed_row_fill_loop maximum req
                  (prow\<lparr>row_each := (row_each prow)[1 := Some (take rowlen x)]\<rparr>) rowlen 2)"

definition max_precomputed_row_fill ::
  "MinMaxPrecomputedReq \<Rightarrow> 'a::linorder MinMaxPrecomputedRow \<Rightarrow> 'a list \<Rightarrow> nat
   \<Rightarrow> error + 'a MinMaxPrecomputedRow" where
  "max_precomputed_row_fill = precomputed_row_fill True"

definition min_precomputed_row_fill ::
  "MinMaxPrecomputedReq \<Rightarrow> 'a::linorder MinMaxPrecomputedRow \<Rightarrow> 'a list \<Rightarrow> nat
   \<Rightarrow> error + 'a MinMaxPrecomputedRow" where
  "min_precomputed_row_fill = precomputed_row_fill False"

definition min_max_precomputed_row_copy ::
  "'a MinMaxPrecomputedRow \<Rightarrow> 'a MinMaxPrecomputedRow \<Rightarrow> MinMaxPrecomputedReq \<Rightarrow> nat
   \<Rightarrow> 'a MinMaxPrecomputedRow" where
  "min_max_precomputed_row_copy target source req rowlen =
     target\<lparr>row_each := row_each source, row_even := row_even source\<rparr>"

record 'a GwyDataField =
  xres :: nat
  yres :: nat
  data :: "'a list"

record MaskSegment =
  seg_row :: nat
  seg_col :: nat
  seg_len :: nat

function rle_scan_row :: "'a::zero list \<Rightarrow> nat \<Rightarrow> nat \<Rightarrow> nat \<Rightarrow> nat \<Rightarrow> MaskSegment list" where
  "rle_scan_row d xr i j l =
     (if j + l < xr then
        (if d ! (i * xr + j + l) \<noteq> 0 then rle_scan_row d xr i j (l + 1)
         else if l \<noteq> 0 then
           \<lparr>seg_row = i, seg_col = j, seg_len = l\<rparr> # rle_scan_row d xr i (j + l + 1) 0
         else rle_scan_row d xr i (j + 1) 0)
      else if l \<noteq> 0 then [\<lparr>seg_row = i, seg_col = j, seg_len = l\<rparr>]
      else [])"
  by pat_completeness auto
termination
  by (relation "measure (\<lambda>(d, xr, i, j, l). xr - (j + l))") auto

declare rle_scan_row.simps [simp del]

definition run_length_encode_mask :: "'a::zero GwyDataField \<Rightarrow> MaskSegment list" where
  "run_length_encode_mask mask_field =
     concat (map (\<lambda>i. rle_scan_row (data mask_field) (xres mask_field) i 0 0)
               [0..<yres mask_field])"

definition find_required_lengths_for_rle :: "MaskSegment list \<Rightarrow> error + MinMaxPrecomputedReq" where
  "find_required_lengths_for_rle mrle = find_required_lengths_for_set (map seg_len mrle)"

definition row_extend_base :: "nat \<Rightarrow> nat \<Rightarrow> nat \<Rightarrow> nat \<Rightarrow> nat \<Rightarrow> nat \<times> nat \<times> nat \<times> nat" where
  "row_extend_base pos width res extend_left extend_right =
     (let e2r = min extend_right (res - (pos + width));
          width = width + e2r;
          extend_right = extend_right - e2r;
          e2l = min extend_left pos;
          width = width + e2l;
          extend_left = extend_left - e2l;
          pos = pos - e2l
      in (pos, width, extend_left, extend_right))"

definition row_extend_border :: "'a list \<Rightarrow> nat \<Rightarrow> nat \<Rightarrow> nat \<Rightarrow> nat \<Rightarrow> nat \<Rightarrow> 'a list" where
  "row_extend_border inp pos width res extend_left extend_right =
     (let (pos, width, extend_left, extend_right) =
            row_extend_base pos width res extend_left extend_right
      in replicate extend_left (inp ! 0) @ take width (drop pos inp)
         @ replicate extend_right (inp ! (res - 1)))"

definition segment_data :: "'a MinMaxPrecomputedRow list \<Rightarrow> MaskSegment \<Rightarrow> nat \<Rightarrow> error + 'a list" where
  "segment_data prows seg width =
     (if seg_row seg < length prows then
        bind_err (buffer_at (row_each (prows ! seg_row seg)) (seg_len seg)) (\<lambda>buf.
          case buf of
            None \<Rightarrow> Inl Invalid_Access
          | Some b \<Rightarrow>
              if seg_col seg + width \<le> length b then Inr (take width (drop (seg_col seg) b))
              else Inl Invalid_Access)
      else Inl Invalid_Access)"

fun fold_segments ::
  "bool \<Rightarrow> 'a::linorder MinMaxPrecomputedRow list \<Rightarrow> nat \<Rightarrow> MaskSegment list \<Rightarrow> 'a list
   \<Rightarrow> error + 'a list" where
  "fold_segments maximum prows width [] outbuf = Inr outbuf"
| "fold_segments maximum prows width (seg # segs) outbuf =
     bind_err (segment_data prows seg width) (\<lambda>segdata.
       fold_segments maximum prows width segs
         (map2 (\<lambda>out s. if maximum then (if out < s then s else out)
                          else (if out > s then s else out)) outbuf segdata))"

definition mask_rle_execute_min_max ::
  "MaskSegment list \<Rightarrow> 'a::linorder MinMaxPrecomputedRow list \<Rightarrow> nat \<Rightarrow> bool \<Rightarrow> error + 'a list" where
  "mask_rle_execute_min_max mrle prows width maximum =
     (case mrle of
        [] \<Rightarrow> Inl No_Segment
      | seg # segs \<Rightarrow>
          bind_err (segment_data prows seg width) (\<lambda>segdata.
            fold_segments maximum prows width segs segdata))"

record 'a MinMaxPrecomputed =
  mmp_mrle :: "MaskSegment list"
  mmp_req :: MinMaxPrecomputedReq
  mmp_prows :: "'a MinMaxPrecomputedRow list"
  mmp_rowbuflen :: nat
  mmp_kxres :: nat
  mmp_kyres :: nat

definition gwy_data_field_area_rle_analyse ::
  "(nat \<Rightarrow> nat \<Rightarrow> 'a) \<Rightarrow> 'a::zero GwyDataField \<Rightarrow> nat \<Rightarrow> error + 'a MinMaxPrecomputed option" where
  "gwy_data_field_area_rle_analyse storage kernel_field width =
     (let rowbuflen = width + xres kernel_field - 1;
          segs = run_length_encode_mask kernel_field
      in if segs = [] then Inr None
         else
           bind_err (find_required_lengths_for_rle segs) (\<lambda>r.
             Inr (Some \<lparr>mmp_mrle = segs, mmp_req = r,
                        mmp_prows = map (\<lambda>i. min_max_precomputed_row_alloc r rowbuflen (storage i))
                                  [0..<yres kernel_field],
                        mmp_rowbuflen = rowbuflen, mmp_kxres = xres kernel_field,
                        mmp_kyres = yres kernel_field\<rparr>)))"

definition compare_segment_key :: "MaskSegment \<Rightarrow> nat \<times> nat" where
  "compare_segment_key seg = (seg_row seg, seg_col seg)"

definition gwy_data_field_area_rle_flip :: "MaskSegment list \<Rightarrow> nat \<Rightarrow> nat \<Rightarrow> MaskSegment list" where
  "gwy_data_field_area_rle_flip segs kx ky =
     sort_key compare_segment_key
       (map (\<lambda>seg. seg\<lparr>seg_col := kx - seg_col seg - seg_len seg,
                         seg_row := ky - 1 - seg_row seg\<rparr>) segs)"

record extends =
  ext_up :: nat
  ext_down :: nat
  ext_left :: nat
  ext_right :: nat

definition min_max_extends :: "bool \<Rightarrow> nat \<Rightarrow> nat \<Rightarrow> extends" where
  "min_max_extends maximum kx ky =
     (if maximum then
        \<lparr>ext_up = ky div 2, ext_down = (ky - 1) div 2,
         ext_left = kx div 2, ext_right = (kx - 1) div 2\<rparr>
      else
        \<lparr>ext_up = (ky - 1) div 2, ext_down = ky div 2,
         ext_left = (kx - 1) div 2, ext_right = kx div 2\<rparr>)"

definition field_row :: "'a GwyDataField \<Rightarrow> nat \<Rightarrow> 'a list" where
  "field_row dfield r = take (xres dfield) (drop (xres dfield * r) (data dfield))"

definition precompute_field_row ::
  "'a::linorder GwyDataField \<Rightarrow> 'a MinMaxPrecomputed \<Rightarrow> bool \<Rightarrow> extends \<Rightarrow> nat \<Rightarrow> nat \<Rightarrow> nat
   \<Rightarrow> 'a MinMaxPrecomputedRow \<Rightarrow> error + 'a MinMaxPrecomputedRow" where
  "precompute_field_row dfield mmp maximum ext col width r prow =
     (let extrowbuf = row_extend_border (field_row dfield r) col width (xres dfield)
                        (ext_left ext) (ext_right ext)
      in precomputed_row_fill maximum (mmp_req mmp) prow extrowbuf (mmp_rowbuflen mmp))"

function seed_rows_down ::
  "'a::linorder GwyDataField \<Rightarrow> 'a MinMaxPrecomputed \<Rightarrow> bool \<Rightarrow> extends \<Rightarrow> nat \<Rightarrow> nat \<Rightarrow> nat
   \<Rightarrow> 'a MinMaxPrecomputedRow list \<Rightarrow> nat \<Rightarrow> error + 'a MinMaxPrecomputedRow list" where
  "seed_rows_down dfield mmp maximum ext col row width rows i =
     (if i \<le> ext_down ext then
        (if row + i < yres dfield then
           bind_err (precompute_field_row dfield mmp maximum ext col width (row + i)
                       (rows ! (i + ext_up ext))) (\<lambda>prow.
             seed_rows_down dfield mmp maximum ext col row width
               (rows[i + ext_up ext := prow]) (i + 1))
         else
           seed_rows_down dfield mmp maximum ext col row width
             (rows[i := min_max_precomputed_row_copy (rows ! i) (rows ! (i - 1))
                          (mmp_req mmp) (mmp_rowbuflen mmp)]) (i + 1))
      else Inr rows)"
  by pat_completeness auto
termination
  by (relation "measure (\<lambda>(dfield, mmp, maximum, ext, col, row, width, rows, i).
        ext_down ext + 1 - i)") auto

function seed_rows_up ::
  "'a::linorder GwyDataField \<Rightarrow> 'a MinMaxPrecomputed \<Rightarrow> bool \<Rightarrow> extends \<Rightarrow> nat \<Rightarrow> nat \<Rightarrow> nat
   \<Rightarrow> 'a MinMaxPrecomputedRow list \<Rightarrow> nat \<Rightarrow> error + 'a MinMaxPrecomputedRow list" where
  "seed_rows_up dfield mmp maximum ext col row width rows i =
     (if i \<le> ext_up ext then
        (let ii = ext_up ext - i in
         if i \<le> row then
           bind_err (precompute_field_row dfield mmp maximum ext col width (row - i)
                       (rows ! ii)) (\<lambda>prow.
             seed_rows_up dfield mmp maximum ext col row width (rows[ii := prow]) (i + 1))
         else
           seed_rows_up dfield mmp maximum ext col row width
             (rows[ii := min_max_precomputed_row_copy (rows ! ii)
                           (rows ! ((ii + 1) mod mmp_kyres mmp)) (mmp_req mmp) (mmp_rowbuflen mmp)]) (i + 1))
      else Inr rows)"
  by pat_completeness auto
termination
  by (relation "measure (\<lambda>(dfield, mmp, maximum, ext, col, row, width, rows, i).
        ext_up ext + 1 - i)") auto

function sweep_rows ::
  "'a::linorder GwyDataField \<Rightarrow> 'a MinMaxPrecomputed \<Rightarrow> bool \<Rightarrow> extends \<Rightarrow> nat \<Rightarrow> nat \<Rightarrow> nat
   \<Rightarrow> nat \<Rightarrow> 'a MinMaxPrecomputedRow list \<Rightarrow> 'a list \<Rightarrow> nat
   \<Rightarrow> error + 'a MinMaxPrecomputedRow list \<times> 'a list" where
  "sweep_rows dfield mmp maximum ext col row width height rows outbuf i =
     bind_err (mask_rle_execute_min_max (mmp_mrle mmp) rows width maximum) (\<lambda>out_row.
       let outbuf = outbuf @ out_row;
           i = i + 1
       in if i \<ge> height then Inr (rows, outbuf)
          else
            let prow = rows ! 0;
                rows = rotate1 rows;
                ii = row + i + ext_down ext
            in if ii < yres dfield then
                 bind_err (precompute_field_row dfield mmp maximum ext col width ii prow) (\<lambda>prow.
                   sweep_rows dfield mmp maximum ext col row width height
                     (rows[mmp_kyres mmp - 1 := prow]) outbuf i)
               else if \<not> mmp_kyres mmp \<ge> 2 then Inl Assertion_Failed
               else
                 sweep_rows dfield mmp maximum ext col row width height
                   (rows[mmp_kyres mmp - 1 :=
                      min_max_precomputed_row_copy prow (rows ! (mmp_kyres mmp - 2))
                        (mmp_req mmp) (mmp_rowbuflen mmp)]) outbuf i)"
  by pat_completeness auto
termination
  by (relation "measure (\<lambda>(dfield, mmp, maximum, ext, col, row, width, height, rows, outbuf, i).
        height - i)") auto

declare seed_rows_down.simps [simp del] seed_rows_up.simps [simp del] sweep_rows.simps [simp del]

definition gwy_data_field_area_min_max_execute ::
  "'a::linorder GwyDataField \<Rightarrow> 'a MinMaxPrecomputed \<Rightarrow> bool \<Rightarrow> nat \<Rightarrow> nat \<Rightarrow> nat \<Rightarrow> nat
   \<Rightarrow> error + 'a MinMaxPrecomputed \<times> 'a list" where
  "gwy_data_field_area_min_max_execute dfield mmp maximum col row width height =
     (let ext = min_max_extends maximum (mmp_kxres mmp) (mmp_kyres mmp) in
      bind_err (seed_rows_down dfield mmp maximum ext col row width (mmp_prows mmp) 0) (\<lambda>rows.
      bind_err (seed_rows_up dfield mmp maximum ext col row width rows 1) (\<lambda>rows.
      bind_err (sweep_rows dfield mmp maximum ext col row width height rows [] 0)
        (\<lambda>(rows, outbuf). Inr (mmp\<lparr>mmp_prows := rows\<rparr>, outbuf)))))"

definition kernel_is_nonempty :: "'a::zero GwyDataField \<Rightarrow> bool" where
  "kernel_is_nonempty dfield =
     (\<exists>i \<in> set [0..<xres dfield * yres dfield]. data dfield ! i \<noteq> 0)"

datatype GwyMinMaxFilterType =
    GWY_MIN_MAX_FILTER_MINIMUM
  | GWY_MIN_MAX_FILTER_MAXIMUM
  | GWY_MIN_MAX_FILTER_RANGE
  | GWY_MIN_MAX_FILTER_NORMALIZATION
  | GWY_MIN_MAX_FILTER_OPENING
  | GWY_MIN_MAX_FILTER_CLOSING

definition area_update ::
  "(nat \<Rightarrow> nat \<Rightarrow> 'a \<Rightarrow> 'a) \<Rightarrow> nat \<Rightarrow> nat \<Rightarrow> nat \<Rightarrow> nat \<Rightarrow> nat \<Rightarrow> 'a list \<Rightarrow> 'a list" where
  "area_update f xr col row width height d =
     fold (\<lambda>i d. fold (\<lambda>j d. d[(row + i) * xr + col + j :=
                                   f i j (d ! ((row + i) * xr + col + j))]) [0..<width] d)
       [0..<height] d"

text \<open>
  The facade ignores the result of \<open>gwy_data_field_area_rle_analyse\<close>: when the analysis
  finds no segment it frees the encoding and returns \<open>FALSE\<close>, and the caller goes on to
  the executor all the same, whose read of the first segment then has no segment to read.
  Like the read of an empty encoding in \<open>mask_rle_execute_min_max\<close>, this is the error
  \<open>No_Segment\<close>.
\<close>

definition analysed ::
  "error + 'a MinMaxPrecomputed option \<Rightarrow> error + 'a MinMaxPrecomputed" where
  "analysed r = bind_err r (\<lambda>m. case m of None \<Rightarrow> Inl No_Segment | Some mmp \<Rightarrow> Inr mmp)"

definition flip_mrle :: "'a MinMaxPrecomputed \<Rightarrow> 'a MinMaxPrecomputed" where
  "flip_mrle mmp =
     mmp\<lparr>mmp_mrle := gwy_data_field_area_rle_flip (mmp_mrle mmp) (mmp_kxres mmp) (mmp_kyres mmp)\<rparr>"

definition filter_min_or_max ::
  "(nat \<Rightarrow> nat \<Rightarrow> nat \<Rightarrow> 'a) \<Rightarrow> 'a::linordered_field GwyDataField \<Rightarrow> 'a GwyDataField
   \<Rightarrow> bool \<Rightarrow> nat \<Rightarrow> nat \<Rightarrow> nat \<Rightarrow> nat \<Rightarrow> error + 'a GwyDataField" where
  "filter_min_or_max storage data_field kernel_field is_max c r w h =
     bind_err (analysed (gwy_data_field_area_rle_analyse (storage 0) kernel_field w)) (\<lambda>mmp.
     bind_err (gwy_data_field_area_min_max_execute data_field
                 (if is_max then flip_mrle mmp else mmp) is_max c r w h)
       (\<lambda>(mmp, outbuf).
          Inr (data_field\<lparr>data :=
                 area_update (\<lambda>i j v. outbuf ! (i * w + j)) (xres data_field) c r w h
                   (data data_field)\<rparr>)))"

definition filter_range_or_normalization ::
  "(nat \<Rightarrow> nat \<Rightarrow> nat \<Rightarrow> 'a) \<Rightarrow> 'a::linordered_field GwyDataField \<Rightarrow> 'a GwyDataField
   \<Rightarrow> bool \<Rightarrow> nat \<Rightarrow> nat \<Rightarrow> nat \<Rightarrow> nat \<Rightarrow> error + 'a GwyDataField" where
  "filter_range_or_normalization storage data_field kernel_field is_range c r w h =
     bind_err (analysed (gwy_data_field_area_rle_analyse (storage 0) kernel_field w)) (\<lambda>mmp.
     bind_err (gwy_data_field_area_min_max_execute data_field mmp False c r w h)
       (\<lambda>(mmp, outbuf).
     bind_err (gwy_data_field_area_min_max_execute data_field (flip_mrle mmp) True c r w h)
       (\<lambda>(mmp, outbuf2).
          if is_range then
            Inr (data_field\<lparr>data :=
                   area_update (\<lambda>i j v. outbuf2 ! (i * w + j) - outbuf ! (i * w + j))
                     (xres data_field) c r w h (data data_field)\<rparr>)
          else
            Inr (data_field\<lparr>data :=
                   area_update (\<lambda>i j v.
                       let mn = outbuf ! (i * w + j); mx = outbuf2 ! (i * w + j)
                       in if mn = mx then 1 / 2 else (v - mn) / (mx - mn))
                     (xres data_field) c r w h (data data_field)\<rparr>))))"

definition filter_opening_or_closing ::
  "(nat \<Rightarrow> nat \<Rightarrow> nat \<Rightarrow> 'a) \<Rightarrow> 'a::linordered_field GwyDataField \<Rightarrow> 'a GwyDataField
   \<Rightarrow> bool \<Rightarrow> int \<Rightarrow> int \<Rightarrow> int \<Rightarrow> int \<Rightarrow> error + 'a GwyDataField" where
  "filter_opening_or_closing storage data_field kernel_field is_closing col row width height =
     (let kxr = int (xres kernel_field); kyr = int (yres kernel_field);
          extcol = max 0 (col - kxr div 2);
          extrow = max 0 (row - kyr div 2);
          extwidth = min (int (xres data_field)) (col + width + kxr div 2) - extcol;
          extheight = min (int (yres data_field)) (row + height + kyr div 2) - extrow
      in
      bind_err (analysed (gwy_data_field_area_rle_analyse (storage 0) kernel_field (nat extwidth)))
        (\<lambda>mmp.
      bind_err (gwy_data_field_area_min_max_execute data_field
                  (if is_closing then flip_mrle mmp else mmp) is_closing
                  (nat extcol) (nat extrow) (nat extwidth) (nat extheight))
        (\<lambda>(mmp, tmpdata).
      bind_err
        (if extcol = col \<and> extrow = row \<and> extwidth = width \<and> extheight = height
         then Inr (flip_mrle mmp)
         else
           bind_err (analysed (gwy_data_field_area_rle_analyse (storage 1) kernel_field (nat width)))
             (\<lambda>mmp. Inr (if \<not> is_closing then flip_mrle mmp else mmp)))
        (\<lambda>mmp.
      bind_err (gwy_data_field_area_min_max_execute
                  \<lparr>xres = nat extwidth, yres = nat extheight, data = tmpdata\<rparr>
                  mmp (\<not> is_closing) (nat (col - extcol)) (nat (row - extrow))
                  (nat width) (nat height))
        (\<lambda>(mmp, outbuf).
           Inr (data_field\<lparr>data :=
                  area_update (\<lambda>i j v. outbuf ! (i * nat width + j)) (xres data_field)
                    (nat col) (nat row) (nat width) (nat height) (data data_field)\<rparr>))))))"

definition gwy_data_field_area_filter_min_max_real ::
  "(nat \<Rightarrow> nat \<Rightarrow> nat \<Rightarrow> 'a) \<Rightarrow> 'a::linordered_field GwyDataField \<Rightarrow> 'a GwyDataField
   \<Rightarrow> GwyMinMaxFilterType \<Rightarrow> int \<Rightarrow> int \<Rightarrow> int \<Rightarrow> int \<Rightarrow> error + 'a GwyDataField" where
  "gwy_data_field_area_filter_min_max_real storage data_field kernel_field filtertype
       col row width height =
     (if \<not> (col \<ge> 0 \<and> row \<ge> 0 \<and> width > 0 \<and> height > 0
             \<and> col + width \<le> int (xres data_field) \<and> row + height \<le> int (yres data_field))
      then Inl Precondition_Failed
      else if filtertype = GWY_MIN_MAX_FILTER_MINIMUM \<or> filtertype = GWY_MIN_MAX_FILTER_MAXIMUM
      then filter_min_or_max storage data_field kernel_field
             (filtertype = GWY_MIN_MAX_FILTER_MAXIMUM) (nat col) (nat row) (nat width) (nat height)
      else if filtertype = GWY_MIN_MAX_FILTER_RANGE
              \<or> filtertype = GWY_MIN_MAX_FILTER_NORMALIZATION
      then filter_range_or_normalization storage data_field kernel_field
             (filtertype = GWY_MIN_MAX_FILTER_RANGE) (nat col) (nat row) (nat width) (nat height)
      else filter_opening_or_closing storage data_field kernel_field
             (filtertype = GWY_MIN_MAX_FILTER_CLOSING) col row width height)"

record 'a filter_state =
  st_data_field :: "'a GwyDataField"
  st_kernel :: "'a GwyDataField"

definition gwy_data_field_duplicate :: "'a GwyDataField \<Rightarrow> 'a GwyDataField" where
  "gwy_data_field_duplicate f = \<lparr>xres = xres f, yres = yres f, data = data f\<rparr>"

definition gwy_data_field_area_filter_min_max ::
  "('a GwyDataField \<Rightarrow> 'a GwyDataField) \<Rightarrow> (nat \<Rightarrow> nat \<Rightarrow> nat \<Rightarrow> 'a)
   \<Rightarrow> 'a::linordered_field filter_state \<Rightarrow> GwyMinMaxFilterType \<Rightarrow> int \<Rightarrow> int \<Rightarrow> int \<Rightarrow> int
   \<Rightarrow> error + 'a filter_state" where
  "gwy_data_field_area_filter_min_max autocrop storage st filtertype col row width height =
     (let redkernel = gwy_data_field_duplicate (st_kernel st);
          redkernel = autocrop redkernel
      in if kernel_is_nonempty redkernel then
           bind_err (gwy_data_field_area_filter_min_max_real storage (st_data_field st) redkernel
                       filtertype col row width height)
             (\<lambda>data_field. Inr (st\<lparr>st_data_field := data_field\<rparr>))
         else Inr st)"

text \<open>
  The alternating sequential filter calls \<open>gwy_data_field_area_filter_min_max_real\<close>
  directly, twice for each radius, on a disc drawn by \<open>gwy_data_field_elliptic_area_fill\<close>
  into a zero-filled square field. The fill routine is not part of the sources and is the
  parameter \<open>elliptic_area_fill\<close>; the contents of freshly allocated row buffers are the
  parameter \<open>storage\<close>, indexed by the call.
\<close>

definition gwy_data_field_new :: "nat \<Rightarrow> nat \<Rightarrow> 'a::zero GwyDataField" where
  "gwy_data_field_new xr yr = \<lparr>xres = xr, yres = yr, data = replicate (xr * yr) 0\<rparr>"

function disc_asf_loop ::
  "('a GwyDataField \<Rightarrow> int \<Rightarrow> int \<Rightarrow> int \<Rightarrow> int \<Rightarrow> 'a \<Rightarrow> 'a GwyDataField)
   \<Rightarrow> (nat \<Rightarrow> nat \<Rightarrow> nat \<Rightarrow> nat \<Rightarrow> 'a) \<Rightarrow> 'a::linordered_field GwyDataField
   \<Rightarrow> GwyMinMaxFilterType \<Rightarrow> GwyMinMaxFilterType \<Rightarrow> int \<Rightarrow> int \<Rightarrow> int \<Rightarrow> int
   \<Rightarrow> int \<Rightarrow> int \<Rightarrow> error + 'a GwyDataField" where
  "disc_asf_loop elliptic_area_fill storage data_field filtertype1 filtertype2
       col row width height r radius =
     (if r \<le> radius then
        (let ksize = 2 * r + 1;
             kernel_field = elliptic_area_fill (gwy_data_field_new (nat ksize) (nat ksize))
                              0 0 ksize ksize 1
         in
         bind_err (gwy_data_field_area_filter_min_max_real (storage (nat (2 * r))) data_field
                     kernel_field filtertype1 col row width height) (\<lambda>data_field.
         bind_err (gwy_data_field_area_filter_min_max_real (storage (nat (2 * r + 1))) data_field
                     kernel_field filtertype2 col row width height) (\<lambda>data_field.
         disc_asf_loop elliptic_area_fill storage data_field filtertype1 filtertype2
           col row width height (r + 1) radius)))
      else Inr data_field)"
  by pat_completeness auto
termination
  by (relation "measure (\<lambda>(elliptic_area_fill, storage, data_field, filtertype1, filtertype2,
        col, row, width, height, r, radius). nat (radius + 1 - r))") auto

declare disc_asf_loop.simps [simp del]

definition gwy_data_field_area_filter_disc_asf ::
  "('a GwyDataField \<Rightarrow> int \<Rightarrow> int \<Rightarrow> int \<Rightarrow> int \<Rightarrow> 'a \<Rightarrow> 'a GwyDataField)
   \<Rightarrow> (nat \<Rightarrow> nat \<Rightarrow> nat \<Rightarrow> nat \<Rightarrow> 'a) \<Rightarrow> 'a::linordered_field GwyDataField
   \<Rightarrow> int \<Rightarrow> bool \<Rightarrow> int \<Rightarrow> int \<Rightarrow> int \<Rightarrow> int \<Rightarrow> error + 'a GwyDataField" where
  "gwy_data_field_area_filter_disc_asf elliptic_area_fill storage data_field radius closing
       col row width height =
     (if \<not> (col \<ge> 0 \<and> row \<ge> 0 \<and> width > 0 \<and> height > 0
             \<and> col + width \<le> int (xres data_field) \<and> row + height \<le> int (yres data_field))
      then Inl Precondition_Failed
      else
        disc_asf_loop elliptic_area_fill storage data_field
          (if closing then GWY_MIN_MAX_FILTER_OPENING else GWY_MIN_MAX_FILTER_CLOSING)
          (if closing then GWY_MIN_MAX_FILTER_CLOSING else GWY_MIN_MAX_FILTER_OPENING)
          col row width height 1 radius)"

section \<open>Specification predicates\<close>

subsection \<open>Well-formed plans\<close>

definition wf_even :: "MinMaxPrecomputedReq \<Rightarrow> nat \<Rightarrow> bool" where
  "wf_even req L =
     (let p = req_even req ! L in
      L mod 2 = 0 \<and> 2 \<le> L \<and> \<not> even_odd p \<and> sublen1 p + sublen2 p = L \<and>
      (if L = 2 then sublen1 p = 1 \<and> sublen2 p = 1 \<and> \<not> even_even p \<and> each_needed req 1
       else even_even p \<and> even_needed req (sublen1 p) \<and> even_needed req (sublen2 p) \<and>
            (if L mod 4 = 0 then sublen1 p = L div 2 \<and> sublen2 p = L div 2
             else sublen1 p = L div 2 - 1 \<and> sublen2 p = L div 2 + 1)))"

definition wf_each :: "MinMaxPrecomputedReq \<Rightarrow> nat \<Rightarrow> bool" where
  "wf_each req L =
     (let p = req_each req ! L in
      1 \<le> L \<and>
      (2 \<le> L \<longrightarrow>
         \<not> even_even p \<and> sublen1 p + sublen2 p = L \<and> 1 \<le> sublen1 p \<and> 1 \<le> sublen2 p \<and>
         each_needed req (sublen2 p) \<and>
         (if even_odd p then sublen1 p mod 2 = 0 \<and> sublen2 p mod 2 = 1 \<and> even_needed req (sublen1 p)
          else each_needed req (sublen1 p))))"

definition plan_ext :: "MinMaxPrecomputedReq \<Rightarrow> MinMaxPrecomputedReq \<Rightarrow> bool" where
  "plan_ext req req' \<longleftrightarrow>
     maxlen_each req' = maxlen_each req \<and>
     length (req_each req') = length (req_each req) \<and>
     length (req_even req') = length (req_even req) \<and>
     (\<forall>L < length (req_each req). each_needed req L \<longrightarrow> req_each req' ! L = req_each req ! L) \<and>
     (\<forall>L < length (req_even req). even_needed req L \<longrightarrow> req_even req' ! L = req_even req ! L)"

definition frame_from :: "nat \<Rightarrow> MinMaxPrecomputedReq \<Rightarrow> MinMaxPrecomputedReq \<Rightarrow> bool" where
  "frame_from b req req' \<longleftrightarrow>
     (\<forall>L \<ge> b. (L < length (req_each req) \<longrightarrow> req_each req' ! L = req_each req ! L) \<and>
              (L < length (req_even req) \<longrightarrow> req_even req' ! L = req_even req ! L))"

definition wf_below :: "nat \<Rightarrow> MinMaxPrecomputedReq \<Rightarrow> bool" where
  "wf_below N req \<longleftrightarrow>
     (\<forall>L < N. (each_needed req L \<longrightarrow> wf_each req L) \<and> (even_needed req L \<longrightarrow> wf_even req L))"

definition tbl_needed :: "bool \<Rightarrow> MinMaxPrecomputedReq \<Rightarrow> nat \<Rightarrow> bool" where
  "tbl_needed t req L = (if t then even_needed req L else each_needed req L)"

definition planner_post ::
  "MinMaxPrecomputedReq \<Rightarrow> nat \<Rightarrow> bool \<Rightarrow> nat \<Rightarrow> MinMaxPrecomputedReq \<Rightarrow> bool" where
  "planner_post req b t N req' \<longleftrightarrow>
     plan_ext req req' \<and> wf_below N req' \<and> tbl_needed t req' b \<and> frame_from (Suc b) req req' \<and>
     (if t then req_each req' ! b = req_each req ! b else req_even req' ! b = req_even req ! b)"

definition mk_len :: "MinMaxPrecomputedLen \<Rightarrow> nat \<Rightarrow> nat \<Rightarrow> bool \<Rightarrow> bool \<Rightarrow> MinMaxPrecomputedLen" where
  "mk_len p s1 s2 eo ee = p\<lparr>needed := True, sublen1 := s1, sublen2 := s2, even_even := ee, even_odd := eo\<rparr>"

definition plan_ok :: "MinMaxPrecomputedReq \<Rightarrow> bool" where
  "plan_ok req \<longleftrightarrow>
     length (req_each req) = maxlen_each req + 1 \<and>
     length (req_even req) = maxlen_each req + 1 \<and>
     maxlen_even req \<le> maxlen_each req \<and>
     wf_below (maxlen_each req + 1) req \<and>
     (\<forall>L \<le> maxlen_each req. even_needed req L \<longrightarrow> L \<le> maxlen_even req)"

subsection \<open>Border extension\<close>

definition clamp_index :: "nat \<Rightarrow> int \<Rightarrow> nat" where
  "clamp_index res i = nat (max 0 (min (int res - 1) i))"

subsection \<open>Row buffers: exact window extrema\<close>

definition window_extremum :: "bool \<Rightarrow> 'a::linorder list \<Rightarrow> nat \<Rightarrow> nat \<Rightarrow> 'a" where
  "window_extremum maximum x i L =
     (if maximum then Max (set (take L (drop i x))) else Min (set (take L (drop i x))))"

definition each_buf_ok :: "bool \<Rightarrow> nat \<Rightarrow> 'a::linorder list \<Rightarrow> 'a MinMaxPrecomputedRow \<Rightarrow> nat \<Rightarrow> bool" where
  "each_buf_ok maximum rowlen x prow L \<longleftrightarrow>
     (\<exists>buf. row_each prow ! L = Some buf \<and> length buf = rowlen \<and>
        (\<forall>i. i + L \<le> rowlen \<longrightarrow> buf ! i = window_extremum maximum x i L))"

definition even_buf_ok :: "bool \<Rightarrow> nat \<Rightarrow> 'a::linorder list \<Rightarrow> 'a MinMaxPrecomputedRow \<Rightarrow> nat \<Rightarrow> bool" where
  "even_buf_ok maximum rowlen x prow L \<longleftrightarrow>
     (\<exists>buf. row_even prow ! L = Some buf \<and> length buf = rowlen \<and>
        (\<forall>i. i mod 2 = 0 \<and> i + L \<le> rowlen \<longrightarrow> buf ! i = window_extremum maximum x i L))"

definition prow_shape :: "MinMaxPrecomputedReq \<Rightarrow> nat \<Rightarrow> 'a MinMaxPrecomputedRow \<Rightarrow> bool" where
  "prow_shape req rowlen prow \<longleftrightarrow>
     length (row_each prow) = maxlen_each req + 1 \<and>
     (\<forall>L \<le> maxlen_each req. each_needed req L \<longrightarrow>
        (\<exists>buf. row_each prow ! L = Some buf \<and> length buf = rowlen)) \<and>
     (0 < maxlen_even req \<longrightarrow> length (row_even prow) = maxlen_even req + 1) \<and>
     (\<forall>L \<le> maxlen_even req. even_needed req L \<longrightarrow>
        (\<exists>buf. row_even prow ! L = Some buf \<and> length buf = rowlen))"

definition fill_inv ::
  "bool \<Rightarrow> MinMaxPrecomputedReq \<Rightarrow> nat \<Rightarrow> 'a::linorder list \<Rightarrow> 'a MinMaxPrecomputedRow
   \<Rightarrow> nat \<Rightarrow> nat \<Rightarrow> bool" where
  "fill_inv maximum req rowlen x prow ke kv \<longleftrightarrow>
     prow_shape req rowlen prow \<and>
     (\<forall>L. 1 \<le> L \<and> L < ke \<and> L \<le> maxlen_each req \<and> each_needed req L \<longrightarrow>
        each_buf_ok maximum rowlen x prow L) \<and>
     (\<forall>L. L < kv \<and> L \<le> maxlen_even req \<and> even_needed req L \<longrightarrow>
        even_buf_ok maximum rowlen x prow L)"

subsection \<open>Kernel cells, windows and brute-force morphology\<close>

text \<open>
  The cells a run-length encoding covers, the nonzero cells of a kernel, and the
  conditions under which the executor's reads stay inside the row buffers.
\<close>

definition seg_cells :: "MaskSegment list \<Rightarrow> (nat \<times> nat) set" where
  "seg_cells segs = {(seg_row s, seg_col s + t) | s t. s \<in> set segs \<and> t < seg_len s}"

definition seg_wf :: "nat \<Rightarrow> nat \<Rightarrow> MaskSegment \<Rightarrow> bool" where
  "seg_wf kx ky s \<longleftrightarrow> seg_row s < ky \<and> 1 \<le> seg_len s \<and> seg_col s + seg_len s \<le> kx"

definition kernel_cells :: "'a::zero GwyDataField \<Rightarrow> (nat \<times> nat) list" where
  "kernel_cells k =
     concat (map (\<lambda>a. map (\<lambda>b. (a, b))
                         (filter (\<lambda>b. data k ! (a * xres k + b) \<noteq> 0) [0..<xres k]))
               [0..<yres k])"

definition extremum :: "bool \<Rightarrow> 'a::linorder set \<Rightarrow> 'a" where
  "extremum maximum S = (if maximum then Max S else Min S)"

definition row_ready ::
  "bool \<Rightarrow> MinMaxPrecomputedReq \<Rightarrow> nat \<Rightarrow> 'a::linorder list \<Rightarrow> 'a MinMaxPrecomputedRow \<Rightarrow> bool" where
  "row_ready maximum req rowlen x prow \<longleftrightarrow>
     length x = rowlen \<and>
     fill_inv maximum req rowlen x prow (maxlen_each req + 1) (maxlen_each req + 1)"

definition seg_ok :: "MinMaxPrecomputedReq \<Rightarrow> nat \<Rightarrow> nat \<Rightarrow> nat \<Rightarrow> MaskSegment \<Rightarrow> bool" where
  "seg_ok req rowlen width ky s \<longleftrightarrow>
     seg_row s < ky \<and> 1 \<le> seg_len s \<and> seg_len s \<le> maxlen_each req \<and>
     each_needed req (seg_len s) \<and> seg_col s + seg_len s + width \<le> rowlen + 1"

definition src_row :: "'a GwyDataField \<Rightarrow> extends \<Rightarrow> nat \<Rightarrow> nat \<Rightarrow> int \<Rightarrow> 'a list" where
  "src_row F ext col width r =
     row_extend_border (field_row F (clamp_index (yres F) r)) col width (xres F)
       (ext_left ext) (ext_right ext)"

definition exec_ctx ::
  "'a GwyDataField \<Rightarrow> 'a MinMaxPrecomputed \<Rightarrow> extends \<Rightarrow> nat \<Rightarrow> nat \<Rightarrow> nat \<Rightarrow> nat \<Rightarrow> bool" where
  "exec_ctx F mmp ext col row width height \<longleftrightarrow>
     length (data F) = xres F * yres F \<and> 0 < width \<and> 0 < height \<and>
     col + width \<le> xres F \<and> row + height \<le> yres F \<and>
     plan_ok (mmp_req mmp) \<and> each_needed (mmp_req mmp) 1 \<and> 1 \<le> maxlen_each (mmp_req mmp) \<and>
     mmp_mrle mmp \<noteq> [] \<and>
     (\<forall>s \<in> set (mmp_mrle mmp). seg_ok (mmp_req mmp) (mmp_rowbuflen mmp) width (mmp_kyres mmp) s) \<and>
     mmp_rowbuflen mmp = ext_left ext + width + ext_right ext \<and>
     ext_up ext + ext_down ext + 1 = mmp_kyres mmp"

definition rows_shaped :: "'a MinMaxPrecomputed \<Rightarrow> 'a MinMaxPrecomputedRow list \<Rightarrow> bool" where
  "rows_shaped mmp rows \<longleftrightarrow>
     length rows = mmp_kyres mmp \<and>
     (\<forall>k < mmp_kyres mmp. prow_shape (mmp_req mmp) (mmp_rowbuflen mmp) (rows ! k))"

definition window_value ::
  "bool \<Rightarrow> 'a::linorder GwyDataField \<Rightarrow> 'a MinMaxPrecomputed \<Rightarrow> extends \<Rightarrow> nat \<Rightarrow> nat \<Rightarrow> nat
   \<Rightarrow> nat \<Rightarrow> nat \<Rightarrow> 'a" where
  "window_value maximum F mmp ext col row width i j =
     extremum maximum
       ((\<lambda>(a, b). src_row F ext col width (int row + int i + int a - int (ext_up ext)) ! (b + j))
          ` seg_cells (mmp_mrle mmp))"

text \<open>
  Reference values, following the specification rather than the code: the border-extended
  pixel (coordinates clamped to the field, as in the macro
  \<open>gwy_data_field_get_val_closest\<close>), the erosion value (the minimum over the kernel's
  nonzero cells, taken relative to the centre cell \<open>((kyres - 1) div 2, (kxres - 1) div 2)\<close>)
  and the dilation value (the maximum over the point-reflected offsets). The executor is
  compared with them.
\<close>

definition pixel_at :: "'a GwyDataField \<Rightarrow> int \<Rightarrow> int \<Rightarrow> 'a" where
  "pixel_at F r c = data F ! (clamp_index (yres F) r * xres F + clamp_index (xres F) c)"

definition erosion_at :: "'a::linorder GwyDataField \<Rightarrow> 'b::zero GwyDataField \<Rightarrow> int \<Rightarrow> int \<Rightarrow> 'a" where
  "erosion_at F K r c =
     Min ((\<lambda>(a, b). pixel_at F (r + (int a - int ((yres K - 1) div 2)))
                                (c + (int b - int ((xres K - 1) div 2))))
            ` set (kernel_cells K))"

definition dilation_at :: "'a::linorder GwyDataField \<Rightarrow> 'b::zero GwyDataField \<Rightarrow> int \<Rightarrow> int \<Rightarrow> 'a" where
  "dilation_at F K r c =
     Max ((\<lambda>(a, b). pixel_at F (r - (int a - int ((yres K - 1) div 2)))
                                (c - (int b - int ((xres K - 1) div 2))))
            ` set (kernel_cells K))"

text \<open>
  The first seeding loop of the executor takes its else-branch (a source row below the
  field) only with \<open>extend_up = 0\<close>, or not at all.
\<close>

definition seeding_in_field :: "extends \<Rightarrow> nat \<Rightarrow> nat \<Rightarrow> bool" where
  "seeding_in_field ext row yr \<longleftrightarrow> ext_up ext = 0 \<or> row + ext_down ext < yr"

definition mmp_for :: "'b::zero GwyDataField \<Rightarrow> nat \<Rightarrow> 'a MinMaxPrecomputed \<Rightarrow> bool" where
  "mmp_for K w mmp \<longleftrightarrow>
     mmp_mrle mmp = run_length_encode_mask K \<and> run_length_encode_mask K \<noteq> [] \<and>
     find_required_lengths_for_set (map seg_len (run_length_encode_mask K)) = Inr (mmp_req mmp) \<and>
     mmp_rowbuflen mmp = w + xres K - 1 \<and> mmp_kxres mmp = xres K \<and> mmp_kyres mmp = yres K \<and>
     rows_shaped mmp (mmp_prows mmp)"

definition has_reflected_pair :: "'a::zero GwyDataField \<Rightarrow> bool" where
  "has_reflected_pair K \<longleftrightarrow>
     list_ex (\<lambda>(a, b). list_ex (\<lambda>(a', b'). a + a' = 2 * ((yres K - 1) div 2)
                                          \<and> b + b' = 2 * ((xres K - 1) div 2))
                          (kernel_cells K))
       (kernel_cells K)"

definition has_centre_cell :: "'a::zero GwyDataField \<Rightarrow> bool" where
  "has_centre_cell K \<longleftrightarrow> ((yres K - 1) div 2, (xres K - 1) div 2) \<in> set (kernel_cells K)"

section \<open>The length-requirement planner builds well-formed plans\<close>

lemma plan_ext_refl: "plan_ext req req"
  by (simp add: plan_ext_def)

lemma plan_ext_trans: "plan_ext a b \<Longrightarrow> plan_ext b c \<Longrightarrow> plan_ext a c"
  by (auto simp: plan_ext_def each_needed_def even_needed_def)

lemma frame_from_trans: "plan_ext a b \<Longrightarrow> frame_from n a b \<Longrightarrow> frame_from n b c \<Longrightarrow> frame_from n a c"
  by (auto simp: frame_from_def plan_ext_def)

lemma frame_from_mono: "frame_from n a b \<Longrightarrow> n \<le> m \<Longrightarrow> frame_from m a b"
  by (auto simp: frame_from_def)

lemma wf_each_ext:
  assumes "plan_ext r r'" "L < length (req_each r)" "length (req_even r) = length (req_each r)"
    "each_needed r L" "wf_each r L"
  shows "wf_each r' L"
proof -
  have e: "req_each r' ! L = req_each r ! L" using assms by (simp add: plan_ext_def)
  have n1: "\<And>k. k < length (req_each r) \<Longrightarrow> each_needed r k \<Longrightarrow> each_needed r' k"
    using assms(1) by (simp add: plan_ext_def each_needed_def)
  have n2: "\<And>k. k < length (req_each r) \<Longrightarrow> even_needed r k \<Longrightarrow> even_needed r' k"
    using assms(1,3) by (simp add: plan_ext_def even_needed_def)
  show ?thesis
  proof (cases "2 \<le> L")
    case False
    then show ?thesis using assms(5) by (simp add: wf_each_def Let_def)
  next
    case True
    let ?p = "req_each r ! L"
    from assms(5) True have s: "sublen1 ?p + sublen2 ?p = L" "1 \<le> sublen1 ?p" "1 \<le> sublen2 ?p"
      by (simp_all add: wf_each_def Let_def)
    then have lt: "sublen1 ?p < length (req_each r)" "sublen2 ?p < length (req_each r)"
      using assms(2) by linarith+
    show ?thesis using assms(5) True e n1[OF lt(1)] n1[OF lt(2)] n2[OF lt(1)]
      by (auto simp: wf_each_def Let_def split: if_splits)
  qed
qed

lemma wf_even_ext:
  assumes "plan_ext r r'" "L < length (req_each r)" "length (req_even r) = length (req_each r)"
    "even_needed r L" "wf_even r L"
  shows "wf_even r' L"
proof -
  have e: "req_even r' ! L = req_even r ! L" using assms by (simp add: plan_ext_def)
  have n1: "\<And>k. k < length (req_each r) \<Longrightarrow> each_needed r k \<Longrightarrow> each_needed r' k"
    using assms(1) by (simp add: plan_ext_def each_needed_def)
  have n2: "\<And>k. k < length (req_each r) \<Longrightarrow> even_needed r k \<Longrightarrow> even_needed r' k"
    using assms(1,3) by (simp add: plan_ext_def even_needed_def)
  let ?p = "req_even r ! L"
  from assms(5) have s: "sublen1 ?p + sublen2 ?p = L" "2 \<le> L"
    by (simp_all add: wf_even_def Let_def)
  show ?thesis
  proof (cases "L = 2")
    case True
    then show ?thesis using assms(5) e n1[of 1] assms(2)
      by (auto simp: wf_even_def Let_def)
  next
    case False
    with assms(5) have "1 \<le> sublen1 ?p" "1 \<le> sublen2 ?p"
      by (auto simp: wf_even_def Let_def split: if_splits)
    with s have lt: "sublen1 ?p < length (req_each r)" "sublen2 ?p < length (req_each r)"
      using assms(2) by linarith+
    show ?thesis using assms(5) False e n2[OF lt(1)] n2[OF lt(2)]
      by (auto simp: wf_even_def Let_def split: if_splits)
  qed
qed

lemma search_even_split_Found:
  "search_even_split req blocklen i = Found a b eo \<Longrightarrow>
     i \<le> a \<and> a < (blocklen + 1) div 2 \<and> b = blocklen - a \<and> each_needed req a \<and>
     each_needed req b \<and> \<not> eo"
proof (induction req blocklen i rule: search_even_split.induct)
  case (1 req blocklen i)
  show ?case
  proof (cases "i < (blocklen + 1) div 2")
    case False
    with "1.prems" show ?thesis by (simp add: search_even_split.simps)
  next
    case True
    show ?thesis
    proof (cases "each_needed req i \<and> each_needed req (blocklen - i)")
      case t: True
      with True "1.prems" show ?thesis by (auto simp: search_even_split.simps[of req blocklen i])
    next
      case f: False
      with True "1.prems" have "search_even_split req blocklen (i + 1) = Found a b eo"
        by (simp add: search_even_split.simps[of req blocklen i])
      from "1.IH"[OF True f this] show ?thesis by auto
    qed
  qed
qed

lemma search_odd_split_Found:
  "search_odd_split req blocklen i any = Found a b eo \<Longrightarrow>
     \<exists>k. i \<le> k \<and> k < (blocklen + 1) div 2 \<and>
       ((a = k \<and> b = blocklen - k \<and> \<not> eo \<and> each_needed req k \<and> each_needed req (blocklen - k)) \<or>
        (a = k \<and> b = blocklen - k \<and> eo \<and> even_needed req k \<and> each_needed req (blocklen - k)) \<or>
        (a = blocklen - k \<and> b = k \<and> eo \<and> each_needed req k \<and> even_needed req (blocklen - k)))"
proof (induction req blocklen i any rule: search_odd_split.induct)
  case (1 req blocklen i any)
  show ?case
  proof (cases "i < (blocklen + 1) div 2")
    case False
    with "1.prems" show ?thesis by (simp add: search_odd_split.simps)
  next
    case True
    show ?thesis
    proof (cases "(each_needed req i \<and> each_needed req (blocklen - i)) \<or>
                  (even_needed req i \<and> each_needed req (blocklen - i)) \<or>
                  (each_needed req i \<and> even_needed req (blocklen - i))")
      case t: True
      with True "1.prems" show ?thesis
        by (intro exI[of _ i]) (auto simp: search_odd_split.simps[of req blocklen i any] split: if_splits)
    next
      case f: False
      with True "1.prems" have
        "search_odd_split req blocklen (i + 1) (if each_needed req i then i else any) = Found a b eo"
        by (auto simp: search_odd_split.simps[of req blocklen i any] split: if_splits)
      from "1.IH"[OF True _ _ _ this] f obtain k where
        "i + 1 \<le> k \<and> k < (blocklen + 1) div 2 \<and>
       ((a = k \<and> b = blocklen - k \<and> \<not> eo \<and> each_needed req k \<and> each_needed req (blocklen - k)) \<or>
        (a = k \<and> b = blocklen - k \<and> eo \<and> even_needed req k \<and> each_needed req (blocklen - k)) \<or>
        (a = blocklen - k \<and> b = k \<and> eo \<and> each_needed req k \<and> even_needed req (blocklen - k)))"
        by blast
      then show ?thesis by (intro exI[of _ k]) auto
    qed
  qed
qed

lemma search_odd_split_Not_Found:
  "search_odd_split req blocklen i any = Not_Found a \<Longrightarrow>
     a = any \<or> (i \<le> a \<and> a < (blocklen + 1) div 2 \<and> each_needed req a)"
proof (induction req blocklen i any rule: search_odd_split.induct)
  case (1 req blocklen i any)
  show ?case
  proof (cases "i < (blocklen + 1) div 2")
    case False
    with "1.prems" show ?thesis by (simp add: search_odd_split.simps)
  next
    case True
    show ?thesis
    proof (cases "(each_needed req i \<and> each_needed req (blocklen - i)) \<or>
                  (even_needed req i \<and> each_needed req (blocklen - i)) \<or>
                  (each_needed req i \<and> even_needed req (blocklen - i))")
      case t: True
      with True "1.prems" show ?thesis
        by (auto simp: search_odd_split.simps[of req blocklen i any] split: if_splits)
    next
      case f: False
      with True "1.prems" have
        "search_odd_split req blocklen (i + 1) (if each_needed req i then i else any) = Not_Found a"
        by (auto simp: search_odd_split.simps[of req blocklen i any] split: if_splits)
      from "1.IH"[OF True _ _ _ this] f True show ?thesis by (auto split: if_splits)
    qed
  qed
qed

lemma needed_set_each [simp]:
  "k < length (req_each req) \<Longrightarrow> each_needed (set_each req b p) k = (if k = b then needed p else each_needed req k)"
  "even_needed (set_each req b p) k = even_needed req k"
  by (simp_all add: each_needed_def even_needed_def set_each_def)

lemma needed_set_even [simp]:
  "k < length (req_even req) \<Longrightarrow> even_needed (set_even req b p) k = (if k = b then needed p else even_needed req k)"
  "each_needed (set_even req b p) k = each_needed req k"
  by (simp_all add: each_needed_def even_needed_def set_even_def)

lemma length_set [simp]:
  "length (req_each (set_each req b p)) = length (req_each req)"
  "length (req_even (set_each req b p)) = length (req_even req)"
  "length (req_each (set_even req b p)) = length (req_each req)"
  "length (req_even (set_even req b p)) = length (req_even req)"
  by (simp_all add: set_each_def set_even_def)

lemma wf_sub_bounds_each:
  "wf_each req L \<Longrightarrow> 2 \<le> L \<Longrightarrow> sublen1 (req_each req ! L) < L \<and> sublen2 (req_each req ! L) < L"
  by (auto simp: wf_each_def Let_def)

lemma wf_sub_bounds_even:
  "wf_even req L \<Longrightarrow> sublen1 (req_even req ! L) < L \<and> sublen2 (req_even req ! L) < L \<and> 2 \<le> L"
  by (auto simp: wf_even_def Let_def split: if_splits)

lemma wf_below_set_each:
  assumes "wf_below n req" "n \<le> b" "b < length (req_each req)" "length (req_even req) = length (req_each req)"
  shows "wf_below n (set_each req b p)"
  unfolding wf_below_def
proof (intro allI impI conjI)
  fix L assume L: "L < n" and nd: "each_needed (set_each req b p) L"
  then have nd': "each_needed req L" using assms by simp
  then have w: "wf_each req L" using assms(1) L by (simp add: wf_below_def)
  have e: "req_each (set_each req b p) ! L = req_each req ! L" using L assms by (simp add: set_each_def)
  show "wf_each (set_each req b p) L"
  proof (cases "2 \<le> L")
    case True
    from wf_sub_bounds_each[OF w True] L assms w e show ?thesis
      by (auto simp: wf_each_def Let_def)
  next
    case False
    then show ?thesis using w by (simp add: wf_each_def Let_def)
  qed
next
  fix L assume L: "L < n" and nd: "even_needed (set_each req b p) L"
  then have nd': "even_needed req L" using assms by simp
  then have w: "wf_even req L" using assms(1) L by (simp add: wf_below_def)
  have e: "req_even (set_each req b p) ! L = req_even req ! L" by (simp add: set_each_def)
  from wf_sub_bounds_even[OF w] L assms w e show "wf_even (set_each req b p) L"
    by (auto simp: wf_even_def Let_def)
qed

lemma wf_below_set_even:
  assumes "wf_below n req" "n \<le> b" "b < length (req_each req)" "length (req_even req) = length (req_each req)"
  shows "wf_below n (set_even req b p)"
  unfolding wf_below_def
proof (intro allI impI conjI)
  fix L assume L: "L < n" and nd: "each_needed (set_even req b p) L"
  then have nd': "each_needed req L" using assms by simp
  then have w: "wf_each req L" using assms(1) L by (simp add: wf_below_def)
  have e: "req_each (set_even req b p) ! L = req_each req ! L" by (simp add: set_even_def)
  show "wf_each (set_even req b p) L"
  proof (cases "2 \<le> L")
    case True
    from wf_sub_bounds_each[OF w True] L assms w e show ?thesis
      by (auto simp: wf_each_def Let_def)
  next
    case False
    then show ?thesis using w by (simp add: wf_each_def Let_def)
  qed
next
  fix L assume L: "L < n" and nd: "even_needed (set_even req b p) L"
  then have nd': "even_needed req L" using assms by simp
  then have w: "wf_even req L" using assms(1) L by (simp add: wf_below_def)
  have e: "req_even (set_even req b p) ! L = req_even req ! L" using L assms by (simp add: set_even_def)
  from wf_sub_bounds_even[OF w] L assms w e show "wf_even (set_even req b p) L"
    by (auto simp: wf_even_def Let_def)
qed

lemma close_each:
  assumes "b < N" "N \<le> length (req_each req)" "length (req_even req) = length (req_each req)"
    "wf_below N req" "\<not> each_needed req b" "needed p"
    "plan_ext (set_each req b p) req3" "frame_from b (set_each req b p) req3"
    "wf_below b req3" "wf_each req3 b"
  shows "planner_post req b False N req3"
proof -
  let ?r1 = "set_each req b p"
  have x1: "plan_ext req ?r1"
    using assms(5) by (auto simp: plan_ext_def set_each_def each_needed_def) (metis nth_list_update_neq)
  have x: "plan_ext req req3" using plan_ext_trans[OF x1 assms(7)] .
  have eb: "req_each req3 ! b = p" using assms(8,1,2) by (simp add: frame_from_def set_each_def)
  have f1: "frame_from (Suc b) req req3"
    using assms(8,3) by (auto simp: frame_from_def set_each_def)
  have f2: "req_even req3 ! b = req_even req ! b"
    using assms(8,1,2,3) by (simp add: frame_from_def set_each_def)
  have w: "wf_below N req3"
    unfolding wf_below_def
  proof (intro allI impI conjI)
    fix L assume L: "L < N" and nd: "each_needed req3 L"
    consider "L < b" | "L = b" | "b < L" by linarith
    then show "wf_each req3 L"
    proof cases
      case 1 then show ?thesis using assms(9) nd by (simp add: wf_below_def)
    next
      case 2 then show ?thesis using assms(10) by simp
    next
      case 3
      then have "req_each req3 ! L = req_each req ! L" using f1 L assms(2) by (simp add: frame_from_def)
      then have "each_needed req L" using nd by (simp add: each_needed_def)
      then show ?thesis using wf_each_ext[OF x _ assms(3)] assms(4,2) L by (simp add: wf_below_def)
    qed
  next
    fix L assume L: "L < N" and nd: "even_needed req3 L"
    show "wf_even req3 L"
    proof (cases "L < b")
      case True then show ?thesis using assms(9) nd by (simp add: wf_below_def)
    next
      case False
      then have "req_even req3 ! L = req_even req ! L"
        using f1 f2 L assms(2,3) by (cases "L = b") (simp_all add: frame_from_def)
      then have "even_needed req L" using nd by (simp add: even_needed_def)
      then show ?thesis using wf_even_ext[OF x _ assms(3)] assms(4,2) L by (simp add: wf_below_def)
    qed
  qed
  show ?thesis
    using x w f1 f2 eb assms(6) by (simp add: planner_post_def tbl_needed_def each_needed_def)
qed

lemma close_even:
  assumes "b < N" "N \<le> length (req_each req)" "length (req_even req) = length (req_each req)"
    "wf_below N req" "\<not> even_needed req b" "needed p"
    "plan_ext (set_even req b p) req3" "frame_from b (set_even req b p) req3"
    "wf_below b req3" "wf_even req3 b"
  shows "planner_post req b True N req3"
proof -
  let ?r1 = "set_even req b p"
  have x1: "plan_ext req ?r1"
    using assms(5) by (auto simp: plan_ext_def set_even_def even_needed_def) (metis nth_list_update_neq)
  have x: "plan_ext req req3" using plan_ext_trans[OF x1 assms(7)] .
  have eb: "req_even req3 ! b = p" using assms(8,1,2,3) by (simp add: frame_from_def set_even_def)
  have f1: "frame_from (Suc b) req req3"
    using assms(8,3) by (auto simp: frame_from_def set_even_def)
  have f2: "req_each req3 ! b = req_each req ! b"
    using assms(8,1,2,3) by (simp add: frame_from_def set_even_def)
  have w: "wf_below N req3"
    unfolding wf_below_def
  proof (intro allI impI conjI)
    fix L assume L: "L < N" and nd: "even_needed req3 L"
    consider "L < b" | "L = b" | "b < L" by linarith
    then show "wf_even req3 L"
    proof cases
      case 1 then show ?thesis using assms(9) nd by (simp add: wf_below_def)
    next
      case 2 then show ?thesis using assms(10) by simp
    next
      case 3
      then have "req_even req3 ! L = req_even req ! L" using f1 L assms(2,3) by (simp add: frame_from_def)
      then have "even_needed req L" using nd by (simp add: even_needed_def)
      then show ?thesis using wf_even_ext[OF x _ assms(3)] assms(4,2) L by (simp add: wf_below_def)
    qed
  next
    fix L assume L: "L < N" and nd: "each_needed req3 L"
    show "wf_each req3 L"
    proof (cases "L < b")
      case True then show ?thesis using assms(9) nd by (simp add: wf_below_def)
    next
      case False
      then have "req_each req3 ! L = req_each req ! L"
        using f1 f2 L assms(2,3) by (cases "L = b") (simp_all add: frame_from_def)
      then have "each_needed req L" using nd by (simp add: each_needed_def)
      then show ?thesis using wf_each_ext[OF x _ assms(3)] assms(4,2) L by (simp add: wf_below_def)
    qed
  qed
  show ?thesis
    using x w f1 f2 eb assms(6) by (simp add: planner_post_def tbl_needed_def even_needed_def)
qed

lemma post_chain:
  assumes "planner_post r1 b1 t1 b r2" "b1 < b"
  shows "plan_ext r1 r2" "frame_from b r1 r2" "wf_below b r2" "tbl_needed t1 r2 b1"
    "length (req_each r2) = length (req_each r1)" "length (req_even r2) = length (req_even r1)"
  using assms by (auto simp: planner_post_def plan_ext_def intro: frame_from_mono)

lemma tbl_needed_ext:
  "plan_ext r r' \<Longrightarrow> tbl_needed t r k \<Longrightarrow> k < length (req_each r) \<Longrightarrow>
   length (req_even r) = length (req_each r) \<Longrightarrow> tbl_needed t r' k"
  by (auto simp: plan_ext_def tbl_needed_def each_needed_def even_needed_def split: if_splits)

lemma chain2:
  assumes "planner_post r1 b1 t1 b r2" "planner_post r2 b2 t2 b r3" "b1 < b" "b2 < b"
    "b \<le> length (req_each r1)" "length (req_even r1) = length (req_each r1)"
  shows "plan_ext r1 r3" "frame_from b r1 r3" "wf_below b r3" "tbl_needed t1 r3 b1" "tbl_needed t2 r3 b2"
proof -
  note c1 = post_chain[OF assms(1,3)]
  note c2 = post_chain[OF assms(2,4)]
  show "plan_ext r1 r3" using plan_ext_trans[OF c1(1) c2(1)] .
  show "frame_from b r1 r3" using frame_from_trans[OF c1(1) c1(2) c2(2)] .
  show "wf_below b r3" by (rule c2(3))
  show "tbl_needed t2 r3 b2" by (rule c2(4))
  show "tbl_needed t1 r3 b1"
    using tbl_needed_ext[OF c2(1) c1(4)] assms(3,5,6) c1(5,6) by simp
qed

lemma entry_after_even:
  "frame_from b (set_even req b p) r3 \<Longrightarrow> b < length (req_even req) \<Longrightarrow> req_even r3 ! b = p"
  by (simp add: frame_from_def set_even_def)

lemma entry_after_each:
  "frame_from b (set_each req b p) r3 \<Longrightarrow> b < length (req_each req) \<Longrightarrow> req_each r3 ! b = p"
  by (simp add: frame_from_def set_each_def)

lemma mk_len_sel [simp]:
  "needed (mk_len p s1 s2 eo ee)" "sublen1 (mk_len p s1 s2 eo ee) = s1" "sublen2 (mk_len p s1 s2 eo ee) = s2"
  "even_odd (mk_len p s1 s2 eo ee) = eo" "even_even (mk_len p s1 s2 eo ee) = ee"
  by (simp_all add: mk_len_def)

lemma fill_req_subs_ok:
  "\<not> (eo \<and> ee) \<Longrightarrow> (eo \<longrightarrow> s1 mod 2 = 0) \<Longrightarrow> (ee \<longrightarrow> s1 mod 2 = 0 \<and> s2 mod 2 = 0) \<Longrightarrow>
   fill_req_subs (p\<lparr>needed := True\<rparr>) s1 s2 eo ee = Inr (mk_len p s1 s2 eo ee)"
  by (auto simp: fill_req_subs_def mk_len_def)

lemma frl_even_unfold:
  assumes "0 < b" "b mod 2 = 0" "b < length (req_even req)" "\<not> needed (req_even req ! b)"
  shows "find_required_lengths_recursive req b True =
     (if b = 2 then
        bind_err (fill_req_subs ((req_even req ! b)\<lparr>needed := True\<rparr>) 1 1 False False) (\<lambda>precomp.
          find_required_lengths_recursive (set_even req b precomp) 1 False)
      else if b mod 4 = 0 then
        bind_err (fill_req_subs ((req_even req ! b)\<lparr>needed := True\<rparr>) (b div 2) (b div 2) False True) (\<lambda>precomp.
          find_required_lengths_recursive (set_even req b precomp) (b div 2) True)
      else
        bind_err (fill_req_subs ((req_even req ! b)\<lparr>needed := True\<rparr>) (b div 2 - 1) (b div 2 + 1) False True) (\<lambda>precomp.
        bind_err (find_required_lengths_recursive (set_even req b precomp) (b div 2 - 1) True) (\<lambda>req.
          find_required_lengths_recursive req (b div 2 + 1) True)))"
proof -
  have "b mod 4 = 0 \<or> b mod 4 = 2" using assms(2) by presburger
  then show ?thesis
    using assms
    by (subst find_required_lengths_recursive.simps) (auto simp: maybe_set_req_def)
qed

lemma frl_each_unfold:
  assumes "0 < b" "b < length (req_each req)" "\<not> needed (req_each req ! b)"
  shows "find_required_lengths_recursive req b False =
     (if b = 1 then Inr (set_each req 1 ((req_each req ! b)\<lparr>needed := True\<rparr>))
      else if b mod 2 = 0 then
        (case search_even_split (set_each req b ((req_each req ! b)\<lparr>needed := True\<rparr>)) b 1 of
           Found i j eo \<Rightarrow>
             bind_err (fill_req_subs ((req_each req ! b)\<lparr>needed := True\<rparr>) i j False False) (\<lambda>precomp.
               Inr (set_each req b precomp))
         | Not_Found any \<Rightarrow>
             bind_err (fill_req_subs ((req_each req ! b)\<lparr>needed := True\<rparr>) (b div 2) (b div 2) False False) (\<lambda>precomp.
               find_required_lengths_recursive (set_each req b precomp) (b div 2) False))
      else
        (case search_odd_split (set_each req b ((req_each req ! b)\<lparr>needed := True\<rparr>)) b 1 0 of
           Found i j eo \<Rightarrow>
             bind_err (fill_req_subs ((req_each req ! b)\<lparr>needed := True\<rparr>) i j eo False) (\<lambda>precomp.
               Inr (set_each req b precomp))
         | Not_Found any \<Rightarrow>
             if any \<noteq> 0 then
               bind_err (fill_req_subs ((req_each req ! b)\<lparr>needed := True\<rparr>) any (b - any) False False) (\<lambda>precomp.
                 find_required_lengths_recursive (set_each req b precomp) (b - any) False)
             else if b mod 4 = 1 then
               bind_err (fill_req_subs ((req_each req ! b)\<lparr>needed := True\<rparr>) (b div 2) (b div 2 + 1) True False) (\<lambda>precomp.
               bind_err (find_required_lengths_recursive (set_each req b precomp) (b div 2) True) (\<lambda>req.
                 find_required_lengths_recursive req (b div 2 + 1) False))
             else
               bind_err (fill_req_subs ((req_each req ! b)\<lparr>needed := True\<rparr>) (b div 2 + 1) (b div 2) True False) (\<lambda>precomp.
               bind_err (find_required_lengths_recursive (set_each req b precomp) (b div 2 + 1) True) (\<lambda>req.
                 find_required_lengths_recursive req (b div 2) False))))"
proof -
  have m: "b mod 2 = 1 \<Longrightarrow> b mod 4 = 1 \<or> b mod 4 = 3" by presburger
  show ?thesis
    using assms m
    by (subst find_required_lengths_recursive.simps)
       (auto simp: maybe_set_req_def split: split_found.splits)
qed

lemma planner_step:
  assumes "b < N" "N \<le> length (req_each req)" "length (req_even req) = length (req_each req)"
    "wf_below N req" "0 < b" "is_even \<longrightarrow> b mod 2 = 0"
  shows "\<exists>req'. find_required_lengths_recursive req b is_even = Inr req' \<and>
           planner_post req b is_even N req'"
  using assms
proof (induction b arbitrary: req is_even N rule: less_induct)
  case (less b)
  have len: "b < length (req_each req)" "b < length (req_even req)" "b \<le> length (req_each req)"
    using less.prems by auto
  have leq: "length (req_even req) = length (req_each req)" using less.prems by simp
  have wfb: "wf_below b req" using less.prems(1,4) by (simp add: wf_below_def)
  have IH: "\<exists>r'. find_required_lengths_recursive r b1 t1 = Inr r' \<and> planner_post r b1 t1 b r'"
    if "b1 < b" "0 < b1" "t1 \<longrightarrow> b1 mod 2 = 0" "wf_below b r"
      "length (req_each r) = length (req_each req)" "length (req_even r) = length (req_each req)"
    for b1 t1 r
    using less.IH[of b1 b r t1] that len by simp
  show ?case
  proof (cases "tbl_needed is_even req b")
    case True
    then have "find_required_lengths_recursive req b is_even = Inr req"
      using less.prems len
      by (subst find_required_lengths_recursive.simps)
         (auto simp: maybe_set_req_def tbl_needed_def each_needed_def even_needed_def)
    moreover have "planner_post req b is_even N req"
      using True less.prems by (simp add: planner_post_def plan_ext_refl frame_from_def)
    ultimately show ?thesis by blast
  next
    case nn: False
    show ?thesis
    proof (cases is_even)
      case True
      with nn have nne: "\<not> even_needed req b" by (simp add: tbl_needed_def)
      have bev: "b mod 2 = 0" using True less.prems by simp
      define p0 where "p0 = req_even req ! b"
      have np0: "\<not> needed (req_even req ! b)" using nne by (simp add: even_needed_def)
      note U = frl_even_unfold[OF less.prems(5) bev len(2) np0, folded p0_def]
      have call1: "\<exists>r2. find_required_lengths_recursive (set_even req b p) b1 t1 = Inr r2 \<and>
           planner_post (set_even req b p) b1 t1 b r2"
        if "b1 < b" "0 < b1" "t1 \<longrightarrow> b1 mod 2 = 0" for p b1 t1
        using IH[of b1 t1 "set_even req b p"] wf_below_set_even[OF wfb _ len(1) leq, of p] that leq
        by auto
      have l1: "\<And>p. b \<le> length (req_each (set_even req b p))"
        "\<And>p. length (req_even (set_even req b p)) = length (req_each (set_even req b p))"
        using len leq by simp_all
      have "b mod 4 = 0 \<or> b mod 4 = 2" using bev by presburger
      then consider (two) "b = 2" | (four) "b mod 4 = 0" "b \<noteq> 2" | (six) "b mod 4 = 2" "b \<noteq> 2"
        by (cases "b = 2") auto
      then show ?thesis
      proof cases
        case two
        define p where "p = mk_len p0 1 1 False False"
        let ?r1 = "set_even req b p"
        have eq: "find_required_lengths_recursive req b True = find_required_lengths_recursive ?r1 1 False"
          using two U unfolding p_def by (simp add: fill_req_subs_ok)
        obtain r2 where r2: "find_required_lengths_recursive ?r1 1 False = Inr r2"
            "planner_post ?r1 1 False b r2"
          using call1[of 1 False p] two by auto
        have one: "1 < b" using two by simp
        note c = post_chain[OF r2(2) one]
        have e: "req_even r2 ! b = p" using entry_after_even[OF c(2) len(2)] .
        have w: "wf_even r2 b" using e c(4) two by (simp add: wf_even_def p_def tbl_needed_def)
        have "planner_post req b True N r2"
          by (rule close_even[OF less.prems(1,2,3,4) nne _ c(1) c(2) c(3) w]) (simp add: p_def)
        then show ?thesis using eq r2(1) True by simp
      next
        case four
        define h where "h = b div 2"
        have h: "0 < h" "h < b" "h mod 2 = 0" "h + h = b"
          using four less.prems(5) unfolding h_def by presburger+
        define p where "p = mk_len p0 h h False True"
        let ?r1 = "set_even req b p"
        have eq: "find_required_lengths_recursive req b True = find_required_lengths_recursive ?r1 h True"
          using four U h(3) unfolding p_def h_def by (simp add: fill_req_subs_ok)
        obtain r2 where r2: "find_required_lengths_recursive ?r1 h True = Inr r2"
            "planner_post ?r1 h True b r2"
          using call1[of h True p] h by auto
        note c = post_chain[OF r2(2) h(2)]
        have e: "req_even r2 ! b = p" using entry_after_even[OF c(2) len(2)] .
        have w: "wf_even r2 b" using e c(4) h four bev
          by (simp add: wf_even_def p_def tbl_needed_def h_def)
        have "planner_post req b True N r2"
          by (rule close_even[OF less.prems(1,2,3,4) nne _ c(1) c(2) c(3) w]) (simp add: p_def)
        then show ?thesis using eq r2(1) True by simp
      next
        case six
        define h1 where "h1 = b div 2 - 1"
        define h2 where "h2 = b div 2 + 1"
        have h: "0 < h1" "h1 < b" "h1 mod 2 = 0" "0 < h2" "h2 < b" "h2 mod 2 = 0" "h1 + h2 = b"
          using six less.prems(5) unfolding h1_def h2_def by presburger+
        have m0: "b mod 4 \<noteq> 0" using six by simp
        define p where "p = mk_len p0 h1 h2 False True"
        let ?r1 = "set_even req b p"
        have eq: "find_required_lengths_recursive req b True =
            bind_err (find_required_lengths_recursive ?r1 h1 True)
              (\<lambda>r. find_required_lengths_recursive r h2 True)"
          using six m0 U h(3,6) unfolding p_def h1_def h2_def by (simp add: fill_req_subs_ok)
        obtain r2 where r2: "find_required_lengths_recursive ?r1 h1 True = Inr r2"
            "planner_post ?r1 h1 True b r2"
          using call1[of h1 True p] h by auto
        note c1 = post_chain[OF r2(2) h(2)]
        obtain r3 where r3: "find_required_lengths_recursive r2 h2 True = Inr r3"
            "planner_post r2 h2 True b r3"
          using IH[of h2 True r2] c1 h leq by auto
        note c = chain2[OF r2(2) r3(2) h(2) h(5) l1]
        have e: "req_even r3 ! b = p" using entry_after_even[OF c(2) len(2)] .
        have w: "wf_even r3 b" using e c(4,5) h six bev
          by (simp add: wf_even_def p_def tbl_needed_def h1_def h2_def)
        have "planner_post req b True N r3"
          by (rule close_even[OF less.prems(1,2,3,4) nne _ c(1) c(2) c(3) w]) (simp add: p_def)
        then show ?thesis using eq r2(1) r3(1) True by simp
      qed
    next
      case False
      with nn have nne: "\<not> each_needed req b" by (simp add: tbl_needed_def)
      define p0 where "p0 = req_each req ! b"
      have np0: "\<not> needed (req_each req ! b)" using nne by (simp add: each_needed_def)
      define q where "q = p0\<lparr>needed := True\<rparr>"
      let ?rs = "set_each req b q"
      note U = frl_each_unfold[OF less.prems(5) len(1) np0, folded p0_def, folded q_def]
      have sn: "\<And>k. k < b \<Longrightarrow> each_needed ?rs k = each_needed req k"
        "\<And>k. even_needed ?rs k = even_needed req k"
        using len by simp_all
      have evn: "\<And>k. k < b \<Longrightarrow> even_needed req k \<Longrightarrow> k mod 2 = 0 \<and> 2 \<le> k"
        using wfb by (auto simp: wf_below_def wf_even_def Let_def)
      have fin: "planner_post req b False N (set_each req b p)"
        if "needed p" "wf_each (set_each req b p) b" for p
        by (rule close_each[OF less.prems(1,2,3,4) nne that(1) plan_ext_refl _ _ that(2)])
           (simp_all add: frame_from_def wf_below_set_each[OF wfb _ len(1) leq])
      have call1: "\<exists>r2. find_required_lengths_recursive (set_each req b p) b1 t1 = Inr r2 \<and>
           planner_post (set_each req b p) b1 t1 b r2"
        if "b1 < b" "0 < b1" "t1 \<longrightarrow> b1 mod 2 = 0" for p b1 t1
        using IH[of b1 t1 "set_each req b p"] wf_below_set_each[OF wfb _ len(1) leq, of p] that leq
        by auto
      have l1: "\<And>p. b \<le> length (req_each (set_each req b p))"
        "\<And>p. length (req_even (set_each req b p)) = length (req_each (set_each req b p))"
        using len leq by simp_all
      have "b mod 2 = 0 \<or> b mod 2 = 1" by presburger
      then consider (one) "b = 1" | (ev) "b mod 2 = 0" "b \<noteq> 1" | (od) "b mod 2 = 1" "b \<noteq> 1"
        by (cases "b = 1") auto
      then show ?thesis
      proof cases
        case one
        have eq: "find_required_lengths_recursive req b False = Inr (set_each req b q)"
          using U one by simp
        have "wf_each (set_each req b q) b" using one by (simp add: wf_each_def)
        from fin[OF _ this] eq False show ?thesis by (simp add: q_def)
      next
        case ev
        have b2: "2 \<le> b" using ev less.prems(5) by presburger
        show ?thesis
        proof (cases "search_even_split ?rs b 1")
          case (Found i j eo)
          from search_even_split_Found[OF Found] have f: "1 \<le> i" "i < (b + 1) div 2" "j = b - i"
            "each_needed ?rs i" "each_needed ?rs j" by auto
          have ij: "i < b" "j < b" "1 \<le> j" "i + j = b" "i \<noteq> b" "j \<noteq> b" using f b2 by auto
          define p where "p = mk_len p0 i j False False"
          have eq: "find_required_lengths_recursive req b False = Inr (set_each req b p)"
            using U ev Found by (simp add: q_def p_def fill_req_subs_ok)
          have "wf_each (set_each req b p) b"
            using f ij sn(1)[OF ij(1)] sn(1)[OF ij(2)] len
            by (auto simp: wf_each_def p_def set_each_def each_needed_def)
          from fin[OF _ this] eq False show ?thesis by (simp add: p_def)
        next
          case (Not_Found any)
          define h where "h = b div 2"
          have h: "0 < h" "h < b" "h + h = b" using ev b2 unfolding h_def by presburger+
          define p where "p = mk_len p0 h h False False"
          have eq: "find_required_lengths_recursive req b False =
              find_required_lengths_recursive (set_each req b p) h False"
            using U ev Not_Found unfolding q_def p_def h_def by (simp add: fill_req_subs_ok)
          obtain r2 where r2: "find_required_lengths_recursive (set_each req b p) h False = Inr r2"
            "planner_post (set_each req b p) h False b r2"
            using call1[of h False p] h by auto
          note c = post_chain[OF r2(2) h(2)]
          have e: "req_each r2 ! b = p" using entry_after_each[OF c(2) len(1)] .
          have w: "wf_each r2 b" using e c(4) h
            by (auto simp: wf_each_def p_def tbl_needed_def)
          have "planner_post req b False N r2"
            by (rule close_each[OF less.prems(1,2,3,4) nne _ c(1) c(2) c(3) w]) (simp add: p_def)
          then show ?thesis using eq r2(1) False by simp
        qed
      next
        case od
        have b3: "3 \<le> b" using od less.prems(5) by presburger
        have m2: "b mod 2 \<noteq> 0" using od by simp
        show ?thesis
        proof (cases "search_odd_split ?rs b 1 0")
          case (Found a c eo)
          from search_odd_split_Found[OF Found] obtain k where k: "1 \<le> k" "k < (b + 1) div 2"
            and d: "(a = k \<and> c = b - k \<and> \<not> eo \<and> each_needed ?rs k \<and> each_needed ?rs (b - k)) \<or>
                    (a = k \<and> c = b - k \<and> eo \<and> even_needed ?rs k \<and> each_needed ?rs (b - k)) \<or>
                    (a = b - k \<and> c = k \<and> eo \<and> each_needed ?rs k \<and> even_needed ?rs (b - k))"
            by blast
          have kb: "k < b" "b - k < b" "1 \<le> b - k" "k + (b - k) = b" using k b3 by auto
          have ac: "a < b" "c < b" "1 \<le> a" "1 \<le> c" "a + c = b" using d kb k by auto
          have par: "eo \<longrightarrow> a mod 2 = 0 \<and> c mod 2 = 1"
          proof
            assume eo
            with d have "even_needed req a" using sn(2) by auto
            from evn[OF ac(1) this] have "a mod 2 = 0" by simp
            with ac(5) od(1) show "a mod 2 = 0 \<and> c mod 2 = 1" by presburger
          qed
          have nd: "each_needed req c" "if eo then even_needed req a else each_needed req a"
            using d sn(1)[OF kb(1)] sn(1)[OF kb(2)] sn(2) by auto
          define p where "p = mk_len p0 a c eo False"
          have eq: "find_required_lengths_recursive req b False = Inr (set_each req b p)"
            using U od m2 Found par by (simp add: q_def p_def fill_req_subs_ok)
          have "wf_each (set_each req b p) b"
            using ac par nd len
            by (auto simp: wf_each_def p_def set_each_def each_needed_def even_needed_def)
          from fin[OF _ this] eq False show ?thesis by (simp add: p_def)
        next
          case (Not_Found any)
          from search_odd_split_Not_Found[OF Not_Found]
          have an: "any = 0 \<or> (1 \<le> any \<and> any < (b + 1) div 2 \<and> each_needed ?rs any)" by simp
          show ?thesis
          proof (cases "any = 0")
            case anz: False
            with an have a: "1 \<le> any" "any < (b + 1) div 2" "each_needed ?rs any" by auto
            have ab: "any < b" "b - any < b" "0 < b - any" "any + (b - any) = b" using a b3 by auto
            have na: "each_needed req any" using a(3) sn(1)[OF ab(1)] by simp
            define p where "p = mk_len p0 any (b - any) False False"
            have eq: "find_required_lengths_recursive req b False =
                find_required_lengths_recursive (set_each req b p) (b - any) False"
              using U od m2 Not_Found anz unfolding q_def p_def by (simp add: fill_req_subs_ok)
            obtain r2 where r2: "find_required_lengths_recursive (set_each req b p) (b - any) False = Inr r2"
              "planner_post (set_each req b p) (b - any) False b r2"
              using call1[of "b - any" False p] ab by auto
            note c = post_chain[OF r2(2) ab(2)]
            have e: "req_each r2 ! b = p" using entry_after_each[OF c(2) len(1)] .
            have "each_needed (set_each req b p) any" using na ab len by simp
            then have na2: "each_needed r2 any"
              using tbl_needed_ext[OF c(1), of False any] ab len leq by (simp add: tbl_needed_def)
            have w: "wf_each r2 b" using e c(4) ab a na2
              by (auto simp: wf_each_def p_def tbl_needed_def)
            have "planner_post req b False N r2"
              by (rule close_each[OF less.prems(1,2,3,4) nne _ c(1) c(2) c(3) w]) (simp add: p_def)
            then show ?thesis using eq r2(1) False by simp
          next
            case anz: True
            have m: "b mod 4 = 1 \<or> b mod 4 = 3" using od(1) by presburger
            define h1 where "h1 = (if b mod 4 = 1 then b div 2 else b div 2 + 1)"
            define h2 where "h2 = (if b mod 4 = 1 then b div 2 + 1 else b div 2)"
            have h: "0 < h1" "h1 < b" "h1 mod 2 = 0" "0 < h2" "h2 < b" "h2 mod 2 = 1" "h1 + h2 = b"
              using m od b3 unfolding h1_def h2_def by (auto split: if_splits) presburger+
            define p where "p = mk_len p0 h1 h2 True False"
            have eq: "find_required_lengths_recursive req b False =
              bind_err (find_required_lengths_recursive (set_each req b p) h1 True)
                (\<lambda>r. find_required_lengths_recursive r h2 False)"
              using U od m2 Not_Found anz m h(3) unfolding q_def p_def h1_def h2_def
              by (auto simp: fill_req_subs_ok)
            obtain r2 where r2: "find_required_lengths_recursive (set_each req b p) h1 True = Inr r2"
              "planner_post (set_each req b p) h1 True b r2"
              using call1[of h1 True p] h by auto
            note c1 = post_chain[OF r2(2) h(2)]
            obtain r3 where r3: "find_required_lengths_recursive r2 h2 False = Inr r3"
              "planner_post r2 h2 False b r3"
              using IH[of h2 False r2] c1 h leq by auto
            note c = chain2[OF r2(2) r3(2) h(2) h(5) l1]
            have e: "req_each r3 ! b = p" using entry_after_each[OF c(2) len(1)] .
            have w: "wf_each r3 b" using e c(4,5) h
              by (auto simp: wf_each_def p_def tbl_needed_def)
            have "planner_post req b False N r3"
              by (rule close_each[OF less.prems(1,2,3,4) nne _ c(1) c(2) c(3) w]) (simp add: p_def)
            then show ?thesis using eq r2(1) r3(1) False by simp
          qed
        qed
      qed
    qed
  qed
qed

lemma frl_zero: "find_required_lengths_recursive req 0 t = Inl Assertion_Failed"
  by (subst find_required_lengths_recursive.simps) simp

lemma find_lengths_loop_pos:
  "find_lengths_loop req bs = Inr req' \<Longrightarrow> b \<in> set bs \<Longrightarrow> 0 < b"
proof (induction bs arbitrary: req)
  case Nil then show ?case by simp
next
  case (Cons a bs)
  from Cons.prems(1) obtain r1 where r1: "find_required_lengths_recursive req a False = Inr r1"
    "find_lengths_loop r1 bs = Inr req'"
    by (auto split: sum.splits)
  show ?case
  proof (cases "b = a")
    case True
    then show ?thesis using r1(1) frl_zero[of req False] by (cases "a = 0") auto
  next
    case False
    then show ?thesis using Cons.IH[OF r1(2)] Cons.prems(2) by simp
  qed
qed

lemma find_lengths_loop_ok:
  assumes "\<forall>b \<in> set bs. 0 < b \<and> b < N" "N = length (req_each req)" "length (req_even req) = N"
    "wf_below N req"
  shows "\<exists>req'. find_lengths_loop req bs = Inr req' \<and> plan_ext req req' \<and> wf_below N req' \<and>
           (\<forall>b \<in> set bs. each_needed req' b)"
  using assms
proof (induction bs arbitrary: req)
  case Nil
  then show ?case by (simp add: plan_ext_refl)
next
  case (Cons a bs)
  have a: "a < N" "0 < a" using Cons.prems(1) by auto
  from planner_step[OF a(1) _ _ Cons.prems(4) a(2), of False] Cons.prems(2,3)
  obtain r1 where r1: "find_required_lengths_recursive req a False = Inr r1"
    "planner_post req a False N r1" by auto
  from r1(2) have p: "plan_ext req r1" "wf_below N r1" "each_needed r1 a"
    by (auto simp: planner_post_def tbl_needed_def)
  have l: "N = length (req_each r1)" "length (req_even r1) = N"
    using p(1) Cons.prems(2,3) by (auto simp: plan_ext_def)
  from Cons.IH[OF _ l p(2)] Cons.prems(1) obtain r2 where r2: "find_lengths_loop r1 bs = Inr r2"
    "plan_ext r1 r2" "wf_below N r2" "\<forall>b \<in> set bs. each_needed r2 b" by auto
  have "each_needed r2 a" using r2(2) p(3) a(1) l by (auto simp: plan_ext_def each_needed_def)
  then show ?case using r1(1) r2 plan_ext_trans[OF p(1) r2(2)] by auto
qed

lemma unique_loop_set: "sorted (prev # xs) \<Longrightarrow> set (prev # unique_loop prev xs) = set (prev # xs)"
proof (induction xs arbitrary: prev)
  case Nil then show ?case by simp
next
  case (Cons x xs)
  have s: "sorted (x # xs)" using Cons.prems by simp
  show ?case
  proof (cases "x > prev")
    case True
    then show ?thesis using Cons.IH[OF s] by auto
  next
    case False
    then have "x = prev" using Cons.prems by auto
    then show ?thesis using Cons.IH[OF s] by auto
  qed
qed

lemma unique_loop_sorted: "sorted (prev # xs) \<Longrightarrow> sorted (prev # unique_loop prev xs)"
proof (induction xs arbitrary: prev)
  case Nil then show ?case by simp
next
  case (Cons x xs)
  have s: "sorted (x # xs)" using Cons.prems by simp
  show ?case
  proof (cases "x > prev")
    case True
    then show ?thesis using Cons.IH[OF s] by auto
  next
    case False
    then have "x = prev" using Cons.prems by auto
    then show ?thesis using Cons.IH[OF s] by auto
  qed
qed

lemma sorted_le_last: "sorted xs \<Longrightarrow> x \<in> set xs \<Longrightarrow> x \<le> last xs"
  by (induction xs) (auto split: if_splits)

lemma find_maxlen_even_le: "find_maxlen_even req n \<le> n"
  by (induction n) auto

lemma find_maxlen_even_bound: "L \<le> n \<Longrightarrow> 0 < L \<Longrightarrow> even_needed req L \<Longrightarrow> L \<le> find_maxlen_even req n"
proof (induction n)
  case 0 then show ?case by simp
next
  case (Suc n)
  then show ?case by (cases "L = Suc n") auto
qed

lemma needed_upd [simp]:
  "each_needed (req\<lparr>maxlen_even := a\<rparr>) = each_needed req"
  "even_needed (req\<lparr>maxlen_even := a\<rparr>) = even_needed req"
  "each_needed (req\<lparr>nbuffers := c\<rparr>) = each_needed req"
  "even_needed (req\<lparr>nbuffers := c\<rparr>) = even_needed req"
  by (simp_all add: each_needed_def even_needed_def fun_eq_iff)

lemma wf_upd [simp]:
  "wf_each (req\<lparr>maxlen_even := a\<rparr>) = wf_each req"
  "wf_even (req\<lparr>maxlen_even := a\<rparr>) = wf_even req"
  "wf_each (req\<lparr>nbuffers := c\<rparr>) = wf_each req"
  "wf_even (req\<lparr>nbuffers := c\<rparr>) = wf_even req"
  by (simp_all add: wf_each_def wf_even_def fun_eq_iff)

lemma wf_below_upd [simp]:
  "wf_below N (req\<lparr>maxlen_even := a\<rparr>) = wf_below N req"
  "wf_below N (req\<lparr>nbuffers := c\<rparr>) = wf_below N req"
  by (simp_all add: wf_below_def)

lemma wf_below_zero_len: "wf_below N \<lparr>req_each = replicate n zero_len, req_even = replicate n zero_len,
     maxlen_each = a, maxlen_even = b, nbuffers = c\<rparr>"
  if "N \<le> n"
  using that by (simp add: wf_below_def each_needed_def even_needed_def zero_len_def)

lemma find_required_lengths_for_set_ok:
  assumes "blocklens \<noteq> []" "\<forall>b \<in> set blocklens. 0 < b"
  shows "\<exists>req. find_required_lengths_for_set blocklens = Inr req \<and> plan_ok req \<and>
           (\<forall>b \<in> set blocklens. b \<le> maxlen_each req \<and> each_needed req b)"
proof -
  define sorted_lens where "sorted_lens = sort blocklens"
  define blens where "blens = hd sorted_lens # unique_loop (hd sorted_lens) (tl sorted_lens)"
  define maxlen where "maxlen = last blens"
  define req0 where "req0 = \<lparr>req_each = replicate (maxlen + 1) zero_len,
      req_even = replicate (maxlen + 1) zero_len,
      maxlen_each = maxlen, maxlen_even = maxlen, nbuffers = 0\<rparr>"
  have ne: "sorted_lens \<noteq> []" using assms(1) length_sort[of "\<lambda>x. x" blocklens]
    unfolding sorted_lens_def by (metis length_0_conv)
  then have sl: "sorted_lens = hd sorted_lens # tl sorted_lens" by simp
  have srt: "sorted (hd sorted_lens # tl sorted_lens)" using sl by (simp add: sorted_lens_def)
  have set_b: "set blens = set blocklens"
    using unique_loop_set[OF srt] sl unfolding blens_def
    by (metis set_sort sorted_lens_def)
  have sb: "sorted blens" using unique_loop_sorted[OF srt] by (simp add: blens_def)
  have le: "\<forall>b \<in> set blens. 0 < b \<and> b < maxlen + 1"
    using sorted_le_last[OF sb] assms(2) set_b by (auto simp: maxlen_def less_Suc_eq_le)
  have l0: "maxlen + 1 = length (req_each req0)" "length (req_even req0) = maxlen + 1"
    by (simp_all add: req0_def)
  have w0: "wf_below (maxlen + 1) req0" unfolding req0_def by (rule wf_below_zero_len) simp
  from find_lengths_loop_ok[OF le l0 w0] obtain r1 where r1: "find_lengths_loop req0 blens = Inr r1"
    "plan_ext req0 r1" "wf_below (maxlen + 1) r1" "\<forall>b \<in> set blens. each_needed r1 b" by auto
  define me where "me = find_maxlen_even r1 maxlen"
  define r2 where "r2 = r1\<lparr>maxlen_even := me\<rparr>"
  define r3 where "r3 = r2\<lparr>nbuffers := length (filter (each_needed r2) [1..<maxlen_each r2 + 1])
                  + length (filter (even_needed r2) [2..<maxlen_even r2 + 1])\<rparr>"
  have eq: "find_required_lengths_for_set blocklens = Inr r3"
    using assms(1) r1(1)
    unfolding find_required_lengths_for_set_def r3_def r2_def me_def req0_def maxlen_def blens_def
      sorted_lens_def
    by (simp add: Let_def)
  have m1: "maxlen_each r1 = maxlen" "length (req_each r1) = maxlen + 1" "length (req_even r1) = maxlen + 1"
    using r1(2) by (simp_all add: plan_ext_def req0_def)
  have ev0: "\<And>L. L \<le> maxlen \<Longrightarrow> even_needed r1 L \<Longrightarrow> 0 < L"
    using r1(3) by (auto simp: wf_below_def wf_even_def Let_def less_Suc_eq_le)
  have "plan_ok r3"
    unfolding plan_ok_def r3_def r2_def
    using m1 r1(3) find_maxlen_even_le[of r1 maxlen] find_maxlen_even_bound[of _ maxlen r1] ev0
    by (auto simp: me_def)
  moreover have "\<forall>b \<in> set blocklens. b \<le> maxlen_each r3 \<and> each_needed r3 b"
    using r1(4) le set_b m1 by (auto simp: r3_def r2_def)
  ultimately show ?thesis using eq by blast
qed

lemma find_required_lengths_for_set_Inr:
  assumes "find_required_lengths_for_set blocklens = Inr req"
  shows "blocklens \<noteq> []" "\<forall>b \<in> set blocklens. 0 < b"
proof -
  show ne: "blocklens \<noteq> []" using assms by (auto simp: find_required_lengths_for_set_def)
  define sorted_lens where "sorted_lens = sort blocklens"
  define blens where "blens = hd sorted_lens # unique_loop (hd sorted_lens) (tl sorted_lens)"
  have ne': "sorted_lens \<noteq> []" using ne length_sort[of "\<lambda>x. x" blocklens]
    unfolding sorted_lens_def by (metis length_0_conv)
  then have sl: "sorted_lens = hd sorted_lens # tl sorted_lens" by simp
  have srt: "sorted (hd sorted_lens # tl sorted_lens)" using sl by (simp add: sorted_lens_def)
  have set_b: "set blens = set blocklens"
    using unique_loop_set[OF srt] sl unfolding blens_def
    by (metis set_sort sorted_lens_def)
  from assms ne obtain r0 r1 where "find_lengths_loop r0 blens = Inr r1"
    unfolding find_required_lengths_for_set_def blens_def sorted_lens_def
    by (auto simp: Let_def split: sum.splits)
  from find_lengths_loop_pos[OF this] set_b show "\<forall>b \<in> set blocklens. 0 < b" by auto
qed

text \<open>
  Claim C5, as amended. Whenever the planner marks an even-aligned length \<open>L\<close> as needed,
  the entry records the rule for \<open>L\<close>: \<open>Even(2) = Each(1) + Each(1)\<close> with neither
  composition flag, \<open>Even(4m) = Even(2m) + Even(2m)\<close> with the even+even flag, and for
  \<open>L = 4m + 2 > 2\<close> the sub-lengths \<open>2m\<close> and \<open>2m + 2\<close> in this order (smaller one
  first) with the even+even flag; the recorded sub-entries are themselves needed. For
  every composed entry of either table (every needed entry but \<open>Each(1)\<close>) the two
  recorded sub-lengths sum to the entry's own length.
\<close>

theorem planner_even_rules:
  assumes "find_required_lengths_for_set blocklens = Inr req" "L \<le> maxlen_each req"
  shows "(even_needed req L \<longrightarrow>
            (L = 2 \<longrightarrow> sublen1 (req_even req ! L) = 1 \<and> sublen2 (req_even req ! L) = 1 \<and>
               \<not> even_even (req_even req ! L) \<and> \<not> even_odd (req_even req ! L) \<and>
               each_needed req 1) \<and>
            (L mod 4 = 0 \<longrightarrow> sublen1 (req_even req ! L) = L div 2 \<and>
               sublen2 (req_even req ! L) = L div 2 \<and>
               even_even (req_even req ! L) \<and> \<not> even_odd (req_even req ! L) \<and>
               even_needed req (L div 2)) \<and>
            (L mod 4 = 2 \<and> L \<noteq> 2 \<longrightarrow> sublen1 (req_even req ! L) = L div 2 - 1 \<and>
               sublen2 (req_even req ! L) = L div 2 + 1 \<and>
               even_even (req_even req ! L) \<and> \<not> even_odd (req_even req ! L) \<and>
               even_needed req (L div 2 - 1) \<and> even_needed req (L div 2 + 1)) \<and>
            (L = 2 \<or> L mod 4 = 0 \<or> L mod 4 = 2) \<and>
            sublen1 (req_even req ! L) + sublen2 (req_even req ! L) = L) \<and>
         (each_needed req L \<and> 2 \<le> L \<longrightarrow>
            sublen1 (req_each req ! L) + sublen2 (req_each req ! L) = L)"
proof -
  note i = find_required_lengths_for_set_Inr[OF assms(1)]
  from find_required_lengths_for_set_ok[OF i] assms(1) have ok: "plan_ok req" by auto
  then have w: "wf_below (maxlen_each req + 1) req" by (simp add: plan_ok_def)
  have e: "even_needed req L \<Longrightarrow> wf_even req L" and c: "each_needed req L \<Longrightarrow> wf_each req L"
    using w assms(2) by (auto simp: wf_below_def less_Suc_eq_le)
  have "even_needed req L \<longrightarrow>
            (L = 2 \<longrightarrow> sublen1 (req_even req ! L) = 1 \<and> sublen2 (req_even req ! L) = 1 \<and>
               \<not> even_even (req_even req ! L) \<and> \<not> even_odd (req_even req ! L) \<and>
               each_needed req 1) \<and>
            (L mod 4 = 0 \<longrightarrow> sublen1 (req_even req ! L) = L div 2 \<and>
               sublen2 (req_even req ! L) = L div 2 \<and>
               even_even (req_even req ! L) \<and> \<not> even_odd (req_even req ! L) \<and>
               even_needed req (L div 2)) \<and>
            (L mod 4 = 2 \<and> L \<noteq> 2 \<longrightarrow> sublen1 (req_even req ! L) = L div 2 - 1 \<and>
               sublen2 (req_even req ! L) = L div 2 + 1 \<and>
               even_even (req_even req ! L) \<and> \<not> even_odd (req_even req ! L) \<and>
               even_needed req (L div 2 - 1) \<and> even_needed req (L div 2 + 1)) \<and>
            (L = 2 \<or> L mod 4 = 0 \<or> L mod 4 = 2) \<and>
            sublen1 (req_even req ! L) + sublen2 (req_even req ! L) = L"
  proof
    assume "even_needed req L"
    from e[OF this] have we: "wf_even req L" .
    then have "L mod 2 = 0" by (simp add: wf_even_def Let_def)
    then have m: "L mod 4 = 0 \<or> L mod 4 = 2" by presburger
    show "(L = 2 \<longrightarrow> sublen1 (req_even req ! L) = 1 \<and> sublen2 (req_even req ! L) = 1 \<and>
               \<not> even_even (req_even req ! L) \<and> \<not> even_odd (req_even req ! L) \<and>
               each_needed req 1) \<and>
            (L mod 4 = 0 \<longrightarrow> sublen1 (req_even req ! L) = L div 2 \<and>
               sublen2 (req_even req ! L) = L div 2 \<and>
               even_even (req_even req ! L) \<and> \<not> even_odd (req_even req ! L) \<and>
               even_needed req (L div 2)) \<and>
            (L mod 4 = 2 \<and> L \<noteq> 2 \<longrightarrow> sublen1 (req_even req ! L) = L div 2 - 1 \<and>
               sublen2 (req_even req ! L) = L div 2 + 1 \<and>
               even_even (req_even req ! L) \<and> \<not> even_odd (req_even req ! L) \<and>
               even_needed req (L div 2 - 1) \<and> even_needed req (L div 2 + 1)) \<and>
            (L = 2 \<or> L mod 4 = 0 \<or> L mod 4 = 2) \<and>
            sublen1 (req_even req ! L) + sublen2 (req_even req ! L) = L"
    proof (cases "L = 2")
      case True
      with we show ?thesis by (simp add: wf_even_def Let_def)
    next
      case False
      with we m show ?thesis by (auto simp: wf_even_def Let_def split: if_splits)
    qed
  qed
  moreover have "each_needed req L \<and> 2 \<le> L \<longrightarrow>
            sublen1 (req_each req ! L) + sublen2 (req_each req ! L) = L"
    using c by (auto simp: wf_each_def Let_def)
  ultimately show ?thesis by blast
qed

theorem planner_even_rules_witness:
  "find_required_lengths_for_set [11] = Inr (projr (find_required_lengths_for_set [11])) \<and>
   6 \<le> maxlen_each (projr (find_required_lengths_for_set [11])) \<and>
   even_needed (projr (find_required_lengths_for_set [11])) 6 \<and>
   sublen1 (req_even (projr (find_required_lengths_for_set [11])) ! 6) = 2 \<and>
   sublen2 (req_even (projr (find_required_lengths_for_set [11])) ! 6) = 4 \<and>
   even_even (req_even (projr (find_required_lengths_for_set [11])) ! 6) \<and>
   even_needed (projr (find_required_lengths_for_set [11])) 2 \<and>
   even_needed (projr (find_required_lengths_for_set [11])) 4"
proof -
  let ?r = "projr (find_required_lengths_for_set [11])"
  have a: "find_required_lengths_for_set [11] = Inr ?r" by code_simp
  have b: "6 \<le> maxlen_each ?r" by code_simp
  have c: "even_needed ?r 6" by code_simp
  from planner_even_rules[OF a b] c show ?thesis using a b by simp
qed

theorem planner_even_order_counterexample:
  "find_required_lengths_for_set [11] = Inr (projr (find_required_lengths_for_set [11])) \<and>
   even_needed (projr (find_required_lengths_for_set [11])) 6 \<and>
   sublen1 (req_even (projr (find_required_lengths_for_set [11])) ! 6) = 2 \<and>
   sublen2 (req_even (projr (find_required_lengths_for_set [11])) ! 6) = 4 \<and>
   sublen1 (req_even (projr (find_required_lengths_for_set [11])) ! 6) \<noteq> 4"
  by code_simp

section \<open>The run-length encoding covers exactly the nonzero kernel cells\<close>

lemma set_kernel_cells:
  "set (kernel_cells k) = {(a, b). a < yres k \<and> b < xres k \<and> data k ! (a * xres k + b) \<noteq> 0}"
  by (auto simp: kernel_cells_def)

lemma seg_cells_Nil [simp]: "seg_cells [] = {}"
  by (simp add: seg_cells_def)

lemma seg_cells_Cons:
  "seg_cells (s # segs) = {(seg_row s, seg_col s + t) | t. t < seg_len s} \<union> seg_cells segs"
  by (auto simp: seg_cells_def)

lemma seg_cells_append: "seg_cells (xs @ ys) = seg_cells xs \<union> seg_cells ys"
  by (auto simp: seg_cells_def)

lemma seg_cells_concat: "seg_cells (concat xss) = (\<Union>xs \<in> set xss. seg_cells xs)"
  by (induction xss) (auto simp: seg_cells_append)

lemma rle_scan_row_cells:
  "j + l \<le> xr \<Longrightarrow>
   seg_cells (rle_scan_row d xr i j l) =
     {(i, c) | c. (j \<le> c \<and> c < j + l) \<or> (j + l \<le> c \<and> c < xr \<and> d ! (i * xr + c) \<noteq> 0)} \<and>
   (\<forall>s \<in> set (rle_scan_row d xr i j l). seg_row s = i \<and> 1 \<le> seg_len s \<and> seg_col s + seg_len s \<le> xr)"
proof (induction d xr i j l rule: rle_scan_row.induct)
  case (1 d xr i j l)
  show ?case
  proof (cases "j + l < xr")
    case False
    with "1.prems" have e: "j + l = xr" by simp
    show ?thesis
    proof (cases "l = 0")
      case True
      with False show ?thesis by (subst (1 2) rle_scan_row.simps) auto
    next
      case l: False
      have "rle_scan_row d xr i j l = [\<lparr>seg_row = i, seg_col = j, seg_len = l\<rparr>]"
        using False l by (subst rle_scan_row.simps) simp
      moreover have "{(i, j + t) | t. t < l} = {(i, c) | c. j \<le> c \<and> c < j + l}"
      proof -
        have "\<And>c. j \<le> c \<Longrightarrow> c < j + l \<Longrightarrow> \<exists>t. c = j + t \<and> t < l"
          by (metis le_Suc_ex nat_add_left_cancel_less)
        then show ?thesis by auto
      qed
      ultimately show ?thesis using e l by (auto simp: seg_cells_Cons)
    qed
  next
    case lt: True
    show ?thesis
    proof (cases "d ! (i * xr + j + l) \<noteq> 0")
      case True
      have eq: "rle_scan_row d xr i j l = rle_scan_row d xr i j (l + 1)"
        using lt True by (subst rle_scan_row.simps) simp
      have ih: "seg_cells (rle_scan_row d xr i j (l + 1)) =
          {(i, c) | c. (j \<le> c \<and> c < j + (l + 1)) \<or> (j + (l + 1) \<le> c \<and> c < xr \<and> d ! (i * xr + c) \<noteq> 0)} \<and>
          (\<forall>s \<in> set (rle_scan_row d xr i j (l + 1)). seg_row s = i \<and> 1 \<le> seg_len s \<and> seg_col s + seg_len s \<le> xr)"
        by (rule "1.IH"(1)[OF lt True]) (use lt in simp)
      have "{(i, c) | c. (j \<le> c \<and> c < j + (l + 1)) \<or> (j + (l + 1) \<le> c \<and> c < xr \<and> d ! (i * xr + c) \<noteq> 0)}
          = {(i, c) | c. (j \<le> c \<and> c < j + l) \<or> (j + l \<le> c \<and> c < xr \<and> d ! (i * xr + c) \<noteq> 0)}"
        (is "?A = ?B")
      proof -
        have "\<And>c. c = j + l \<Longrightarrow> d ! (i * xr + c) \<noteq> 0 \<and> c < xr"
          using True lt by (simp add: add.assoc)
        then have "\<And>c. ((j \<le> c \<and> c < j + (l + 1)) \<or> (j + (l + 1) \<le> c \<and> c < xr \<and> d ! (i * xr + c) \<noteq> 0))
            = ((j \<le> c \<and> c < j + l) \<or> (j + l \<le> c \<and> c < xr \<and> d ! (i * xr + c) \<noteq> 0))"
          by (metis Suc_eq_plus1 add_Suc_right le_add1 less_Suc_eq not_less_eq_eq order_le_less)
        then show ?thesis by simp
      qed
      with ih eq show ?thesis by simp
    next
      case z: False
      show ?thesis
      proof (cases "l \<noteq> 0")
        case l: True
        have eq: "rle_scan_row d xr i j l =
            \<lparr>seg_row = i, seg_col = j, seg_len = l\<rparr> # rle_scan_row d xr i (j + l + 1) 0"
          using lt z l by (subst rle_scan_row.simps) simp
        have ih: "seg_cells (rle_scan_row d xr i (j + l + 1) 0) =
          {(i, c) | c. (j + l + 1 \<le> c \<and> c < j + l + 1 + 0) \<or> (j + l + 1 + 0 \<le> c \<and> c < xr \<and> d ! (i * xr + c) \<noteq> 0)} \<and>
          (\<forall>s \<in> set (rle_scan_row d xr i (j + l + 1) 0). seg_row s = i \<and> 1 \<le> seg_len s \<and> seg_col s + seg_len s \<le> xr)"
          by (rule "1.IH"(2)[OF lt _ l]) (use lt z in simp_all)
        have a: "{(i, j + t) | t. t < l} = {(i, c) | c. j \<le> c \<and> c < j + l}"
        proof -
          have "\<And>c. j \<le> c \<Longrightarrow> c < j + l \<Longrightarrow> \<exists>t. c = j + t \<and> t < l"
            by (metis le_Suc_ex nat_add_left_cancel_less)
          then show ?thesis by auto
        qed
        have b: "\<And>c. j + l \<le> c \<and> c < xr \<and> d ! (i * xr + c) \<noteq> 0 \<longleftrightarrow>
                     j + l + 1 \<le> c \<and> c < xr \<and> d ! (i * xr + c) \<noteq> 0"
        proof -
          fix c
          have "c = j + l \<Longrightarrow> d ! (i * xr + c) = 0" using z by (simp add: add.assoc)
          then show "j + l \<le> c \<and> c < xr \<and> d ! (i * xr + c) \<noteq> 0 \<longleftrightarrow>
                     j + l + 1 \<le> c \<and> c < xr \<and> d ! (i * xr + c) \<noteq> 0"
            by (metis Suc_eq_plus1 Suc_leI le_neq_implies_less Suc_leD)
        qed
        have "seg_cells (rle_scan_row d xr i j l) =
           {(i, c) | c. j \<le> c \<and> c < j + l} \<union>
           {(i, c) | c. j + l + 1 \<le> c \<and> c < xr \<and> d ! (i * xr + c) \<noteq> 0}"
          using ih a by (auto simp: eq seg_cells_Cons)
        also have "\<dots> = {(i, c) | c. (j \<le> c \<and> c < j + l) \<or> (j + l \<le> c \<and> c < xr \<and> d ! (i * xr + c) \<noteq> 0)}"
          using b by auto
        finally show ?thesis using ih eq l lt by auto
      next
        case l0: False
        then have l0': "l = 0" by simp
        have eq: "rle_scan_row d xr i j l = rle_scan_row d xr i (j + 1) 0"
          using lt z l0 by (subst rle_scan_row.simps) simp
        have ih: "seg_cells (rle_scan_row d xr i (j + 1) 0) =
          {(i, c) | c. (j + 1 \<le> c \<and> c < j + 1 + 0) \<or> (j + 1 + 0 \<le> c \<and> c < xr \<and> d ! (i * xr + c) \<noteq> 0)} \<and>
          (\<forall>s \<in> set (rle_scan_row d xr i (j + 1) 0). seg_row s = i \<and> 1 \<le> seg_len s \<and> seg_col s + seg_len s \<le> xr)"
          by (rule "1.IH"(3)[OF lt _ l0]) (use lt z l0 in simp_all)
        have b: "\<And>c. j \<le> c \<and> c < xr \<and> d ! (i * xr + c) \<noteq> 0 \<longleftrightarrow>
                     j + 1 \<le> c \<and> c < xr \<and> d ! (i * xr + c) \<noteq> 0"
        proof -
          fix c
          have "c = j \<Longrightarrow> d ! (i * xr + c) = 0" using z l0' by simp
          then show "j \<le> c \<and> c < xr \<and> d ! (i * xr + c) \<noteq> 0 \<longleftrightarrow>
                     j + 1 \<le> c \<and> c < xr \<and> d ! (i * xr + c) \<noteq> 0"
            by (metis Suc_eq_plus1 Suc_leI le_neq_implies_less Suc_leD)
        qed
        show ?thesis unfolding eq using ih b by (auto simp: l0')
      qed
    qed
  qed
qed

lemma run_length_encode_mask_cells:
  "seg_cells (run_length_encode_mask k) = set (kernel_cells k)"
  "\<forall>s \<in> set (run_length_encode_mask k). seg_wf (xres k) (yres k) s"
proof -
  have r: "\<And>i. seg_cells (rle_scan_row (data k) (xres k) i 0 0) =
       {(i, c) | c. c < xres k \<and> data k ! (i * xres k + c) \<noteq> 0} \<and>
       (\<forall>s \<in> set (rle_scan_row (data k) (xres k) i 0 0).
          seg_row s = i \<and> 1 \<le> seg_len s \<and> seg_col s + seg_len s \<le> xres k)"
    using rle_scan_row_cells[of 0 0 "xres k" "data k"] by simp
  show "seg_cells (run_length_encode_mask k) = set (kernel_cells k)"
    unfolding run_length_encode_mask_def seg_cells_concat set_kernel_cells
    using r by auto
  show "\<forall>s \<in> set (run_length_encode_mask k). seg_wf (xres k) (yres k) s"
    unfolding run_length_encode_mask_def seg_wf_def using r by auto
qed

lemma flip_cells:
  assumes "\<forall>s \<in> set segs. seg_wf kx ky s"
  shows "seg_cells (gwy_data_field_area_rle_flip segs kx ky)
         = (\<lambda>(a, b). (ky - 1 - a, kx - 1 - b)) ` seg_cells segs"
    and "\<forall>s \<in> set (gwy_data_field_area_rle_flip segs kx ky). seg_wf kx ky s"
    and "seg_len ` set (gwy_data_field_area_rle_flip segs kx ky) = seg_len ` set segs"
proof -
  let ?f = "\<lambda>seg. seg\<lparr>seg_col := kx - seg_col seg - seg_len seg, seg_row := ky - 1 - seg_row seg\<rparr>"
  have s: "set (gwy_data_field_area_rle_flip segs kx ky) = ?f ` set segs"
    by (simp add: gwy_data_field_area_rle_flip_def)
  show "\<forall>s \<in> set (gwy_data_field_area_rle_flip segs kx ky). seg_wf kx ky s"
    unfolding s using assms by (auto simp: seg_wf_def)
  show "seg_len ` set (gwy_data_field_area_rle_flip segs kx ky) = seg_len ` set segs"
    unfolding s by (auto simp: image_iff)
  show "seg_cells (gwy_data_field_area_rle_flip segs kx ky)
         = (\<lambda>(a, b). (ky - 1 - a, kx - 1 - b)) ` seg_cells segs"
  proof (rule set_eqI, rule iffI)
    fix p assume "p \<in> seg_cells (gwy_data_field_area_rle_flip segs kx ky)"
    then obtain s t where st: "s \<in> set segs" "t < seg_len s"
      "p = (ky - 1 - seg_row s, kx - seg_col s - seg_len s + t)"
      unfolding seg_cells_def s by auto
    from assms st(1) have w: "seg_col s + seg_len s \<le> kx" by (simp add: seg_wf_def)
    have "(seg_row s, seg_col s + (seg_len s - 1 - t)) \<in> seg_cells segs"
      unfolding seg_cells_def using st by (auto intro!: exI[of _ s] exI[of _ "seg_len s - 1 - t"])
    moreover have "kx - 1 - (seg_col s + (seg_len s - 1 - t)) = kx - seg_col s - seg_len s + t"
      using w st(2) by linarith
    ultimately show "p \<in> (\<lambda>(a, b). (ky - 1 - a, kx - 1 - b)) ` seg_cells segs"
      using st(3) by (force simp: image_iff)
  next
    fix p assume "p \<in> (\<lambda>(a, b). (ky - 1 - a, kx - 1 - b)) ` seg_cells segs"
    then obtain s t where st: "s \<in> set segs" "t < seg_len s"
      "p = (ky - 1 - seg_row s, kx - 1 - (seg_col s + t))"
      unfolding seg_cells_def by auto
    from assms st(1) have w: "seg_col s + seg_len s \<le> kx" by (simp add: seg_wf_def)
    have e: "kx - 1 - (seg_col s + t) = kx - seg_col s - seg_len s + (seg_len s - 1 - t)"
      using w st(2) by linarith
    have "?f s \<in> ?f ` set segs" using st(1) by simp
    moreover have "seg_len s - 1 - t < seg_len (?f s)" using st(2) by simp
    ultimately have "(seg_row (?f s), seg_col (?f s) + (seg_len s - 1 - t))
        \<in> seg_cells (gwy_data_field_area_rle_flip segs kx ky)"
      unfolding seg_cells_def s by blast
    then show "p \<in> seg_cells (gwy_data_field_area_rle_flip segs kx ky)"
      using st(3) e by simp
  qed
qed

section \<open>Kernel encoder and the public entry point\<close>

lemma duplicate_id: "gwy_data_field_duplicate (f :: 'a GwyDataField) = f"
  by (cases f) (simp add: gwy_data_field_duplicate_def)

text \<open>
  Claim C8. For every image, region and operation type, when the autocropped copy of the
  kernel has no nonzero cell the public entry point returns normally (not an error) and
  leaves the caller's state, hence every pixel of the image, unchanged. The autocrop
  utility is not part of the sources and is a parameter: the statement holds for every
  autocrop function.
\<close>

theorem empty_kernel_is_noop:
  assumes "\<not> kernel_is_nonempty (autocrop (st_kernel st))"
  shows "gwy_data_field_area_filter_min_max autocrop storage st filtertype col row width height
         = Inr st"
  using assms by (simp add: gwy_data_field_area_filter_min_max_def duplicate_id)

theorem empty_kernel_is_noop_witness:
  "\<not> kernel_is_nonempty ((\<lambda>k. k) (st_kernel
        \<lparr>st_data_field = \<lparr>xres = 2, yres = 1, data = [3, 1 :: rat]\<rparr>,
         st_kernel = \<lparr>xres = 2, yres = 2, data = [0, 0, 0, 0]\<rparr>\<rparr>)) \<and>
   gwy_data_field_area_filter_min_max (\<lambda>k. k) (\<lambda>a b c. 0)
        \<lparr>st_data_field = \<lparr>xres = 2, yres = 1, data = [3, 1 :: rat]\<rparr>,
         st_kernel = \<lparr>xres = 2, yres = 2, data = [0, 0, 0, 0]\<rparr>\<rparr>
        GWY_MIN_MAX_FILTER_OPENING 0 0 2 1
     = Inr \<lparr>st_data_field = \<lparr>xres = 2, yres = 1, data = [3, 1 :: rat]\<rparr>,
            st_kernel = \<lparr>xres = 2, yres = 2, data = [0, 0, 0, 0]\<rparr>\<rparr>"
proof -
  let ?st = "\<lparr>st_data_field = \<lparr>xres = 2, yres = 1, data = [3, 1 :: rat]\<rparr>,
         st_kernel = \<lparr>xres = 2, yres = 2, data = [0, 0, 0, 0]\<rparr>\<rparr>"
  have h: "\<not> kernel_is_nonempty ((\<lambda>k. k) (st_kernel ?st))"
    by code_simp
  from empty_kernel_is_noop[of "\<lambda>k. k" ?st, OF h] h show ?thesis by blast
qed

lemma rle_scan_row_nonempty:
  "l \<noteq> 0 \<or> (\<exists>c. j + l \<le> c \<and> c < xr \<and> d ! (i * xr + c) \<noteq> 0) \<Longrightarrow> rle_scan_row d xr i j l \<noteq> []"
proof (induction d xr i j l rule: rle_scan_row.induct)
  case (1 d xr i j l)
  show ?case
  proof (cases "j + l < xr")
    case False
    with "1.prems" show ?thesis by (subst rle_scan_row.simps) auto
  next
    case lt: True
    show ?thesis
    proof (cases "d ! (i * xr + j + l) \<noteq> 0")
      case True
      have "rle_scan_row d xr i j (l + 1) \<noteq> []" by (rule "1.IH"(1)[OF lt True]) simp
      then show ?thesis using lt True by (subst rle_scan_row.simps) simp
    next
      case z: False
      show ?thesis
      proof (cases "l \<noteq> 0")
        case True
        then show ?thesis using lt z by (subst rle_scan_row.simps) simp
      next
        case l0: False
        with "1.prems" obtain c where c: "j + l \<le> c" "c < xr" "d ! (i * xr + c) \<noteq> 0" by auto
        with z l0 have "c \<noteq> j" by (auto simp: add.assoc)
        with c l0 have "j + 1 + 0 \<le> c" by simp
        with c have "rle_scan_row d xr i (j + 1) 0 \<noteq> []"
          using "1.IH"(3)[OF lt _ l0] z by blast
        then show ?thesis using lt z l0 by (subst rle_scan_row.simps) simp
      qed
    qed
  qed
qed

lemma run_length_encode_mask_nonempty:
  assumes "kernel_is_nonempty k"
  shows "run_length_encode_mask k \<noteq> []"
proof -
  from assms obtain p where p: "p < xres k * yres k" "data k ! p \<noteq> 0"
    by (auto simp: kernel_is_nonempty_def)
  then have x0: "0 < xres k" by (cases "xres k") auto
  define i where "i = p div xres k"
  define c where "c = p mod xres k"
  have i: "i < yres k" using p(1) x0 unfolding i_def
    by (simp add: less_mult_imp_div_less mult.commute)
  have c: "c < xres k" using x0 by (simp add: c_def)
  have pe: "i * xres k + c = p" by (simp add: i_def c_def)
  have "rle_scan_row (data k) (xres k) i 0 0 \<noteq> []"
    by (rule rle_scan_row_nonempty) (use p(2) c pe in auto)
  moreover have "i \<in> set [0..<yres k]" using i by simp
  ultimately show ?thesis
    unfolding run_length_encode_mask_def by (auto simp: concat_eq_Nil_conv)
qed

lemma flip_length [simp]: "length (gwy_data_field_area_rle_flip segs kx ky) = length segs"
  by (simp add: gwy_data_field_area_rle_flip_def)

lemma flip_nonempty: "segs \<noteq> [] \<Longrightarrow> gwy_data_field_area_rle_flip segs kx ky \<noteq> []"
  using flip_length[of segs kx ky] by (cases "gwy_data_field_area_rle_flip segs kx ky") auto

lemma analysed_mrle:
  assumes "analysed (gwy_data_field_area_rle_analyse storage k w) = Inr mmp"
  shows "mmp_mrle mmp = run_length_encode_mask k" "run_length_encode_mask k \<noteq> []"
    "mmp_kxres mmp = xres k" "mmp_kyres mmp = yres k" "mmp_rowbuflen mmp = w + xres k - 1"
  using assms
  by (auto simp: analysed_def gwy_data_field_area_rle_analyse_def Let_def
      split: sum.splits option.splits if_splits)

lemma buffer_at_no_segment: "buffer_at bufs n \<noteq> Inl No_Segment"
  by (simp add: buffer_at_def)

lemma fill_each_step_no_segment: "fill_each_step m req prow rowlen blen \<noteq> Inl No_Segment"
  by (auto simp: fill_each_step_def Let_def buffer_at_def split: sum.splits if_splits)

lemma fill_even_step_no_segment: "fill_even_step m req prow rowlen blen \<noteq> Inl No_Segment"
  by (auto simp: fill_even_step_def Let_def buffer_at_def split: sum.splits if_splits)

lemma precomputed_row_fill_loop_no_segment:
  "precomputed_row_fill_loop m req prow rowlen blen \<noteq> Inl No_Segment"
proof (induction m req prow rowlen blen rule: precomputed_row_fill_loop.induct)
  case (1 m req prow rowlen blen)
  show ?case
    using "1.IH" fill_each_step_no_segment[of m req prow rowlen blen]
      fill_even_step_no_segment[of m req _ rowlen blen]
    by (subst precomputed_row_fill_loop.simps) (auto split: sum.splits)
qed

lemma precomputed_row_fill_no_segment: "precomputed_row_fill m req prow x rowlen \<noteq> Inl No_Segment"
  by (auto simp: precomputed_row_fill_def buffer_at_def precomputed_row_fill_loop_no_segment
      split: sum.splits option.splits)

lemma precompute_field_row_no_segment:
  "precompute_field_row F mmp m ext col width r prow \<noteq> Inl No_Segment"
  by (simp add: precompute_field_row_def Let_def precomputed_row_fill_no_segment)

lemma seed_rows_down_no_segment:
  "seed_rows_down F mmp m ext col row width rows i \<noteq> Inl No_Segment"
proof (induction F mmp m ext col row width rows i rule: seed_rows_down.induct)
  case (1 F mmp m ext col row width rows i)
  show ?case
    using "1.IH" precompute_field_row_no_segment[of F mmp m ext col width "row + i"]
    by (subst seed_rows_down.simps) (auto split: sum.splits)
qed

lemma seed_rows_up_no_segment:
  "seed_rows_up F mmp m ext col row width rows i \<noteq> Inl No_Segment"
proof (induction F mmp m ext col row width rows i rule: seed_rows_up.induct)
  case (1 F mmp m ext col row width rows i)
  show ?case
    using "1.IH" precompute_field_row_no_segment[of F mmp m ext col width "row - i"]
    by (subst seed_rows_up.simps) (auto simp: Let_def split: sum.splits)
qed

lemma segment_data_no_segment: "segment_data rows s width \<noteq> Inl No_Segment"
  by (auto simp: segment_data_def buffer_at_def split: sum.splits option.splits)

lemma fold_segments_no_segment: "fold_segments m rows width segs ob \<noteq> Inl No_Segment"
  by (induction segs arbitrary: ob) (auto simp: segment_data_no_segment split: sum.splits)

lemma mask_rle_execute_min_max_no_segment:
  "mask_rle_execute_min_max mrle rows width m = Inl No_Segment \<longleftrightarrow> mrle = []"
  by (cases mrle)
     (auto simp: mask_rle_execute_min_max_def segment_data_no_segment fold_segments_no_segment
           split: sum.splits)

lemma sweep_rows_no_segment:
  "mmp_mrle mmp \<noteq> [] \<Longrightarrow>
   sweep_rows F mmp m ext col row width height rows outbuf i \<noteq> Inl No_Segment"
proof (induction F mmp m ext col row width height rows outbuf i rule: sweep_rows.induct)
  case (1 F mmp m ext col row width height rows outbuf i)
  show ?case
    using "1.IH" "1.prems" mask_rle_execute_min_max_no_segment[of "mmp_mrle mmp" rows width m]
      precompute_field_row_no_segment[of F mmp m ext col width]
    by (subst sweep_rows.simps) (auto simp: Let_def split: sum.splits)
qed

lemma execute_no_segment:
  "mmp_mrle mmp \<noteq> [] \<Longrightarrow>
   gwy_data_field_area_min_max_execute F mmp m col row width height \<noteq> Inl No_Segment"
  using seed_rows_down_no_segment[of F mmp m _ col row width]
    seed_rows_up_no_segment[of F mmp m _ col row width]
    sweep_rows_no_segment[of mmp F m _ col row width height]
  by (auto simp: gwy_data_field_area_min_max_execute_def Let_def split: sum.splits prod.splits)

lemma execute_keeps_rle:
  "gwy_data_field_area_min_max_execute F mmp m col row width height = Inr (mmp', out) \<Longrightarrow>
   mmp_mrle mmp' = mmp_mrle mmp \<and> mmp_kxres mmp' = mmp_kxres mmp \<and> mmp_kyres mmp' = mmp_kyres mmp"
  by (auto simp: gwy_data_field_area_min_max_execute_def Let_def split: sum.splits prod.splits)

lemma analyse_nonempty:
  assumes "kernel_is_nonempty k"
  shows "\<exists>mmp. gwy_data_field_area_rle_analyse storage k w = Inr (Some mmp) \<and>
           mmp_mrle mmp = run_length_encode_mask k \<and> mmp_mrle mmp \<noteq> [] \<and>
           mmp_kxres mmp = xres k \<and> mmp_kyres mmp = yres k"
proof -
  let ?segs = "run_length_encode_mask k"
  have ne: "?segs \<noteq> []" by (rule run_length_encode_mask_nonempty[OF assms])
  have "\<forall>b \<in> set (map seg_len ?segs). 0 < b"
    using run_length_encode_mask_cells(2)[of k] by (auto simp: seg_wf_def)
  from find_required_lengths_for_set_ok[OF _ this] ne
  obtain req where "find_required_lengths_for_set (map seg_len ?segs) = Inr req" by auto
  then show ?thesis using ne
    by (simp add: gwy_data_field_area_rle_analyse_def Let_def find_required_lengths_for_rle_def)
qed

lemma analysed_nonempty:
  assumes "kernel_is_nonempty k"
  shows "\<exists>mmp. analysed (gwy_data_field_area_rle_analyse storage k w) = Inr mmp \<and>
           mmp_mrle mmp \<noteq> [] \<and> mmp_mrle (flip_mrle mmp) \<noteq> []"
  using analyse_nonempty[OF assms, of storage w]
  by (auto simp: analysed_def flip_mrle_def flip_nonempty)

lemma filter_min_or_max_no_segment:
  assumes "kernel_is_nonempty k"
  shows "filter_min_or_max storage F k is_max c r w h \<noteq> Inl No_Segment"
proof -
  from analysed_nonempty[OF assms, of "storage 0" w]
  obtain mmp where m: "analysed (gwy_data_field_area_rle_analyse (storage 0) k w) = Inr mmp"
    "mmp_mrle mmp \<noteq> []" "mmp_mrle (flip_mrle mmp) \<noteq> []" by blast
  have "mmp_mrle (if is_max then flip_mrle mmp else mmp) \<noteq> []" using m by simp
  from execute_no_segment[OF this, of F is_max c r w h] m(1)
  show ?thesis by (auto simp: filter_min_or_max_def split: sum.splits prod.splits)
qed

lemma filter_range_or_normalization_no_segment:
  assumes "kernel_is_nonempty k"
  shows "filter_range_or_normalization storage F k is_range c r w h \<noteq> Inl No_Segment"
proof -
  from analysed_nonempty[OF assms, of "storage 0" w]
  obtain mmp where m: "analysed (gwy_data_field_area_rle_analyse (storage 0) k w) = Inr mmp"
    "mmp_mrle mmp \<noteq> []" "mmp_mrle (flip_mrle mmp) \<noteq> []" by blast
  note e1 = execute_no_segment[OF m(2), of F False c r w h]
  have e2: "gwy_data_field_area_min_max_execute F (flip_mrle mmp') True c r w h \<noteq> Inl No_Segment"
    if "gwy_data_field_area_min_max_execute F mmp False c r w h = Inr (mmp', out)" for mmp' out
  proof -
    from execute_keeps_rle[OF that] m(2) have "mmp_mrle (flip_mrle mmp') \<noteq> []"
      by (simp add: flip_mrle_def flip_nonempty)
    then show ?thesis by (rule execute_no_segment)
  qed
  show ?thesis using m(1) e1 e2
    by (auto simp: filter_range_or_normalization_def split: sum.splits prod.splits)
qed

lemma bind_no_segment:
  assumes "r \<noteq> Inl No_Segment" "\<And>v. r = Inr v \<Longrightarrow> f v \<noteq> Inl No_Segment"
  shows "bind_err r f \<noteq> Inl No_Segment"
  using assms by (cases r) auto

lemma filter_opening_or_closing_no_segment:
  assumes "kernel_is_nonempty k"
  shows "filter_opening_or_closing storage F k is_closing col row width height \<noteq> Inl No_Segment"
proof -
  define extcol where "extcol = max 0 (col - int (xres k) div 2)"
  define extrow where "extrow = max 0 (row - int (yres k) div 2)"
  define extwidth where "extwidth = min (int (xres F)) (col + width + int (xres k) div 2) - extcol"
  define extheight where "extheight = min (int (yres F)) (row + height + int (yres k) div 2) - extrow"
  from analysed_nonempty[OF assms, of "storage 0" "nat extwidth"]
  obtain mmp where m: "analysed (gwy_data_field_area_rle_analyse (storage 0) k (nat extwidth)) = Inr mmp"
    "mmp_mrle mmp \<noteq> []" "mmp_mrle (flip_mrle mmp) \<noteq> []" by blast
  from analysed_nonempty[OF assms, of "storage 1" "nat width"]
  obtain mmp2 where m2: "analysed (gwy_data_field_area_rle_analyse (storage 1) k (nat width)) = Inr mmp2"
    "mmp_mrle mmp2 \<noteq> []" "mmp_mrle (flip_mrle mmp2) \<noteq> []" by blast
  let ?m1 = "if is_closing then flip_mrle mmp else mmp"
  have a: "mmp_mrle ?m1 \<noteq> []" using m by simp
  let ?second = "\<lambda>(mmp' :: 'a MinMaxPrecomputed).
        if extcol = col \<and> extrow = row \<and> extwidth = width \<and> extheight = height
        then Inr (flip_mrle mmp')
        else bind_err (analysed (gwy_data_field_area_rle_analyse (storage 1) k (nat width)))
               (\<lambda>mmp. Inr (if \<not> is_closing then flip_mrle mmp else mmp))"
  let ?rest = "\<lambda>(mmp' :: 'a MinMaxPrecomputed) tmpdata.
      bind_err (?second mmp') (\<lambda>mmp.
      bind_err (gwy_data_field_area_min_max_execute
                  \<lparr>xres = nat extwidth, yres = nat extheight, data = tmpdata\<rparr>
                  mmp (\<not> is_closing) (nat (col - extcol)) (nat (row - extrow))
                  (nat width) (nat height))
        (\<lambda>(mmp, outbuf).
           Inr (F\<lparr>data :=
                  area_update (\<lambda>i j v. outbuf ! (i * nat width + j)) (xres F)
                    (nat col) (nat row) (nat width) (nat height) (data F)\<rparr>)))"
  have eq: "filter_opening_or_closing storage F k is_closing col row width height
      = bind_err (gwy_data_field_area_min_max_execute F ?m1 is_closing
                    (nat extcol) (nat extrow) (nat extwidth) (nat extheight))
          (\<lambda>(mmp', tmpdata). ?rest mmp' tmpdata)"
    unfolding filter_opening_or_closing_def Let_def
      extcol_def[symmetric] extrow_def[symmetric] extwidth_def[symmetric] extheight_def[symmetric]
    by (simp only: m(1) sum.case)
  have rest: "?rest mmp' tmpdata \<noteq> Inl No_Segment"
    if e: "gwy_data_field_area_min_max_execute F ?m1 is_closing
             (nat extcol) (nat extrow) (nat extwidth) (nat extheight) = Inr (mmp', tmpdata)"
    for mmp' tmpdata
  proof -
    from execute_keeps_rle[OF e] a have f: "mmp_mrle (flip_mrle mmp') \<noteq> []"
      by (simp add: flip_mrle_def flip_nonempty)
    obtain M where M: "?second mmp' = Inr M" "mmp_mrle M \<noteq> []"
      using f m2 by (cases "extcol = col \<and> extrow = row \<and> extwidth = width \<and> extheight = height")
        auto
    have x: "gwy_data_field_area_min_max_execute
                  \<lparr>xres = nat extwidth, yres = nat extheight, data = tmpdata\<rparr>
                  M (\<not> is_closing) (nat (col - extcol)) (nat (row - extrow))
                  (nat width) (nat height) \<noteq> Inl No_Segment"
      by (rule execute_no_segment[OF M(2)])
    show ?thesis
      unfolding M(1) sum.case
      by (rule bind_no_segment[OF x]) (auto split: prod.splits)
  qed
  show ?thesis
    unfolding eq
    by (rule bind_no_segment[OF execute_no_segment[OF a]]) (use rest in \<open>auto split: prod.splits\<close>)
qed

lemma filter_real_no_segment:
  assumes "kernel_is_nonempty k"
  shows "gwy_data_field_area_filter_min_max_real storage F k ft col row width height \<noteq> Inl No_Segment"
  using filter_min_or_max_no_segment[OF assms] filter_range_or_normalization_no_segment[OF assms]
    filter_opening_or_closing_no_segment[OF assms]
  by (simp add: gwy_data_field_area_filter_min_max_real_def)

lemma filter_min_max_no_segment:
  "gwy_data_field_area_filter_min_max autocrop storage st ft col row width height \<noteq> Inl No_Segment"
  by (auto simp: gwy_data_field_area_filter_min_max_def Let_def filter_real_no_segment
      split: sum.splits)

lemma disc_asf_loop_no_segment:
  assumes "\<And>r. 1 \<le> r \<Longrightarrow> kernel_is_nonempty
             (elliptic (gwy_data_field_new (nat (2 * r + 1)) (nat (2 * r + 1)))
                0 0 (2 * r + 1) (2 * r + 1) 1)"
  shows "1 \<le> r \<Longrightarrow>
         disc_asf_loop elliptic storage F ft1 ft2 col row width height r radius \<noteq> Inl No_Segment"
proof (induction "nat (radius + 1 - r)" arbitrary: r F rule: less_induct)
  case less
  have k: "kernel_is_nonempty (elliptic (gwy_data_field_new (nat (2 * r + 1)) (nat (2 * r + 1)))
             0 0 (2 * r + 1) (2 * r + 1) 1)"
    by (rule assms[OF less.prems])
  show ?case
  proof (cases "r \<le> radius")
    case False
    then show ?thesis by (subst disc_asf_loop.simps) simp
  next
    case True
    have ih: "\<And>F'. disc_asf_loop elliptic storage F' ft1 ft2 col row width height (r + 1) radius
                \<noteq> Inl No_Segment"
      by (rule less.hyps) (use True less.prems in simp_all)
    show ?thesis
      using True ih filter_real_no_segment[OF k]
      by (subst disc_asf_loop.simps) (auto simp: Let_def split: sum.splits)
  qed
qed

lemma disc_asf_no_segment:
  assumes "\<And>r. 1 \<le> r \<Longrightarrow> kernel_is_nonempty
             (elliptic (gwy_data_field_new (nat (2 * r + 1)) (nat (2 * r + 1)))
                0 0 (2 * r + 1) (2 * r + 1) 1)"
  shows "gwy_data_field_area_filter_disc_asf elliptic storage F radius closing col row width height
         \<noteq> Inl No_Segment"
proof -
  have "disc_asf_loop elliptic storage F ft1 ft2 col row width height 1 radius \<noteq> Inl No_Segment"
    for ft1 ft2
    by (rule disc_asf_loop_no_segment) (use assms in simp_all)
  then show ?thesis by (simp add: gwy_data_field_area_filter_disc_asf_def)
qed

lemma fill_all_nonempty:
  "1 \<le> r \<Longrightarrow> kernel_is_nonempty
     ((\<lambda>f c r w h v. f\<lparr>data := replicate (xres f * yres f) v\<rparr>)
        (gwy_data_field_new (nat (2 * r + 1)) (nat (2 * r + 1)) :: rat GwyDataField)
        0 0 (2 * r + 1) (2 * r + 1) 1)"
proof -
  assume r: "1 \<le> r"
  let ?n = "nat (2 * r + 1)"
  have p: "0 < ?n * ?n" using r by simp
  then have "replicate (?n * ?n) (1 :: rat) ! 0 \<noteq> 0" by simp
  with p have "\<exists>i \<in> set [0..<?n * ?n]. replicate (?n * ?n) (1 :: rat) ! i \<noteq> 0"
    by (intro bexI[of _ 0]) simp_all
  then show ?thesis unfolding kernel_is_nonempty_def gwy_data_field_new_def by simp
qed

text \<open>
  Claim C10. The executor reads the first segment of the run-length encoding
  unconditionally; in the model this read is the only source of the error \<open>No_Segment\<close>:
  \<open>mask_rle_execute_min_max\<close> returns it exactly when the encoding is empty, and the
  executor \<open>gwy_data_field_area_min_max_execute\<close> never returns it for a non-empty
  encoding. Encoding a kernel with at least one nonzero cell yields at least one segment,
  the analysis of such a kernel succeeds with a non-empty encoding (also after the
  reflection used for maximum passes), and therefore
  \<open>gwy_data_field_area_filter_min_max_real\<close>, for every operation type, image and region,
  never makes the executor read a segment that is not there. The public entry point skips
  the operation when the autocropped kernel is all zero, so it never does either, for any
  kernel at all. The alternating sequential filter calls
  \<open>gwy_data_field_area_filter_min_max_real\<close> without that guard, on discs drawn by a
  fill routine that is not part of the sources and is a parameter here; it is safe
  whenever every disc so drawn has a nonzero cell.
\<close>

theorem executor_rle_never_empty:
  "(mask_rle_execute_min_max mrle rows w m = Inl No_Segment \<longleftrightarrow> mrle = []) \<and>
   (mmp_mrle mmp \<noteq> [] \<longrightarrow>
      gwy_data_field_area_min_max_execute F mmp m c r w h \<noteq> Inl No_Segment) \<and>
   (kernel_is_nonempty k \<longrightarrow>
      run_length_encode_mask k \<noteq> [] \<and>
      (\<exists>mmp. gwy_data_field_area_rle_analyse storage k w = Inr (Some mmp) \<and>
         mmp_mrle mmp \<noteq> [] \<and> mmp_mrle (flip_mrle mmp) \<noteq> []) \<and>
      gwy_data_field_area_filter_min_max_real storage2 F k filtertype col row width height
        \<noteq> Inl No_Segment) \<and>
   (\<not> kernel_is_nonempty (autocrop (gwy_data_field_duplicate (st_kernel st))) \<longrightarrow>
      gwy_data_field_area_filter_min_max autocrop storage2 st filtertype col row width height
        = Inr st) \<and>
   gwy_data_field_area_filter_min_max autocrop storage2 st filtertype col row width height
     \<noteq> Inl No_Segment \<and>
   ((\<forall>r \<ge> 1. kernel_is_nonempty
        (elliptic_area_fill (gwy_data_field_new (nat (2 * r + 1)) (nat (2 * r + 1)))
           0 0 (2 * r + 1) (2 * r + 1) 1)) \<longrightarrow>
      gwy_data_field_area_filter_disc_asf elliptic_area_fill storage3 F radius closing
        col row width height \<noteq> Inl No_Segment)"
proof (intro conjI impI)
  show "mask_rle_execute_min_max mrle rows w m = Inl No_Segment \<longleftrightarrow> mrle = []"
    by (rule mask_rle_execute_min_max_no_segment)
next
  assume "mmp_mrle mmp \<noteq> []"
  then show "gwy_data_field_area_min_max_execute F mmp m c r w h \<noteq> Inl No_Segment"
    by (rule execute_no_segment)
next
  assume "kernel_is_nonempty k"
  then show "run_length_encode_mask k \<noteq> []" by (rule run_length_encode_mask_nonempty)
next
  assume k: "kernel_is_nonempty k"
  from analyse_nonempty[OF k, of storage w]
  show "\<exists>mmp. gwy_data_field_area_rle_analyse storage k w = Inr (Some mmp) \<and>
         mmp_mrle mmp \<noteq> [] \<and> mmp_mrle (flip_mrle mmp) \<noteq> []"
    by (auto simp: flip_mrle_def flip_nonempty)
next
  assume "kernel_is_nonempty k"
  then show "gwy_data_field_area_filter_min_max_real storage2 F k filtertype col row width height
        \<noteq> Inl No_Segment" by (rule filter_real_no_segment)
next
  assume "\<not> kernel_is_nonempty (autocrop (gwy_data_field_duplicate (st_kernel st)))"
  then show "gwy_data_field_area_filter_min_max autocrop storage2 st filtertype col row width height
        = Inr st"
    by (simp add: gwy_data_field_area_filter_min_max_def)
next
  show "gwy_data_field_area_filter_min_max autocrop storage2 st filtertype col row width height
     \<noteq> Inl No_Segment" by (rule filter_min_max_no_segment)
next
  assume a: "\<forall>r \<ge> 1. kernel_is_nonempty
        (elliptic_area_fill (gwy_data_field_new (nat (2 * r + 1)) (nat (2 * r + 1)))
           0 0 (2 * r + 1) (2 * r + 1) 1)"
  show "gwy_data_field_area_filter_disc_asf elliptic_area_fill storage3 F radius closing
        col row width height \<noteq> Inl No_Segment"
    by (rule disc_asf_no_segment) (use a in simp)
qed

theorem executor_rle_never_empty_witness:
  "kernel_is_nonempty \<lparr>xres = 2, yres = 2, data = [0, 1, 1, 0 :: rat]\<rparr> \<and>
   run_length_encode_mask \<lparr>xres = 2, yres = 2, data = [0, 1, 1, 0 :: rat]\<rparr> \<noteq> [] \<and>
   mask_rle_execute_min_max [] ([] :: rat MinMaxPrecomputedRow list) 2 False = Inl No_Segment \<and>
   gwy_data_field_area_filter_min_max_real (\<lambda>a b c. 0)
        \<lparr>xres = 2, yres = 1, data = [3, 1 :: rat]\<rparr>
        \<lparr>xres = 2, yres = 2, data = [0, 1, 1, 0 :: rat]\<rparr>
        GWY_MIN_MAX_FILTER_RANGE 0 0 2 1 \<noteq> Inl No_Segment \<and>
   \<not> kernel_is_nonempty ((\<lambda>k. k) (gwy_data_field_duplicate (st_kernel
        \<lparr>st_data_field = \<lparr>xres = 2, yres = 1, data = [3, 1 :: rat]\<rparr>,
         st_kernel = \<lparr>xres = 1, yres = 2, data = [0, 0]\<rparr>\<rparr>))) \<and>
   gwy_data_field_area_filter_min_max (\<lambda>k. k) (\<lambda>a b c. 0)
        \<lparr>st_data_field = \<lparr>xres = 2, yres = 1, data = [3, 1 :: rat]\<rparr>,
         st_kernel = \<lparr>xres = 1, yres = 2, data = [0, 0]\<rparr>\<rparr>
        GWY_MIN_MAX_FILTER_RANGE 0 0 2 1
     = Inr \<lparr>st_data_field = \<lparr>xres = 2, yres = 1, data = [3, 1 :: rat]\<rparr>,
            st_kernel = \<lparr>xres = 1, yres = 2, data = [0, 0]\<rparr>\<rparr> \<and>
   gwy_data_field_area_filter_disc_asf
        (\<lambda>f c r w h v. f\<lparr>data := replicate (xres f * yres f) v\<rparr>) (\<lambda>n a b c. 0)
        \<lparr>xres = 2, yres = 1, data = [3, 1 :: rat]\<rparr> 1 True 0 0 2 1 \<noteq> Inl No_Segment"
proof -
  let ?k = "\<lparr>xres = 2, yres = 2, data = [0, 1, 1, 0 :: rat]\<rparr>"
  let ?F = "\<lparr>xres = 2, yres = 1, data = [3, 1 :: rat]\<rparr>"
  let ?st = "\<lparr>st_data_field = ?F, st_kernel = \<lparr>xres = 1, yres = 2, data = [0, 0]\<rparr>\<rparr>"
  let ?fill = "\<lambda>(f :: rat GwyDataField) (c :: int) (r :: int) (w :: int) (h :: int) v.
                 f\<lparr>data := replicate (xres f * yres f) v\<rparr>"
  have h1: "kernel_is_nonempty ?k" by code_simp
  have h2: "\<not> kernel_is_nonempty ((\<lambda>k. k) (gwy_data_field_duplicate (st_kernel ?st)))"
    by code_simp
  have h3: "\<forall>r \<ge> 1. kernel_is_nonempty
              (?fill (gwy_data_field_new (nat (2 * r + 1)) (nat (2 * r + 1)))
                 0 0 (2 * r + 1) (2 * r + 1) 1)"
    using fill_all_nonempty by blast
  from executor_rle_never_empty[where mrle = "[]" and rows = "[] :: rat MinMaxPrecomputedRow list"
      and w = 2 and m = False and k = ?k and F = ?F and ?storage2.0 = "\<lambda>a b c. 0"
      and filtertype = GWY_MIN_MAX_FILTER_RANGE and col = 0 and row = 0 and width = 2
      and height = 1 and autocrop = "\<lambda>k. k" and st = ?st and elliptic_area_fill = ?fill
      and ?storage3.0 = "\<lambda>n a b c. 0" and radius = 1 and closing = True] h1 h2 h3
  show ?thesis by blast
qed

section \<open>Border extension\<close>

lemma clamp_index_inside: "k < res \<Longrightarrow> clamp_index res (int k) = k"
  unfolding clamp_index_def by linarith

lemma row_extend_border_length:
  assumes "length inp = res" "pos + width \<le> res"
  shows "length (row_extend_border inp pos width res el er) = el + width + er"
  using assms by (auto simp: row_extend_border_def row_extend_base_def Let_def min_def)

lemma row_extend_border_nth:
  assumes "length inp = res" "pos + width \<le> res" "0 < width" "t < el + width + er"
  shows "row_extend_border inp pos width res el er ! t
         = inp ! clamp_index res (int pos + int t - int el)"
proof -
  define e2r where "e2r = min er (res - (pos + width))"
  define e2l where "e2l = min el pos"
  define w' where "w' = width + e2r + e2l"
  define el' where "el' = el - e2l"
  define er' where "er' = er - e2r"
  define pos' where "pos' = pos - e2l"
  have out: "row_extend_border inp pos width res el er
     = replicate el' (inp ! 0) @ take w' (drop pos' inp) @ replicate er' (inp ! (res - 1))"
    by (simp add: row_extend_border_def row_extend_base_def Let_def e2r_def e2l_def w'_def
        el'_def er'_def pos'_def)
  have b: "pos' + w' \<le> res" "e2l \<le> el" "e2l \<le> pos" "e2r \<le> er" "pos' + e2l = pos"
    "0 < res"
    using assms unfolding e2r_def e2l_def w'_def pos'_def by auto
  have lw: "length (take w' (drop pos' inp)) = w'" using b assms(1) by simp
  consider (left) "t < el'" | (mid) "el' \<le> t" "t < el' + w'" | (right) "el' + w' \<le> t"
    by linarith
  then show ?thesis
  proof cases
    case left
    then have "e2l = pos" "int pos + int t - int el < 0"
      unfolding el'_def e2l_def by (auto simp: min_def split: if_splits)
    then have "clamp_index res (int pos + int t - int el) = 0"
      using b by (simp add: clamp_index_def)
    then show ?thesis using left by (simp add: out nth_append)
  next
    case mid
    then have i: "int pos + int t - int el = int (pos' + (t - el'))"
      using b unfolding el'_def by linarith
    have lt: "pos' + (t - el') < res" using mid b by linarith
    then have "clamp_index res (int pos + int t - int el) = pos' + (t - el')"
      unfolding i by (rule clamp_index_inside)
    moreover have "row_extend_border inp pos width res el er ! t = inp ! (pos' + (t - el'))"
      using mid lw lt assms(1) by (simp add: out nth_append)
    ultimately show ?thesis by simp
  next
    case right
    then have "0 < er'" using assms(4) b unfolding el'_def er'_def w'_def by linarith
    then have "e2r = res - (pos + width)" unfolding er'_def e2r_def by (auto simp: min_def split: if_splits)
    then have "int res \<le> int pos + int t - int el"
      using right b assms(2) unfolding el'_def w'_def by linarith
    then have "clamp_index res (int pos + int t - int el) = res - 1"
      using b by (simp add: clamp_index_def max_def min_def)
    moreover have "row_extend_border inp pos width res el er ! t = inp ! (res - 1)"
    proof -
      have "t - el' - w' < er'" using assms(4) right b unfolding el'_def er'_def w'_def by linarith
      moreover have "\<not> t < el'" "\<not> t - el' < w'" using right by linarith+
      ultimately show ?thesis using lw by (simp add: out nth_append)
    qed
    ultimately show ?thesis by simp
  qed
qed

text \<open>
  For a kernel of extent \<open>kx\<close> by \<open>ky\<close> (both at least 1, as for every non-empty
  kernel; the unsigned \<open>k - 1\<close> of the source does not wrap then), the executor computes
  \<open>(k - 1) div 2\<close> before and \<open>k div 2\<close> after for a minimum pass, and \<open>k div 2\<close> before
  and \<open>(k - 1) div 2\<close> after for a maximum pass, in both axes. The extended row handed to
  the row engine has exactly these many samples before and after the \<open>width\<close> samples of
  the region, which sit at offset \<open>extend_left\<close>.
\<close>

lemma border_extension_amounts:
  assumes "1 \<le> kx" "1 \<le> ky" "length inp = res" "col + width \<le> res" "0 < width"
  shows "ext_left (min_max_extends False kx ky) = (kx - 1) div 2 \<and>
         ext_right (min_max_extends False kx ky) = kx div 2 \<and>
         ext_up (min_max_extends False kx ky) = (ky - 1) div 2 \<and>
         ext_down (min_max_extends False kx ky) = ky div 2 \<and>
         ext_left (min_max_extends True kx ky) = kx div 2 \<and>
         ext_right (min_max_extends True kx ky) = (kx - 1) div 2 \<and>
         ext_up (min_max_extends True kx ky) = ky div 2 \<and>
         ext_down (min_max_extends True kx ky) = (ky - 1) div 2 \<and>
         length (row_extend_border inp col width res
                   (ext_left (min_max_extends False kx ky))
                   (ext_right (min_max_extends False kx ky)))
           = (kx - 1) div 2 + width + kx div 2 \<and>
         length (row_extend_border inp col width res
                   (ext_left (min_max_extends True kx ky))
                   (ext_right (min_max_extends True kx ky)))
           = kx div 2 + width + (kx - 1) div 2 \<and>
         (\<forall>j < width.
            row_extend_border inp col width res
                   (ext_left (min_max_extends False kx ky))
                   (ext_right (min_max_extends False kx ky)) ! ((kx - 1) div 2 + j)
              = inp ! (col + j) \<and>
            row_extend_border inp col width res
                   (ext_left (min_max_extends True kx ky))
                   (ext_right (min_max_extends True kx ky)) ! (kx div 2 + j)
              = inp ! (col + j))"
proof -
  have e: "ext_left (min_max_extends False kx ky) = (kx - 1) div 2"
    "ext_right (min_max_extends False kx ky) = kx div 2"
    "ext_up (min_max_extends False kx ky) = (ky - 1) div 2"
    "ext_down (min_max_extends False kx ky) = ky div 2"
    "ext_left (min_max_extends True kx ky) = kx div 2"
    "ext_right (min_max_extends True kx ky) = (kx - 1) div 2"
    "ext_up (min_max_extends True kx ky) = ky div 2"
    "ext_down (min_max_extends True kx ky) = (ky - 1) div 2"
    by (simp_all add: min_max_extends_def)
  have n: "row_extend_border inp col width res el er ! (el + j) = inp ! (col + j)"
    if "j < width" for el er j
  proof -
    have "int col + int (el + j) - int el = int (col + j)" by simp
    moreover have "col + j < res" using that assms(4) by simp
    ultimately have "clamp_index res (int col + int (el + j) - int el) = col + j"
      using clamp_index_inside by presburger
    then show ?thesis
      using row_extend_border_nth[OF assms(3,4,5), of "el + j" el er] that by simp
  qed
  show ?thesis
    unfolding e using row_extend_border_length[OF assms(3,4)] n by simp
qed

section \<open>Frame: only the region is written\<close>

lemma fold_update_length [simp]:
  "length (fold (\<lambda>j d. d[g j := f j (d ! g j)]) js d) = length d"
  by (induction js arbitrary: d) auto

lemma fold_update_other:
  "k \<notin> g ` set js \<Longrightarrow> fold (\<lambda>j d. d[g j := f j (d ! g j)]) js d ! k = d ! k"
  by (induction js arbitrary: d) auto

lemma fold_update_hit:
  assumes "distinct (map g js)" "j \<in> set js" "g j < length d"
  shows "fold (\<lambda>j d. d[g j := f j (d ! g j)]) js d ! g j = f j (d ! g j)"
  using assms
proof (induction js arbitrary: d)
  case Nil then show ?case by simp
next
  case (Cons a js)
  show ?case
  proof (cases "j = a")
    case True
    have "g a \<notin> g ` set js" using Cons.prems(1) by auto
    then show ?thesis using True Cons.prems(3) by (simp add: fold_update_other)
  next
    case False
    then have j: "j \<in> set js" using Cons.prems(2) by simp
    have ne: "g a \<noteq> g j" using Cons.prems(1) j by auto
    have "fold (\<lambda>j d. d[g j := f j (d ! g j)]) js (d[g a := f a (d ! g a)]) ! g j
        = f j (d[g a := f a (d ! g a)] ! g j)"
      using Cons.IH[of "d[g a := f a (d ! g a)]"] Cons.prems j by simp
    then show ?thesis using ne by simp
  qed
qed

lemma area_update_length [simp]:
  "length (area_update f xr col row width height d) = length d"
proof -
  have "\<And>d. length (fold (\<lambda>i d. fold (\<lambda>j d. d[(row + i) * xr + col + j :=
                                   f i j (d ! ((row + i) * xr + col + j))]) [0..<width] d) is d)
        = length d" for "is"
    by (induction "is") auto
  then show ?thesis by (simp add: area_update_def)
qed

lemma area_update_outside:
  assumes "\<forall>i < height. \<forall>j < width. k \<noteq> (row + i) * xr + col + j"
  shows "area_update f xr col row width height d ! k = d ! k"
proof -
  have "\<And>d. set is \<subseteq> {0..<height} \<Longrightarrow>
      fold (\<lambda>i d. fold (\<lambda>j d. d[(row + i) * xr + col + j :=
                                   f i j (d ! ((row + i) * xr + col + j))]) [0..<width] d) is d ! k
        = d ! k" for "is"
  proof (induction "is")
    case Nil then show ?case by simp
  next
    case (Cons a "is")
    have a: "a < height" using Cons.prems by simp
    have "k \<notin> (\<lambda>j. (row + a) * xr + col + j) ` set [0..<width]"
    proof
      assume "k \<in> (\<lambda>j. (row + a) * xr + col + j) ` set [0..<width]"
      then obtain j where "j \<in> set [0..<width]" "k = (row + a) * xr + col + j" by blast
      then have "j < width" "k = (row + a) * xr + col + j" by simp_all
      with assms a show False by blast
    qed
    from fold_update_other[OF this, of "f a"] Cons show ?case by simp
  qed
  then show ?thesis by (simp add: area_update_def)
qed

lemma cell_index_inj:
  assumes "c < xr" "c' < xr" "r * xr + c = r' * xr + c'"
  shows "r = r' \<and> c = (c' :: nat)"
proof -
  have step: "a * xr + xr \<le> b * xr" if "a < b" for a b :: nat
  proof -
    from that have "Suc a \<le> b" by simp
    then have "Suc a * xr \<le> b * xr" by (rule mult_le_mono1)
    then show ?thesis by simp
  qed
  have "\<not> r < r'" using step[of r r'] assms by linarith
  moreover have "\<not> r' < r" using step[of r' r] assms by linarith
  ultimately have "r = r'" by simp
  then show ?thesis using assms(3) by simp
qed

lemma area_update_inside:
  assumes "col + width \<le> xr" "(row + height) * xr \<le> length d" "i < height" "j < width"
  shows "area_update f xr col row width height d ! ((row + i) * xr + col + j)
         = f i j (d ! ((row + i) * xr + col + j))"
proof -
  let ?row = "\<lambda>i d. fold (\<lambda>j d. d[(row + i) * xr + col + j :=
                                   f i j (d ! ((row + i) * xr + col + j))]) [0..<width] d"
  have idx: "(row + i) * xr + col + j < length d"
  proof -
    have "Suc (row + i) \<le> row + height" using assms(3) by simp
    then have "Suc (row + i) * xr \<le> (row + height) * xr" by (rule mult_le_mono1)
    then have "(row + i) * xr + xr \<le> (row + height) * xr" by simp
    then show ?thesis using assms by linarith
  qed
  have other: "?row i' d' ! ((row + i) * xr + col + j) = d' ! ((row + i) * xr + col + j)"
    if "i' \<noteq> i" for i' d'
  proof -
    have ni: "(row + i) * xr + col + j \<notin> (\<lambda>j. (row + i') * xr + col + j) ` set [0..<width]"
    proof
      assume "(row + i) * xr + col + j \<in> (\<lambda>j. (row + i') * xr + col + j) ` set [0..<width]"
      then obtain j' where "j' \<in> set [0..<width]" "(row + i) * xr + col + j = (row + i') * xr + col + j'"
        by blast
      then have j': "j' < width" "(row + i) * xr + (col + j) = (row + i') * xr + (col + j')"
        by simp_all
      from cell_index_inj[OF _ _ j'(2)] assms(1,4) j'(1) that show False by simp
    qed
    show ?thesis by (rule fold_update_other[OF ni])
  qed
  have len: "\<And>i d. length (?row i d) = length d" by simp
  have hit: "?row i d' ! ((row + i) * xr + col + j) = f i j (d' ! ((row + i) * xr + col + j))"
    if "length d' = length d" for d'
  proof -
    have "distinct (map (\<lambda>j. (row + i) * xr + col + j) [0..<width])"
      by (simp add: distinct_map inj_on_def)
    from fold_update_hit[OF this, of j d' "f i"] assms(4) idx that show ?thesis by simp
  qed
  have main: "\<And>d'. length d' = length d \<Longrightarrow> distinct is \<Longrightarrow>
      fold ?row is d' ! ((row + i) * xr + col + j)
        = (if i \<in> set is then f i j (d' ! ((row + i) * xr + col + j))
           else d' ! ((row + i) * xr + col + j))" for "is"
  proof (induction "is")
    case Nil then show ?case by simp
  next
    case (Cons a "is")
    have l: "length (?row a d') = length d" using Cons.prems(1) by simp
    have ds: "distinct is" "a \<notin> set is" using Cons.prems(2) by simp_all
    show ?case
    proof (cases "a = i")
      case True
      then have "i \<notin> set is" using ds by simp
      then show ?thesis using Cons.IH[OF l ds(1)] True hit[OF Cons.prems(1)] by simp
    next
      case False
      then show ?thesis using Cons.IH[OF l ds(1)] other[OF False, of d'] by simp
    qed
  qed
  show ?thesis using main[of d "[0..<height]"] assms(3) by (simp add: area_update_def)
qed

lemma filter_real_shape:
  assumes "gwy_data_field_area_filter_min_max_real storage df k filtertype col row width height = Inr df'"
  shows "col \<ge> 0 \<and> row \<ge> 0 \<and> width > 0 \<and> height > 0
         \<and> col + width \<le> int (xres df) \<and> row + height \<le> int (yres df)"
    and "\<exists>f. df' = df\<lparr>data := area_update f (xres df) (nat col) (nat row) (nat width) (nat height)
                                (data df)\<rparr>"
proof -
  show v: "col \<ge> 0 \<and> row \<ge> 0 \<and> width > 0 \<and> height > 0
         \<and> col + width \<le> int (xres df) \<and> row + height \<le> int (yres df)"
    using assms unfolding gwy_data_field_area_filter_min_max_real_def
    by (auto split: if_splits)
  consider (mm) b where "filter_min_or_max storage df k b (nat col) (nat row) (nat width) (nat height) = Inr df'"
    | (rn) b where "filter_range_or_normalization storage df k b (nat col) (nat row) (nat width) (nat height) = Inr df'"
    | (oc) b where "filter_opening_or_closing storage df k b col row width height = Inr df'"
    using assms v unfolding gwy_data_field_area_filter_min_max_real_def
    by (auto split: if_splits)
  then show "\<exists>f. df' = df\<lparr>data := area_update f (xres df) (nat col) (nat row) (nat width) (nat height)
                                (data df)\<rparr>"
  proof cases
    case mm
    then show ?thesis unfolding filter_min_or_max_def
      by (auto split: sum.splits prod.splits)
  next
    case rn
    then show ?thesis unfolding filter_range_or_normalization_def
      by (auto split: sum.splits prod.splits if_splits)
  next
    case oc
    then show ?thesis unfolding filter_opening_or_closing_def Let_def
      by (auto split: sum.splits prod.splits)
  qed
qed

text \<open>
  Claim C9. Whenever the public entry point returns normally, for every operation type,
  region and kernel: the caller's kernel raster is unchanged (the filter works on a
  duplicate, which alone is autocropped, and reflection acts on the run-length encoding),
  the image keeps its dimensions, and every pixel outside the requested region rectangle
  keeps its prior value. The image and the kernel are distinct objects of the state.
\<close>

theorem filter_frame:
  assumes "gwy_data_field_area_filter_min_max autocrop storage st filtertype col row width height
           = Inr st'"
  shows "st_kernel st' = st_kernel st \<and>
         xres (st_data_field st') = xres (st_data_field st) \<and>
         yres (st_data_field st') = yres (st_data_field st) \<and>
         length (data (st_data_field st')) = length (data (st_data_field st)) \<and>
         (\<forall>r c. c < xres (st_data_field st) \<and>
                \<not> (row \<le> int r \<and> int r < row + height \<and> col \<le> int c \<and> int c < col + width) \<longrightarrow>
                data (st_data_field st') ! (r * xres (st_data_field st) + c)
                  = data (st_data_field st) ! (r * xres (st_data_field st) + c))"
proof (cases "kernel_is_nonempty (autocrop (gwy_data_field_duplicate (st_kernel st)))")
  case False
  with assms have "st' = st" by (simp add: gwy_data_field_area_filter_min_max_def)
  then show ?thesis by simp
next
  case True
  let ?df = "st_data_field st"
  from assms True obtain df' where
    r: "gwy_data_field_area_filter_min_max_real storage ?df
          (autocrop (gwy_data_field_duplicate (st_kernel st))) filtertype col row width height = Inr df'"
    and s: "st' = st\<lparr>st_data_field := df'\<rparr>"
    by (auto simp: gwy_data_field_area_filter_min_max_def Let_def split: sum.splits)
  note v = filter_real_shape(1)[OF r]
  from filter_real_shape(2)[OF r] obtain f where
    f: "df' = ?df\<lparr>data := area_update f (xres ?df) (nat col) (nat row) (nat width) (nat height)
                                (data ?df)\<rparr>" by blast
  have frame: "data df' ! (r * xres ?df + c) = data ?df ! (r * xres ?df + c)"
    if c: "c < xres ?df"
      and out: "\<not> (row \<le> int r \<and> int r < row + height \<and> col \<le> int c \<and> int c < col + width)"
    for r c
  proof -
    have "\<forall>i < nat height. \<forall>j < nat width. r * xres ?df + c \<noteq> (nat row + i) * xres ?df + nat col + j"
    proof (intro allI impI notI)
      fix i j assume i: "i < nat height" and j: "j < nat width"
        and e: "r * xres ?df + c = (nat row + i) * xres ?df + nat col + j"
      have "nat col + j < xres ?df" using v j by linarith
      from cell_index_inj[OF c this] e have "r = nat row + i" "c = nat col + j"
        by (simp_all add: add.assoc)
      with i j v out show False by linarith
    qed
    from area_update_outside[OF this] f show ?thesis by simp
  qed
  show ?thesis using s f frame by simp
qed

theorem filter_frame_witness:
  "gwy_data_field_area_filter_min_max (\<lambda>k. k) (\<lambda>a b c. 0)
     \<lparr>st_data_field = \<lparr>xres = 3, yres = 3, data = [1, 2, 3, 4, 5, 6, 7, 8, 9 :: rat]\<rparr>,
      st_kernel = \<lparr>xres = 3, yres = 1, data = [1, 1, 1]\<rparr>\<rparr>
     GWY_MIN_MAX_FILTER_MAXIMUM 1 1 2 1
   = Inr \<lparr>st_data_field = \<lparr>xres = 3, yres = 3, data = [1, 2, 3, 4, 6, 6, 7, 8, 9 :: rat]\<rparr>,
          st_kernel = \<lparr>xres = 3, yres = 1, data = [1, 1, 1]\<rparr>\<rparr> \<and>
   st_kernel \<lparr>st_data_field = \<lparr>xres = 3, yres = 3, data = [1, 2, 3, 4, 6, 6, 7, 8, 9 :: rat]\<rparr>,
          st_kernel = \<lparr>xres = 3, yres = 1, data = [1, 1, 1]\<rparr>\<rparr>
     = \<lparr>xres = 3, yres = 1, data = [1, 1, 1]\<rparr> \<and>
   [1, 2, 3, 4, 6, 6, 7, 8, 9 :: rat] ! (1 * 3 + 0) = [1, 2, 3, 4, 5, 6, 7, 8, 9] ! (1 * 3 + 0)"
proof -
  let ?st = "\<lparr>st_data_field = \<lparr>xres = 3, yres = 3, data = [1, 2, 3, 4, 5, 6, 7, 8, 9 :: rat]\<rparr>,
      st_kernel = \<lparr>xres = 3, yres = 1, data = [1, 1, 1]\<rparr>\<rparr>"
  let ?st' = "\<lparr>st_data_field = \<lparr>xres = 3, yres = 3, data = [1, 2, 3, 4, 6, 6, 7, 8, 9 :: rat]\<rparr>,
          st_kernel = \<lparr>xres = 3, yres = 1, data = [1, 1, 1]\<rparr>\<rparr>"
  have h: "gwy_data_field_area_filter_min_max (\<lambda>k. k) (\<lambda>a b c. 0) ?st
     GWY_MIN_MAX_FILTER_MAXIMUM 1 1 2 1 = Inr ?st'"
    by code_simp
  from filter_frame[OF h] have
    "st_kernel ?st' = st_kernel ?st"
    "(3 :: nat) = 3 \<and> \<not> ((1::int) \<le> int 1 \<and> int 1 < 1 + 1 \<and> (1::int) \<le> int 0 \<and> int 0 < 1 + 2) \<longrightarrow>
       data (st_data_field ?st') ! (1 * xres (st_data_field ?st) + 0)
       = data (st_data_field ?st) ! (1 * xres (st_data_field ?st) + 0)"
    by simp_all
  with h show ?thesis by simp
qed

section \<open>The row precompute engine computes exact window extrema\<close>

lemma pick_max_min: "pick maximum a b = (if maximum then max a b else min a b)"
  by (auto simp: pick_def max_def min_def)

lemma pick_commute: "pick maximum a b = pick maximum b a"
  by (auto simp: pick_max_min max.commute min.commute)

lemma window_single:
  assumes "i < length x"
  shows "window_extremum maximum x i 1 = x ! i"
proof -
  have "drop i x = x ! i # drop (Suc i) x" using assms by (rule Cons_nth_drop_Suc[symmetric])
  then show ?thesis by (simp add: window_extremum_def)
qed

lemma window_split:
  assumes "i + L1 + L2 \<le> length x" "1 \<le> L1" "1 \<le> L2"
  shows "window_extremum maximum x i (L1 + L2)
         = pick maximum (window_extremum maximum x i L1) (window_extremum maximum x (i + L1) L2)"
proof -
  let ?A = "set (take L1 (drop i x))"
  let ?B = "set (take L2 (drop (i + L1) x))"
  have t: "take (L1 + L2) (drop i x) = take L1 (drop i x) @ take L2 (drop (i + L1) x)"
    by (simp add: take_add add.commute)
  have ne: "?A \<noteq> {}" "?B \<noteq> {}" using assms by auto
  have "Max (?A \<union> ?B) = max (Max ?A) (Max ?B)" by (rule Max_Un) (use ne in auto)
  moreover have "Min (?A \<union> ?B) = min (Min ?A) (Min ?B)" by (rule Min_Un) (use ne in auto)
  ultimately show ?thesis by (simp add: window_extremum_def t pick_max_min)
qed

lemma sub2_mod2: "i + 2 \<le> j \<Longrightarrow> (j - (i + 2)) mod 2 = (j - i) mod (2::nat)"
proof -
  assume a: "i + 2 \<le> j"
  then have "j - i = (j - (i + 2)) + 2" by linarith
  then show ?thesis by (metis mod_add_self2)
qed

lemma even_gap: "i \<le> j \<Longrightarrow> (j - i) mod 2 = 0 \<Longrightarrow> j \<noteq> i \<Longrightarrow> i + 2 \<le> (j::nat)"
proof -
  assume a: "i \<le> j" "(j - i) mod 2 = 0" "j \<noteq> i"
  have "j - i \<noteq> 1" using a(2) by auto
  with a show ?thesis by linarith
qed

lemma compose_each_loop_result:
  assumes "n < length t"
  shows "length (compose_each_loop m t s1 s2 off i n) = length t \<and>
         (\<forall>j < length t. compose_each_loop m t s1 s2 off i n ! j
            = (if i \<le> j \<and> j \<le> n then pick m (s1 ! j) (s2 ! (off + j)) else t ! j))"
  using assms
proof (induction m t s1 s2 off i n rule: compose_each_loop.induct)
  case (1 m t s1 s2 off i n)
  show ?case
  proof (cases "i \<le> n")
    case False
    then show ?thesis by (subst (1 2) compose_each_loop.simps) auto
  next
    case True
    let ?t = "t[i := pick m (s1 ! i) (s2 ! (off + i))]"
    have l: "n < length ?t" using "1.prems" by simp
    note IH = "1.IH"[OF True l]
    have e: "compose_each_loop m t s1 s2 off i n = compose_each_loop m ?t s1 s2 off (i + 1) n"
      using True by (subst compose_each_loop.simps) simp
    show ?thesis unfolding e
    proof (intro conjI allI impI)
      show "length (compose_each_loop m ?t s1 s2 off (i + 1) n) = length t" using IH by simp
    next
      fix j assume j: "j < length t"
      then have "compose_each_loop m ?t s1 s2 off (i + 1) n ! j
         = (if i + 1 \<le> j \<and> j \<le> n then pick m (s1 ! j) (s2 ! (off + j)) else ?t ! j)"
        using IH by simp
      then show "compose_each_loop m ?t s1 s2 off (i + 1) n ! j
         = (if i \<le> j \<and> j \<le> n then pick m (s1 ! j) (s2 ! (off + j)) else t ! j)"
        using True j by (cases "j = i") auto
    qed
  qed
qed

lemma compose_even_loop_result:
  assumes "n < length t"
  shows "length (compose_even_loop m t s1 s2 off i n) = length t \<and>
         (\<forall>j < length t. compose_even_loop m t s1 s2 off i n ! j
            = (if i \<le> j \<and> j \<le> n \<and> (j - i) mod 2 = 0 then pick m (s1 ! j) (s2 ! (off + j)) else t ! j))"
  using assms
proof (induction m t s1 s2 off i n rule: compose_even_loop.induct)
  case (1 m t s1 s2 off i n)
  show ?case
  proof (cases "i \<le> n")
    case False
    then show ?thesis by (subst (1 2) compose_even_loop.simps) auto
  next
    case True
    let ?t = "t[i := pick m (s1 ! i) (s2 ! (off + i))]"
    have l: "n < length ?t" using "1.prems" by simp
    note IH = "1.IH"[OF True l]
    have e: "compose_even_loop m t s1 s2 off i n = compose_even_loop m ?t s1 s2 off (i + 2) n"
      using True by (subst compose_even_loop.simps) simp
    note p = sub2_mod2[of i] and q = even_gap[of i]
    show ?thesis unfolding e
    proof (intro conjI allI impI)
      show "length (compose_even_loop m ?t s1 s2 off (i + 2) n) = length t" using IH by simp
    next
      fix j assume j: "j < length t"
      then have r: "compose_even_loop m ?t s1 s2 off (i + 2) n ! j
         = (if i + 2 \<le> j \<and> j \<le> n \<and> (j - (i + 2)) mod 2 = 0 then pick m (s1 ! j) (s2 ! (off + j)) else ?t ! j)"
        using IH by simp
      show "compose_even_loop m ?t s1 s2 off (i + 2) n ! j
         = (if i \<le> j \<and> j \<le> n \<and> (j - i) mod 2 = 0 then pick m (s1 ! j) (s2 ! (off + j)) else t ! j)"
      proof (cases "j = i")
        case True
        then show ?thesis using r j \<open>i \<le> n\<close> by simp
      next
        case False
        show ?thesis
        proof (cases "i + 2 \<le> j")
          case True
          then show ?thesis using r False p[OF True] by simp
        next
          case f: False
          then have "\<not> (i \<le> j \<and> (j - i) mod 2 = 0)" using q[of j] False by auto
          then show ?thesis using r f False by auto
        qed
      qed
    qed
  qed
qed

lemma compose_two_loop_result:
  assumes "n < length t"
  shows "length (compose_two_loop m t one i n) = length t \<and>
         (\<forall>j < length t. compose_two_loop m t one i n ! j
            = (if i \<le> j \<and> j \<le> n \<and> (j - i) mod 2 = 0 then pick m (one ! j) (one ! (j + 1)) else t ! j))"
  using assms
proof (induction m t one i n rule: compose_two_loop.induct)
  case (1 m t one i n)
  show ?case
  proof (cases "i \<le> n")
    case False
    then show ?thesis by (subst (1 2) compose_two_loop.simps) auto
  next
    case True
    let ?t = "t[i := pick m (one ! i) (one ! (i + 1))]"
    have l: "n < length ?t" using "1.prems" by simp
    note IH = "1.IH"[OF True l]
    have e: "compose_two_loop m t one i n = compose_two_loop m ?t one (i + 2) n"
      using True by (subst compose_two_loop.simps) simp
    note p = sub2_mod2[of i] and q = even_gap[of i]
    show ?thesis unfolding e
    proof (intro conjI allI impI)
      show "length (compose_two_loop m ?t one (i + 2) n) = length t" using IH by simp
    next
      fix j assume j: "j < length t"
      then have r: "compose_two_loop m ?t one (i + 2) n ! j
         = (if i + 2 \<le> j \<and> j \<le> n \<and> (j - (i + 2)) mod 2 = 0 then pick m (one ! j) (one ! (j + 1)) else ?t ! j)"
        using IH by simp
      show "compose_two_loop m ?t one (i + 2) n ! j
         = (if i \<le> j \<and> j \<le> n \<and> (j - i) mod 2 = 0 then pick m (one ! j) (one ! (j + 1)) else t ! j)"
      proof (cases "j = i")
        case True
        then show ?thesis using r j \<open>i \<le> n\<close> by simp
      next
        case False
        show ?thesis
        proof (cases "i + 2 \<le> j")
          case True
          then show ?thesis using r False p[OF True] by simp
        next
          case f: False
          then have "\<not> (i \<le> j \<and> (j - i) mod 2 = 0)" using q[of j] False by auto
          then show ?thesis using r f False by auto
        qed
      qed
    qed
  qed
qed

lemma compose_even_odd_loop_result:
  assumes "n < length t"
  shows "\<exists>t' i'. compose_even_odd_loop m t Ev Od i (i + a) (i + b) (i + c) (i + d) n
             = (t', i', i' + a, i' + b, i' + c, i' + d) \<and>
           length t' = length t \<and> i \<le> i' \<and> (i' - i) mod 2 = 0 \<and> \<not> i' + 1 \<le> n \<and>
           (i \<le> n + 1 \<longrightarrow> i' \<le> n + 1) \<and>
           (\<forall>j < length t. t' ! j =
              (if i \<le> j \<and> j < i' then
                 (if (j - i) mod 2 = 0 then pick m (Ev ! (j + a)) (Od ! (j + b))
                  else pick m (Ev ! (j - 1 + c)) (Od ! (j - 1 + d)))
               else t ! j))"
  using assms
proof (induction "n + 1 - i" arbitrary: i t rule: less_induct)
  case less
  show ?case
  proof (cases "i + 1 \<le> n")
    case False
    then have "compose_even_odd_loop m t Ev Od i (i + a) (i + b) (i + c) (i + d) n
       = (t, i, i + a, i + b, i + c, i + d)"
      by (subst compose_even_odd_loop.simps) simp
    then show ?thesis using False by auto
  next
    case True
    let ?t = "t[i := pick m (Ev ! (i + a)) (Od ! (i + b)),
                i + 1 := pick m (Ev ! (i + c)) (Od ! (i + d))]"
    have e: "compose_even_odd_loop m t Ev Od i (i + a) (i + b) (i + c) (i + d) n
       = compose_even_odd_loop m ?t Ev Od (i + 2) (i + 2 + a) (i + 2 + b) (i + 2 + c) (i + 2 + d) n"
      using True by (subst compose_even_odd_loop.simps) (simp add: add.commute add.left_commute)
    have l: "n < length ?t" using less.prems by simp
    have ms: "n + 1 - (i + 2) < n + 1 - i" using True by linarith
    from less.hyps[OF ms l] obtain t' i' where r:
      "compose_even_odd_loop m ?t Ev Od (i + 2) (i + 2 + a) (i + 2 + b) (i + 2 + c) (i + 2 + d) n
             = (t', i', i' + a, i' + b, i' + c, i' + d)"
      "length t' = length ?t" "i + 2 \<le> i'" "(i' - (i + 2)) mod 2 = 0" "\<not> i' + 1 \<le> n"
      "i + 2 \<le> n + 1 \<longrightarrow> i' \<le> n + 1"
      "\<forall>j < length ?t. t' ! j =
              (if i + 2 \<le> j \<and> j < i' then
                 (if (j - (i + 2)) mod 2 = 0 then pick m (Ev ! (j + a)) (Od ! (j + b))
                  else pick m (Ev ! (j - 1 + c)) (Od ! (j - 1 + d)))
               else ?t ! j)"
      by (elim exE conjE) (rule that; assumption)
    have m2: "(i' - i) mod 2 = 0" using r(3,4) sub2_mod2[of i i'] by simp
    have vals: "t' ! j =
              (if i \<le> j \<and> j < i' then
                 (if (j - i) mod 2 = 0 then pick m (Ev ! (j + a)) (Od ! (j + b))
                  else pick m (Ev ! (j - 1 + c)) (Od ! (j - 1 + d)))
               else t ! j)" if j: "j < length t" for j
    proof -
      from r(7) j have rj: "t' ! j =
              (if i + 2 \<le> j \<and> j < i' then
                 (if (j - (i + 2)) mod 2 = 0 then pick m (Ev ! (j + a)) (Od ! (j + b))
                  else pick m (Ev ! (j - 1 + c)) (Od ! (j - 1 + d)))
               else ?t ! j)" by simp
      consider "j < i" | "j = i" | "j = i + 1" | "i + 2 \<le> j" by linarith
      then show ?thesis
      proof cases
        case 1 then show ?thesis using rj by simp
      next
        case 2 then show ?thesis using rj r(3) j by simp
      next
        case 3 then show ?thesis using rj r(3) j by simp
      next
        case 4 then show ?thesis using rj sub2_mod2[OF 4] by simp
      qed
    qed
    show ?thesis
      unfolding e using r(1,2,3,5,6) m2 vals True by auto
  qed
qed

lemma compose_row_data_even_odd_result:
  assumes "length t = rowlen" "evenlen + oddlen \<le> rowlen" "evenlen mod 2 = 0" "1 \<le> oddlen"
  shows "\<exists>t'. compose_row_data_even_odd m (Some t) (Some Ev) evenlen (Some Od) oddlen rowlen = Some t' \<and>
           length t' = rowlen \<and>
           (\<forall>j. j + (evenlen + oddlen) \<le> rowlen \<longrightarrow> t' ! j =
              (if j mod 2 = 0 then pick m (Ev ! j) (Od ! (evenlen + j))
               else pick m (Ev ! (oddlen + j)) (Od ! j)))"
proof -
  define n where "n = rowlen - (evenlen + oddlen)"
  show ?thesis
  proof -
    have nl: "n < length t" using assms unfolding n_def by linarith
    from compose_even_odd_loop_result[OF nl, of m Ev Od 0 0 evenlen "oddlen + 1" 1]
    obtain t1 i1 where r:
      "compose_even_odd_loop m t Ev Od 0 0 evenlen (oddlen + 1) 1 n
         = (t1, i1, i1, i1 + evenlen, i1 + (oddlen + 1), i1 + 1)"
      "length t1 = length t" "i1 mod 2 = 0" "\<not> i1 + 1 \<le> n" "i1 \<le> n + 1"
      "\<forall>j < length t. t1 ! j =
              (if j < i1 then
                 (if j mod 2 = 0 then pick m (Ev ! j) (Od ! (j + evenlen))
                  else pick m (Ev ! (j - 1 + (oddlen + 1))) (Od ! (j - 1 + 1)))
               else t ! j)"
      by auto
    define t2 where "t2 = (if i1 \<le> n then t1[i1 := pick m (Ev ! i1) (Od ! (i1 + evenlen))] else t1)"
    have res: "compose_row_data_even_odd m (Some t) (Some Ev) evenlen (Some Od) oddlen rowlen = Some t2"
      using assms r(1,4)
      by (simp add: compose_row_data_even_odd_def Let_def n_def[symmetric] t2_def)
    have "t2 ! j = (if j mod 2 = 0 then pick m (Ev ! j) (Od ! (evenlen + j))
               else pick m (Ev ! (oddlen + j)) (Od ! j))" if j: "j + (evenlen + oddlen) \<le> rowlen" for j
    proof -
      have jn: "j \<le> n" "j < length t" using j nl unfolding n_def by linarith+
      show ?thesis
      proof (cases "j < i1")
        case True
        then have "t2 ! j = t1 ! j" by (simp add: t2_def)
        moreover have "j mod 2 \<noteq> 0 \<Longrightarrow> j - 1 + (oddlen + 1) = oddlen + j \<and> j - 1 + 1 = j"
          by (cases j) auto
        ultimately show ?thesis using r(6) jn True by (auto simp: add.commute)
      next
        case False
        then have "j = i1" using jn r(4) by linarith
        then show ?thesis using jn r(2,3) by (simp add: t2_def add.commute)
      qed
    qed
    then show ?thesis using res r(2) assms(1) by (auto simp: t2_def)
  qed
qed

lemma compose_row_data_even_odd_total:
  assumes "length t = rowlen" "evenlen mod 2 = 0" "1 \<le> oddlen"
  shows "\<exists>t'. compose_row_data_even_odd m (Some t) (Some Ev) evenlen (Some Od) oddlen rowlen = Some t' \<and>
           length t' = rowlen \<and>
           (\<forall>j. j + (evenlen + oddlen) \<le> rowlen \<longrightarrow> t' ! j =
              (if j mod 2 = 0 then pick m (Ev ! j) (Od ! (evenlen + j))
               else pick m (Ev ! (oddlen + j)) (Od ! j)))"
proof (cases "evenlen + oddlen \<le> rowlen")
  case True
  from compose_row_data_even_odd_result[OF assms(1) True assms(2,3)] show ?thesis .
next
  case False
  then show ?thesis using assms by (simp add: compose_row_data_even_odd_def)
qed

lemma compose_row_data_each_total:
  assumes "length t = rowlen" "1 \<le> l1"
  shows "\<exists>t'. compose_row_data_each m (Some t) (Some s1) l1 (Some s2) l2 rowlen = Some t' \<and>
           length t' = rowlen \<and>
           (\<forall>j. j + (l1 + l2) \<le> rowlen \<longrightarrow> t' ! j = pick m (s1 ! j) (s2 ! (l1 + j)))"
proof (cases "l1 + l2 \<le> rowlen")
  case False
  then show ?thesis using assms by (simp add: compose_row_data_each_def)
next
  case True
  define n where "n = rowlen - (l1 + l2)"
  have nl: "n < length t" using assms True unfolding n_def by linarith
  from compose_each_loop_result[OF nl, of m s1 s2 l1 0]
  have r: "length (compose_each_loop m t s1 s2 l1 0 n) = length t"
    "\<And>j. j < length t \<Longrightarrow> compose_each_loop m t s1 s2 l1 0 n ! j
            = (if j \<le> n then pick m (s1 ! j) (s2 ! (l1 + j)) else t ! j)" by auto
  have "compose_row_data_each m (Some t) (Some s1) l1 (Some s2) l2 rowlen
        = Some (compose_each_loop m t s1 s2 l1 0 n)"
    using True by (simp add: compose_row_data_each_def n_def)
  moreover have "\<And>j. j + (l1 + l2) \<le> rowlen \<Longrightarrow> j \<le> n \<and> j < length t"
    using nl unfolding n_def by linarith
  ultimately show ?thesis using r assms(1) by auto
qed

lemma compose_row_data_even_total:
  assumes "length t = rowlen" "1 \<le> l1" "l1 mod 2 = 0" "l2 mod 2 = 0"
  shows "\<exists>t'. compose_row_data_even m (Some t) (Some s1) l1 (Some s2) l2 rowlen = Some t' \<and>
           length t' = rowlen \<and>
           (\<forall>j. j mod 2 = 0 \<and> j + (l1 + l2) \<le> rowlen \<longrightarrow> t' ! j = pick m (s1 ! j) (s2 ! (l1 + j)))"
proof (cases "l1 + l2 \<le> rowlen")
  case False
  then show ?thesis using assms by (simp add: compose_row_data_even_def)
next
  case True
  define n where "n = rowlen - (l1 + l2)"
  have nl: "n < length t" using assms True unfolding n_def by linarith
  from compose_even_loop_result[OF nl, of m s1 s2 l1 0]
  have r: "length (compose_even_loop m t s1 s2 l1 0 n) = length t"
    "\<And>j. j < length t \<Longrightarrow> compose_even_loop m t s1 s2 l1 0 n ! j
            = (if j \<le> n \<and> j mod 2 = 0 then pick m (s1 ! j) (s2 ! (l1 + j)) else t ! j)" by auto
  have "compose_row_data_even m (Some t) (Some s1) l1 (Some s2) l2 rowlen
        = Some (compose_even_loop m t s1 s2 l1 0 n)"
    using True assms by (simp add: compose_row_data_even_def n_def)
  moreover have "\<And>j. j + (l1 + l2) \<le> rowlen \<Longrightarrow> j \<le> n \<and> j < length t"
    using nl unfolding n_def by linarith
  ultimately show ?thesis using r assms(1) by auto
qed

lemma compose_row_data_two_total:
  assumes "length t = rowlen"
  shows "\<exists>t'. compose_row_data_two m (Some t) (Some one) rowlen = Some t' \<and>
           length t' = rowlen \<and>
           (\<forall>j. j mod 2 = 0 \<and> j + 2 \<le> rowlen \<longrightarrow> t' ! j = pick m (one ! j) (one ! (j + 1)))"
proof (cases "2 \<le> rowlen")
  case False
  then show ?thesis using assms by (simp add: compose_row_data_two_def)
next
  case True
  define n where "n = rowlen - 2"
  have nl: "n < length t" using assms True unfolding n_def by linarith
  from compose_two_loop_result[OF nl, of m one 0]
  have r: "length (compose_two_loop m t one 0 n) = length t"
    "\<And>j. j < length t \<Longrightarrow> compose_two_loop m t one 0 n ! j
            = (if j \<le> n \<and> j mod 2 = 0 then pick m (one ! j) (one ! (j + 1)) else t ! j)" by auto
  have "compose_row_data_two m (Some t) (Some one) rowlen = Some (compose_two_loop m t one 0 n)"
    using True assms by (simp add: compose_row_data_two_def n_def)
  moreover have "\<And>j. j + 2 \<le> rowlen \<Longrightarrow> j \<le> n \<and> j < length t"
    using nl unfolding n_def by linarith
  ultimately show ?thesis using r assms(1) by auto
qed

lemma plan_ok_each:
  assumes "plan_ok req" "L \<le> maxlen_each req" "each_needed req L"
  shows "wf_each req L"
  using assms by (auto simp: plan_ok_def wf_below_def less_Suc_eq_le)

lemma plan_ok_even:
  assumes "plan_ok req" "L \<le> maxlen_each req" "even_needed req L"
  shows "wf_even req L" "L \<le> maxlen_even req"
  using assms by (auto simp: plan_ok_def wf_below_def less_Suc_eq_le)

lemma buffer_at_in: "n < length bufs \<Longrightarrow> buffer_at bufs n = Inr (bufs ! n)"
  by (simp add: buffer_at_def)

lemma fill_inv_update_each:
  assumes inv: "fill_inv m req rowlen x prow blen kv"
    and b: "blen \<le> maxlen_each req" "1 \<le> blen"
    and new: "length t' = rowlen" "\<forall>i. i + blen \<le> rowlen \<longrightarrow> t' ! i = window_extremum m x i blen"
  shows "fill_inv m req rowlen x (prow\<lparr>row_each := (row_each prow)[blen := Some t']\<rparr>) (blen + 1) kv"
proof -
  let ?p = "prow\<lparr>row_each := (row_each prow)[blen := Some t']\<rparr>"
  have sh: "prow_shape req rowlen prow" using inv by (simp add: fill_inv_def)
  have len: "blen < length (row_each prow)" using sh b by (simp add: prow_shape_def)
  have sh': "prow_shape req rowlen ?p"
    using sh new(1) len by (auto simp: prow_shape_def nth_list_update)
  have e: "each_buf_ok m rowlen x ?p L"
    if "1 \<le> L" "L < blen + 1" "L \<le> maxlen_each req" "each_needed req L" for L
  proof (cases "L = blen")
    case True
    then show ?thesis using new len by (simp add: each_buf_ok_def)
  next
    case False
    then have "each_buf_ok m rowlen x prow L" using inv that by (simp add: fill_inv_def)
    then show ?thesis using False by (simp add: each_buf_ok_def)
  qed
  have v: "even_buf_ok m rowlen x ?p L"
    if "L < kv" "L \<le> maxlen_even req" "even_needed req L" for L
    using inv that by (simp add: fill_inv_def even_buf_ok_def)
  show ?thesis unfolding fill_inv_def using sh' e v by blast
qed

lemma fill_inv_update_even:
  assumes inv: "fill_inv m req rowlen x prow ke blen"
    and b: "blen \<le> maxlen_even req" "1 \<le> blen"
    and new: "length t' = rowlen"
      "\<forall>i. i mod 2 = 0 \<and> i + blen \<le> rowlen \<longrightarrow> t' ! i = window_extremum m x i blen"
  shows "fill_inv m req rowlen x (prow\<lparr>row_even := (row_even prow)[blen := Some t']\<rparr>) ke (blen + 1)"
proof -
  let ?p = "prow\<lparr>row_even := (row_even prow)[blen := Some t']\<rparr>"
  have sh: "prow_shape req rowlen prow" using inv by (simp add: fill_inv_def)
  have len: "blen < length (row_even prow)" using sh b by (simp add: prow_shape_def)
  have sh': "prow_shape req rowlen ?p"
    using sh new(1) len by (auto simp: prow_shape_def nth_list_update)
  have v: "even_buf_ok m rowlen x ?p L"
    if "L < blen + 1" "L \<le> maxlen_even req" "even_needed req L" for L
  proof (cases "L = blen")
    case True
    then show ?thesis using new len by (simp add: even_buf_ok_def)
  next
    case False
    then have "even_buf_ok m rowlen x prow L" using inv that by (simp add: fill_inv_def)
    then show ?thesis using False by (simp add: even_buf_ok_def)
  qed
  have e: "each_buf_ok m rowlen x ?p L"
    if "1 \<le> L" "L < ke" "L \<le> maxlen_each req" "each_needed req L" for L
    using inv that by (simp add: fill_inv_def each_buf_ok_def)
  show ?thesis unfolding fill_inv_def using sh' e v by blast
qed

lemma fill_each_step_ok:
  assumes ok: "plan_ok req" and inv: "fill_inv m req rowlen x prow blen blen"
    and b: "2 \<le> blen" "blen \<le> maxlen_each req" and x: "rowlen \<le> length x"
  shows "\<exists>prow'. fill_each_step m req prow rowlen blen = Inr prow' \<and>
           fill_inv m req rowlen x prow' (blen + 1) blen"
proof (cases "each_needed req blen")
  case False
  then have "fill_each_step m req prow rowlen blen = Inr prow"
    by (simp add: fill_each_step_def each_needed_def)
  moreover have "fill_inv m req rowlen x prow (blen + 1) blen"
    using inv False unfolding fill_inv_def by (auto simp: less_Suc_eq)
  ultimately show ?thesis by blast
next
  case True
  define p where "p = req_each req ! blen"
  define l1 where "l1 = sublen1 p"
  define l2 where "l2 = sublen2 p"
  have np: "needed p" using True by (simp add: p_def each_needed_def)
  from plan_ok_each[OF ok b(2) True] b(1)
  have w: "\<not> even_even p" "l1 + l2 = blen" "1 \<le> l1" "1 \<le> l2" "each_needed req l2"
    "if even_odd p then l1 mod 2 = 0 \<and> l2 mod 2 = 1 \<and> even_needed req l1 else each_needed req l1"
    unfolding wf_each_def p_def l1_def l2_def by (simp_all add: Let_def)
  have lt: "l1 < blen" "l2 < blen" "l1 \<le> maxlen_each req" "l2 \<le> maxlen_each req"
    using w b by linarith+
  have sh: "prow_shape req rowlen prow" using inv by (simp add: fill_inv_def)
  have le: "length (row_each prow) = maxlen_each req + 1" using sh by (simp add: prow_shape_def)
  from sh True b obtain t where t: "row_each prow ! blen = Some t" "length t = rowlen"
    by (auto simp: prow_shape_def)
  have i2: "each_buf_ok m rowlen x prow l2" using inv w lt by (simp add: fill_inv_def)
  then obtain o2 where o2: "row_each prow ! l2 = Some o2" "length o2 = rowlen"
    "\<And>i. i + l2 \<le> rowlen \<Longrightarrow> o2 ! i = window_extremum m x i l2"
    by (auto simp: each_buf_ok_def)
  have bt: "buffer_at (row_each prow) blen = Inr (Some t)"
    "buffer_at (row_each prow) l2 = Inr (Some o2)"
    using le b lt t o2 by (simp_all add: buffer_at_in)
  show ?thesis
  proof (cases "even_odd p")
    case eo: True
    with w have par: "l1 mod 2 = 0" "l2 mod 2 = 1" "even_needed req l1" by simp_all
    from plan_ok_even[OF ok lt(3) par(3)] have me: "l1 \<le> maxlen_even req" by simp
    have "0 < maxlen_even req" using me w(3) by linarith
    then have lv: "length (row_even prow) = maxlen_even req + 1" using sh by (simp add: prow_shape_def)
    have "even_buf_ok m rowlen x prow l1" using inv par(3) lt me by (simp add: fill_inv_def)
    then obtain e1 where e1: "row_even prow ! l1 = Some e1" "length e1 = rowlen"
      "\<And>i. i mod 2 = 0 \<Longrightarrow> i + l1 \<le> rowlen \<Longrightarrow> e1 ! i = window_extremum m x i l1"
      by (auto simp: even_buf_ok_def)
    have be: "buffer_at (row_even prow) l1 = Inr (Some e1)"
      using lv me e1 by (simp add: buffer_at_in)
    from compose_row_data_even_odd_total[OF t(2) par(1) w(4), of m e1 o2]
    obtain t' where t': "compose_row_data_even_odd m (Some t) (Some e1) l1 (Some o2) l2 rowlen = Some t'"
      "length t' = rowlen"
      "\<And>j. j + (l1 + l2) \<le> rowlen \<Longrightarrow> t' ! j =
              (if j mod 2 = 0 then pick m (e1 ! j) (o2 ! (l1 + j))
               else pick m (e1 ! (l2 + j)) (o2 ! j))" by blast
    have eq: "fill_each_step m req prow rowlen blen
        = Inr (prow\<lparr>row_each := (row_each prow)[blen := Some t']\<rparr>)"
      using np w(1) eo bt be t'(1)
      by (simp add: fill_each_step_def Let_def p_def[symmetric] l1_def[symmetric] l2_def[symmetric])
    have val: "t' ! i = window_extremum m x i blen" if i: "i + blen \<le> rowlen" for i
    proof (cases "i mod 2 = 0")
      case True
      have "t' ! i = pick m (e1 ! i) (o2 ! (l1 + i))" using t'(3)[of i] i w(2) True by simp
      also have "e1 ! i = window_extremum m x i l1" using e1(3)[OF True] i w(2) by simp
      also have "o2 ! (l1 + i) = window_extremum m x (i + l1) l2"
        using o2(3)[of "l1 + i"] i w(2) by (simp add: add.commute add.left_commute)
      also have "pick m (window_extremum m x i l1) (window_extremum m x (i + l1) l2)
          = window_extremum m x i (l1 + l2)"
        by (rule window_split[symmetric]) (use i w x in linarith)+
      finally show ?thesis using w(2) by simp
    next
      case False
      then have ev: "(l2 + i) mod 2 = 0" using par(2) by presburger
      have "t' ! i = pick m (e1 ! (l2 + i)) (o2 ! i)" using t'(3)[of i] i w(2) False by simp
      also have "e1 ! (l2 + i) = window_extremum m x (i + l2) l1"
        using e1(3)[OF ev] i w(2) by (simp add: add.commute add.left_commute)
      also have "o2 ! i = window_extremum m x i l2" using o2(3)[of i] i w(2) by simp
      also have "pick m (window_extremum m x (i + l2) l1) (window_extremum m x i l2)
          = pick m (window_extremum m x i l2) (window_extremum m x (i + l2) l1)"
        by (rule pick_commute)
      also have "\<dots> = window_extremum m x i (l2 + l1)"
        by (rule window_split[symmetric]) (use i w x in linarith)+
      finally show ?thesis using w(2) by (simp add: add.commute)
    qed
    have "fill_inv m req rowlen x (prow\<lparr>row_each := (row_each prow)[blen := Some t']\<rparr>) (blen + 1) blen"
      by (rule fill_inv_update_each[OF inv b(2) _ t'(2)]) (use val b in auto)
    then show ?thesis using eq by blast
  next
    case eo: False
    with w have n1: "each_needed req l1" by simp
    have "each_buf_ok m rowlen x prow l1" using inv n1 lt w by (simp add: fill_inv_def)
    then obtain o1 where o1: "row_each prow ! l1 = Some o1" "length o1 = rowlen"
      "\<And>i. i + l1 \<le> rowlen \<Longrightarrow> o1 ! i = window_extremum m x i l1"
      by (auto simp: each_buf_ok_def)
    have b1: "buffer_at (row_each prow) l1 = Inr (Some o1)"
      using le lt o1 by (simp add: buffer_at_in)
    from compose_row_data_each_total[OF t(2) w(3), of m o1 o2 l2]
    obtain t' where t': "compose_row_data_each m (Some t) (Some o1) l1 (Some o2) l2 rowlen = Some t'"
      "length t' = rowlen"
      "\<And>j. j + (l1 + l2) \<le> rowlen \<Longrightarrow> t' ! j = pick m (o1 ! j) (o2 ! (l1 + j))" by blast
    have eq: "fill_each_step m req prow rowlen blen
        = Inr (prow\<lparr>row_each := (row_each prow)[blen := Some t']\<rparr>)"
      using np w(1) eo bt b1 t'(1)
      by (simp add: fill_each_step_def Let_def p_def[symmetric] l1_def[symmetric] l2_def[symmetric])
    have val: "t' ! i = window_extremum m x i blen" if i: "i + blen \<le> rowlen" for i
    proof -
      have "t' ! i = pick m (o1 ! i) (o2 ! (l1 + i))" using t'(3)[of i] i w(2) by simp
      also have "o1 ! i = window_extremum m x i l1" using o1(3)[of i] i w(2) by simp
      also have "o2 ! (l1 + i) = window_extremum m x (i + l1) l2"
        using o2(3)[of "l1 + i"] i w(2) by (simp add: add.commute add.left_commute)
      also have "pick m (window_extremum m x i l1) (window_extremum m x (i + l1) l2)
          = window_extremum m x i (l1 + l2)"
        by (rule window_split[symmetric]) (use i w x in linarith)+
      finally show ?thesis using w(2) by simp
    qed
    have "fill_inv m req rowlen x (prow\<lparr>row_each := (row_each prow)[blen := Some t']\<rparr>) (blen + 1) blen"
      by (rule fill_inv_update_each[OF inv b(2) _ t'(2)]) (use val b in auto)
    then show ?thesis using eq by blast
  qed
qed

lemma fill_even_step_ok:
  assumes ok: "plan_ok req" and inv: "fill_inv m req rowlen x prow (blen + 1) blen"
    and b: "2 \<le> blen" "blen \<le> maxlen_even req" and x: "rowlen \<le> length x"
  shows "\<exists>prow'. fill_even_step m req prow rowlen blen = Inr prow' \<and>
           fill_inv m req rowlen x prow' (blen + 1) (blen + 1)"
proof (cases "even_needed req blen")
  case False
  then have "fill_even_step m req prow rowlen blen = Inr prow"
    by (simp add: fill_even_step_def even_needed_def)
  moreover have "fill_inv m req rowlen x prow (blen + 1) (blen + 1)"
    using inv False unfolding fill_inv_def by (auto simp: less_Suc_eq)
  ultimately show ?thesis by blast
next
  case True
  have mm: "maxlen_even req \<le> maxlen_each req" using ok by (simp add: plan_ok_def)
  have be: "blen \<le> maxlen_each req" using b mm by linarith
  define p where "p = req_even req ! blen"
  define l1 where "l1 = sublen1 p"
  define l2 where "l2 = sublen2 p"
  have np: "needed p" using True by (simp add: p_def even_needed_def)
  have w: "blen mod 2 = 0" "\<not> even_odd p" "l1 + l2 = blen"
    "if blen = 2 then l1 = 1 \<and> l2 = 1 \<and> \<not> even_even p \<and> each_needed req 1
     else even_even p \<and> even_needed req l1 \<and> even_needed req l2"
    using plan_ok_even(1)[OF ok be True]
    unfolding wf_even_def p_def l1_def l2_def Let_def by (cases "blen = 2"; simp)+
  have sh: "prow_shape req rowlen prow" using inv by (simp add: fill_inv_def)
  have le: "length (row_each prow) = maxlen_each req + 1" using sh by (simp add: prow_shape_def)
  have "0 < maxlen_even req" using b by linarith
  then have lv: "length (row_even prow) = maxlen_even req + 1" using sh by (simp add: prow_shape_def)
  from sh True b obtain t where t: "row_even prow ! blen = Some t" "length t = rowlen"
    by (auto simp: prow_shape_def)
  have bt: "buffer_at (row_even prow) blen = Inr (Some t)"
    using lv b t by (simp add: buffer_at_in)
  show ?thesis
  proof (cases "blen = 2")
    case two: True
    with w have s: "l1 = 1" "l2 = 1" "\<not> even_even p" "each_needed req 1" by simp_all
    have "each_buf_ok m rowlen x prow 1" using inv s(4) be two by (simp add: fill_inv_def)
    then obtain one where one: "row_each prow ! 1 = Some one" "length one = rowlen"
      "\<And>i. i + 1 \<le> rowlen \<Longrightarrow> one ! i = window_extremum m x i 1"
      by (auto simp: each_buf_ok_def)
    have b1: "buffer_at (row_each prow) l1 = Inr (Some one)"
      using le be two one s by (simp add: buffer_at_in)
    from compose_row_data_two_total[OF t(2), of m one]
    obtain t' where t': "compose_row_data_two m (Some t) (Some one) rowlen = Some t'"
      "length t' = rowlen"
      "\<And>j. j mod 2 = 0 \<Longrightarrow> j + 2 \<le> rowlen \<Longrightarrow> t' ! j = pick m (one ! j) (one ! (j + 1))"
      by auto
    have eq: "fill_even_step m req prow rowlen blen
        = Inr (prow\<lparr>row_even := (row_even prow)[blen := Some t']\<rparr>)"
      using np w(2) s(3) bt b1 t'(1) s(1)
      unfolding fill_even_step_def Let_def p_def[symmetric] l1_def[symmetric]
      by (simp add: two)
    have val: "t' ! i = window_extremum m x i blen" if i: "i mod 2 = 0" "i + blen \<le> rowlen" for i
    proof -
      have "t' ! i = pick m (one ! i) (one ! (i + 1))" using t'(3)[OF i(1)] i(2) two by simp
      also have "one ! i = window_extremum m x i 1" using one(3)[of i] i two by simp
      also have "one ! (i + 1) = window_extremum m x (i + 1) 1" using one(3)[of "i + 1"] i two by simp
      also have "pick m (window_extremum m x i 1) (window_extremum m x (i + 1) 1)
          = window_extremum m x i (1 + 1)"
        by (rule window_split[symmetric]) (use i two x in linarith)+
      finally show ?thesis using two by (simp add: numeral_2_eq_2)
    qed
    have "fill_inv m req rowlen x (prow\<lparr>row_even := (row_even prow)[blen := Some t']\<rparr>)
            (blen + 1) (blen + 1)"
      by (rule fill_inv_update_even[OF inv b(2) _ t'(2)]) (use val b in auto)
    then show ?thesis using eq by blast
  next
    case nt: False
    with w have s: "even_even p" "even_needed req l1" "even_needed req l2" by simp_all
    have l12: "l1 \<le> maxlen_each req" "l2 \<le> maxlen_each req" using w(3) be by linarith+
    note w1 = plan_ok_even[OF ok l12(1) s(2)] and w2 = plan_ok_even[OF ok l12(2) s(3)]
    have par: "l1 mod 2 = 0" "l2 mod 2 = 0" "2 \<le> l1" "2 \<le> l2"
      using w1(1) w2(1) by (simp_all add: wf_even_def Let_def)
    have lt: "l1 < blen" "l2 < blen" using par w(3) by linarith+
    have "even_buf_ok m rowlen x prow l1" using inv s(2) lt w1(2) by (simp add: fill_inv_def)
    then obtain e1 where e1: "row_even prow ! l1 = Some e1" "length e1 = rowlen"
      "\<And>i. i mod 2 = 0 \<Longrightarrow> i + l1 \<le> rowlen \<Longrightarrow> e1 ! i = window_extremum m x i l1"
      by (auto simp: even_buf_ok_def)
    have "even_buf_ok m rowlen x prow l2" using inv s(3) lt w2(2) by (simp add: fill_inv_def)
    then obtain e2 where e2: "row_even prow ! l2 = Some e2" "length e2 = rowlen"
      "\<And>i. i mod 2 = 0 \<Longrightarrow> i + l2 \<le> rowlen \<Longrightarrow> e2 ! i = window_extremum m x i l2"
      by (auto simp: even_buf_ok_def)
    have bs: "buffer_at (row_even prow) l1 = Inr (Some e1)" "buffer_at (row_even prow) l2 = Inr (Some e2)"
      using lv w1(2) w2(2) e1 e2 by (simp_all add: buffer_at_in)
    have l1p: "1 \<le> l1" using par by linarith
    from compose_row_data_even_total[OF t(2) l1p par(1,2), of m e1 e2]
    obtain t' where t': "compose_row_data_even m (Some t) (Some e1) l1 (Some e2) l2 rowlen = Some t'"
      "length t' = rowlen"
      "\<And>j. j mod 2 = 0 \<Longrightarrow> j + (l1 + l2) \<le> rowlen \<Longrightarrow> t' ! j = pick m (e1 ! j) (e2 ! (l1 + j))"
      by auto
    have eq: "fill_even_step m req prow rowlen blen
        = Inr (prow\<lparr>row_even := (row_even prow)[blen := Some t']\<rparr>)"
      using np w(2) s(1) bt bs t'(1)
      by (simp add: fill_even_step_def Let_def p_def[symmetric] l1_def[symmetric] l2_def[symmetric])
    have val: "t' ! i = window_extremum m x i blen" if i: "i mod 2 = 0" "i + blen \<le> rowlen" for i
    proof -
      have ev: "(l1 + i) mod 2 = 0" using par(1) i(1) by presburger
      have "t' ! i = pick m (e1 ! i) (e2 ! (l1 + i))" using t'(3)[OF i(1)] i(2) w(3) by simp
      also have "e1 ! i = window_extremum m x i l1" using e1(3)[OF i(1)] i(2) w(3) by simp
      also have "e2 ! (l1 + i) = window_extremum m x (i + l1) l2"
        using e2(3)[OF ev] i(2) w(3) by (simp add: add.commute add.left_commute)
      also have "pick m (window_extremum m x i l1) (window_extremum m x (i + l1) l2)
          = window_extremum m x i (l1 + l2)"
        by (rule window_split[symmetric]) (use i w par x in linarith)+
      finally show ?thesis using w(3) by simp
    qed
    have "fill_inv m req rowlen x (prow\<lparr>row_even := (row_even prow)[blen := Some t']\<rparr>)
            (blen + 1) (blen + 1)"
      by (rule fill_inv_update_even[OF inv b(2) _ t'(2)]) (use val b in auto)
    then show ?thesis using eq by blast
  qed
qed

lemma fill_inv_even_beyond:
  "fill_inv m req rowlen x prow ke kv \<Longrightarrow> maxlen_even req < kv \<Longrightarrow> fill_inv m req rowlen x prow ke kv'"
  unfolding fill_inv_def by auto

lemma precomputed_row_fill_loop_ok:
  assumes ok: "plan_ok req" and inv: "fill_inv m req rowlen x prow blen blen"
    and b: "2 \<le> blen" and x: "rowlen \<le> length x"
  shows "\<exists>prow'. precomputed_row_fill_loop m req prow rowlen blen = Inr prow' \<and>
           fill_inv m req rowlen x prow' (maxlen_each req + 1) (maxlen_each req + 1)"
  using inv b
proof (induction "maxlen_each req + 1 - blen" arbitrary: blen prow rule: less_induct)
  case less
  show ?case
  proof (cases "blen \<le> maxlen_each req")
    case False
    then have "precomputed_row_fill_loop m req prow rowlen blen = Inr prow"
      by (subst precomputed_row_fill_loop.simps) simp
    moreover have "fill_inv m req rowlen x prow (maxlen_each req + 1) (maxlen_each req + 1)"
      using less.prems(1) False unfolding fill_inv_def by auto
    ultimately show ?thesis by blast
  next
    case True
    from fill_each_step_ok[OF ok less.prems(1) less.prems(2) True x]
    obtain p1 where p1: "fill_each_step m req prow rowlen blen = Inr p1"
      "fill_inv m req rowlen x p1 (blen + 1) blen" by blast
    have ms: "maxlen_each req + 1 - (blen + 1) < maxlen_each req + 1 - blen" using True by linarith
    have b': "2 \<le> blen + 1" using less.prems(2) by simp
    show ?thesis
    proof (cases "blen > maxlen_even req")
      case gt: True
      have i2: "fill_inv m req rowlen x p1 (blen + 1) (blen + 1)"
        using fill_inv_even_beyond[OF p1(2) gt] .
      from less.hyps[OF ms i2 b'] obtain p' where
        "precomputed_row_fill_loop m req p1 rowlen (blen + 1) = Inr p'"
        "fill_inv m req rowlen x p' (maxlen_each req + 1) (maxlen_each req + 1)" by blast
      then show ?thesis using True gt p1(1)
        by (subst precomputed_row_fill_loop.simps) simp
    next
      case ngt: False
      then have bv: "blen \<le> maxlen_even req" by simp
      from fill_even_step_ok[OF ok p1(2) less.prems(2) bv x]
      obtain p2 where p2: "fill_even_step m req p1 rowlen blen = Inr p2"
        "fill_inv m req rowlen x p2 (blen + 1) (blen + 1)" by blast
      from less.hyps[OF ms p2(2) b'] obtain p' where
        "precomputed_row_fill_loop m req p2 rowlen (blen + 1) = Inr p'"
        "fill_inv m req rowlen x p' (maxlen_each req + 1) (maxlen_each req + 1)" by blast
      then show ?thesis using True ngt p1(1) p2(1)
        by (subst precomputed_row_fill_loop.simps) simp
    qed
  qed
qed

lemma precomputed_row_fill_ok:
  assumes ok: "plan_ok req" and n1: "each_needed req 1" "1 \<le> maxlen_each req"
    and sh: "prow_shape req rowlen prow" and x: "rowlen \<le> length x"
  shows "\<exists>prow'. precomputed_row_fill m req prow x rowlen = Inr prow' \<and>
           fill_inv m req rowlen x prow' (maxlen_each req + 1) (maxlen_each req + 1)"
proof -
  have le: "length (row_each prow) = maxlen_each req + 1" using sh by (simp add: prow_shape_def)
  from sh n1 obtain b1 where b1: "row_each prow ! 1 = Some b1"
    by (auto simp: prow_shape_def)
  let ?p = "prow\<lparr>row_each := (row_each prow)[1 := Some (take rowlen x)]\<rparr>"
  have eq: "precomputed_row_fill m req prow x rowlen = precomputed_row_fill_loop m req ?p rowlen 2"
    using le n1 b1 x by (simp add: precomputed_row_fill_def buffer_at_in)
  have i0: "fill_inv m req rowlen x prow 1 2"
    unfolding fill_inv_def
  proof (intro conjI allI impI)
    show "prow_shape req rowlen prow" by (rule sh)
  next
    fix L assume "1 \<le> L \<and> L < 1 \<and> L \<le> maxlen_each req \<and> each_needed req L"
    then have False by linarith
    then show "each_buf_ok m rowlen x prow L" ..
  next
    fix L assume a: "L < 2 \<and> L \<le> maxlen_even req \<and> even_needed req L"
    have "maxlen_even req \<le> maxlen_each req" using ok by (simp add: plan_ok_def)
    with a have "wf_even req L" using plan_ok_even(1)[OF ok, of L] by simp
    with a show "even_buf_ok m rowlen x prow L" by (simp add: wf_even_def Let_def)
  qed
  have i1: "fill_inv m req rowlen x ?p (1 + 1) 2"
  proof (rule fill_inv_update_each[OF i0 n1(2)])
    show "length (take rowlen x) = rowlen" using x by simp
    show "\<forall>i. i + 1 \<le> rowlen \<longrightarrow> take rowlen x ! i = window_extremum m x i 1"
      using x by (auto simp: window_single[unfolded One_nat_def])
  qed simp
  then have i2: "fill_inv m req rowlen x ?p 2 2" by (simp add: numeral_2_eq_2)
  from precomputed_row_fill_loop_ok[OF ok i2 _ x] eq show ?thesis by simp
qed

lemma needed_one:
  assumes ok: "plan_ok req"
  shows "each_needed req L \<Longrightarrow> 1 \<le> L \<Longrightarrow> L \<le> maxlen_each req \<Longrightarrow> each_needed req 1"
proof (induction L rule: less_induct)
  case (less L)
  show ?case
  proof (cases "L = 1")
    case True
    with less.prems show ?thesis by simp
  next
    case False
    then have 2: "2 \<le> L" using less.prems by linarith
    from plan_ok_each[OF ok less.prems(3,1)] 2
    have w: "each_needed req (sublen2 (req_each req ! L))" "1 \<le> sublen2 (req_each req ! L)"
      "sublen1 (req_each req ! L) + sublen2 (req_each req ! L) = L" "1 \<le> sublen1 (req_each req ! L)"
      by (simp_all add: wf_each_def Let_def)
    have "sublen2 (req_each req ! L) < L" using w by linarith
    from less.IH[OF this w(1,2)] this less.prems(3) show ?thesis by simp
  qed
qed

lemma carve_buffers_length [simp]: "length (carve_buffers ns rowlen p st) = length ns"
  by (induction ns arbitrary: p) auto

lemma carve_buffers_nth:
  "i < length ns \<Longrightarrow>
     (ns ! i \<longrightarrow> (\<exists>buf. carve_buffers ns rowlen p st ! i = Some buf \<and> length buf = rowlen)) \<and>
     (\<not> ns ! i \<longrightarrow> carve_buffers ns rowlen p st ! i = None)"
proof (induction ns arbitrary: p i)
  case Nil then show ?case by simp
next
  case (Cons n ns)
  show ?case
  proof (cases i)
    case 0 then show ?thesis by simp
  next
    case (Suc k)
    then have "k < length ns" using Cons.prems by simp
    from Cons.IH[OF this] Suc show ?thesis by simp
  qed
qed

lemma alloc_shape:
  assumes ok: "plan_ok req"
  shows "prow_shape req rowlen (min_max_precomputed_row_alloc req rowlen storage)"
proof -
  let ?a = "min_max_precomputed_row_alloc req rowlen storage"
  let ?ef = "map (each_needed req) [1..<maxlen_each req + 1]"
  let ?vf = "map (even_needed req) [2..<maxlen_even req + 1]"
  have mm: "maxlen_even req \<le> maxlen_each req" using ok by (simp add: plan_ok_def)
  have le: "length (row_each ?a) = maxlen_each req + 1"
    by (simp add: min_max_precomputed_row_alloc_def Let_def)
  have e: "\<exists>buf. row_each ?a ! L = Some buf \<and> length buf = rowlen"
    if "L \<le> maxlen_each req" "each_needed req L" for L
  proof -
    have "1 \<le> L" using plan_ok_each[OF ok that] by (simp add: wf_each_def Let_def)
    then obtain k where k: "L = Suc k" by (cases L) auto
    have kl: "k < length ?ef" using that k by simp
    have "k < length [1..<maxlen_each req + 1]" using that k by simp
    then have "?ef ! k = each_needed req ([1..<maxlen_each req + 1] ! k)" by (rule nth_map)
    also have "[1..<maxlen_each req + 1] ! k = 1 + k" using that k by (intro nth_upt) simp
    finally have "?ef ! k" using that k by simp
    with carve_buffers_nth[OF kl, of rowlen 0 storage]
    show ?thesis by (simp add: min_max_precomputed_row_alloc_def Let_def k)
  qed
  have lv: "0 < maxlen_even req \<longrightarrow> length (row_even ?a) = maxlen_even req + 1"
    by (auto simp: min_max_precomputed_row_alloc_def Let_def)
  have v: "\<exists>buf. row_even ?a ! L = Some buf \<and> length buf = rowlen"
    if "L \<le> maxlen_even req" "even_needed req L" for L
  proof -
    have "L \<le> maxlen_each req" using that mm by linarith
    from plan_ok_even(1)[OF ok this that(2)] have "2 \<le> L" by (simp add: wf_even_def Let_def)
    then obtain k where k: "L = Suc (Suc k)" by (cases L; cases "L - 1") auto
    have kl: "k < length ?vf" using that k by simp
    have "k < length [2..<maxlen_even req + 1]" using that k by simp
    then have "?vf ! k = even_needed req ([2..<maxlen_even req + 1] ! k)" by (rule nth_map)
    also have "[2..<maxlen_even req + 1] ! k = 2 + k" using that k by (intro nth_upt) simp
    finally have "?vf ! k" using that k by simp
    moreover have "maxlen_even req \<noteq> 0" using that k by linarith
    ultimately show ?thesis
      using carve_buffers_nth[OF kl, of rowlen _ storage]
      by (simp add: min_max_precomputed_row_alloc_def Let_def k)
  qed
  show ?thesis unfolding prow_shape_def using le e lv v by blast
qed

lemma planner_plan_facts:
  assumes "find_required_lengths_for_set blocklens = Inr req"
  shows "plan_ok req" "each_needed req 1" "1 \<le> maxlen_each req"
    "\<forall>b \<in> set blocklens. 1 \<le> b \<and> b \<le> maxlen_each req \<and> each_needed req b"
proof -
  note i = find_required_lengths_for_set_Inr[OF assms]
  from find_required_lengths_for_set_ok[OF i] assms
  have ok: "plan_ok req" and n: "\<forall>b \<in> set blocklens. b \<le> maxlen_each req \<and> each_needed req b"
    by auto
  show "plan_ok req" by (rule ok)
  show a: "\<forall>b \<in> set blocklens. 1 \<le> b \<and> b \<le> maxlen_each req \<and> each_needed req b"
    using n i(2) by (auto simp: Suc_le_eq)
  from i(1) obtain b where b: "b \<in> set blocklens" by (cases blocklens) auto
  with a have bb: "1 \<le> b" "b \<le> maxlen_each req" "each_needed req b" by auto
  then show "1 \<le> maxlen_each req" by linarith
  from needed_one[OF ok bb(3,1,2)] show "each_needed req 1" .
qed

text \<open>
  Claim C1.  Let \<open>req\<close> be any plan produced by the planner
  (\<open>find_required_lengths_for_set\<close>) and let \<open>prow\<close> be a buffer set of the shape
  that the plan prescribes (as \<open>min_max_precomputed_row_alloc\<close> carves it).  Then both
  \<open>min_precomputed_row_fill\<close> and \<open>max_precomputed_row_fill\<close> return normally on an
  extended row \<open>x\<close> of \<open>rowlen\<close> samples, and afterwards, for every length \<open>L\<close> marked
  needed in the each-table and every start index \<open>i\<close> with \<open>i + L \<le> rowlen\<close>, the
  entry \<open>each[L][i]\<close> is the exact minimum (respectively maximum) of
  \<open>x[i], \<dots>, x[i+L-1]\<close>; and for every length \<open>L\<close> marked needed in the even-table and
  every even \<open>i\<close> with \<open>i + L \<le> rowlen\<close>, the entry \<open>even[L][i]\<close> is the exact
  extremum of the same window.
\<close>

theorem row_fill_exact:
  assumes "find_required_lengths_for_set blocklens = Inr req"
    "prow_shape req rowlen prow" "length x = rowlen"
  shows "\<exists>pmin pmax.
           min_precomputed_row_fill req prow x rowlen = Inr pmin \<and>
           max_precomputed_row_fill req prow x rowlen = Inr pmax \<and>
           (\<forall>L i. 1 \<le> L \<and> L \<le> maxlen_each req \<and> each_needed req L \<and> i + L \<le> rowlen \<longrightarrow>
              (\<exists>bmin bmax. row_each pmin ! L = Some bmin \<and> row_each pmax ! L = Some bmax \<and>
                 bmin ! i = Min (set (take L (drop i x))) \<and>
                 bmax ! i = Max (set (take L (drop i x))))) \<and>
           (\<forall>L i. L \<le> maxlen_even req \<and> even_needed req L \<and> i mod 2 = 0 \<and> i + L \<le> rowlen \<longrightarrow>
              (\<exists>bmin bmax. row_even pmin ! L = Some bmin \<and> row_even pmax ! L = Some bmax \<and>
                 bmin ! i = Min (set (take L (drop i x))) \<and>
                 bmax ! i = Max (set (take L (drop i x)))))"
proof -
  note f = planner_plan_facts[OF assms(1)]
  have x: "rowlen \<le> length x" using assms(3) by simp
  from precomputed_row_fill_ok[OF f(1,2,3) assms(2) x, of False]
  obtain pmin where pmin: "precomputed_row_fill False req prow x rowlen = Inr pmin"
    "fill_inv False req rowlen x pmin (maxlen_each req + 1) (maxlen_each req + 1)" by blast
  from precomputed_row_fill_ok[OF f(1,2,3) assms(2) x, of True]
  obtain pmax where pmax: "precomputed_row_fill True req prow x rowlen = Inr pmax"
    "fill_inv True req rowlen x pmax (maxlen_each req + 1) (maxlen_each req + 1)" by blast
  have mm: "maxlen_even req \<le> maxlen_each req" using f(1) by (simp add: plan_ok_def)
  have e: "\<exists>bmin bmax. row_each pmin ! L = Some bmin \<and> row_each pmax ! L = Some bmax \<and>
                 bmin ! i = Min (set (take L (drop i x))) \<and>
                 bmax ! i = Max (set (take L (drop i x)))"
    if "1 \<le> L \<and> L \<le> maxlen_each req \<and> each_needed req L \<and> i + L \<le> rowlen" for L i
  proof -
    from pmin(2) that have "each_buf_ok False rowlen x pmin L" by (simp add: fill_inv_def)
    moreover from pmax(2) that have "each_buf_ok True rowlen x pmax L" by (simp add: fill_inv_def)
    ultimately show ?thesis using that by (auto simp: each_buf_ok_def window_extremum_def)
  qed
  have v: "\<exists>bmin bmax. row_even pmin ! L = Some bmin \<and> row_even pmax ! L = Some bmax \<and>
                 bmin ! i = Min (set (take L (drop i x))) \<and>
                 bmax ! i = Max (set (take L (drop i x)))"
    if "L \<le> maxlen_even req \<and> even_needed req L \<and> i mod 2 = 0 \<and> i + L \<le> rowlen" for L i
  proof -
    from pmin(2) that mm have "even_buf_ok False rowlen x pmin L" by (simp add: fill_inv_def)
    moreover from pmax(2) that mm have "even_buf_ok True rowlen x pmax L" by (simp add: fill_inv_def)
    ultimately show ?thesis using that by (auto simp: even_buf_ok_def window_extremum_def)
  qed
  show ?thesis
    using pmin(1) pmax(1) e v
    unfolding min_precomputed_row_fill_def max_precomputed_row_fill_def by blast
qed

theorem row_fill_exact_witness:
  "find_required_lengths_for_set [3] = Inr (projr (find_required_lengths_for_set [3])) \<and>
   length [3, 1, 4, 1, 5 :: int] = 5 \<and>
   each_needed (projr (find_required_lengths_for_set [3])) 3 \<and>
   even_needed (projr (find_required_lengths_for_set [3])) 2 \<and>
   the (row_each (projr (min_precomputed_row_fill (projr (find_required_lengths_for_set [3]))
          (min_max_precomputed_row_alloc (projr (find_required_lengths_for_set [3])) 5 (\<lambda>_. 0))
          [3, 1, 4, 1, 5 :: int] 5)) ! 3) ! 2 = Min (set (take 3 (drop 2 [3, 1, 4, 1, 5]))) \<and>
   the (row_each (projr (max_precomputed_row_fill (projr (find_required_lengths_for_set [3]))
          (min_max_precomputed_row_alloc (projr (find_required_lengths_for_set [3])) 5 (\<lambda>_. 0))
          [3, 1, 4, 1, 5 :: int] 5)) ! 3) ! 2 = Max (set (take 3 (drop 2 [3, 1, 4, 1, 5]))) \<and>
   the (row_even (projr (min_precomputed_row_fill (projr (find_required_lengths_for_set [3]))
          (min_max_precomputed_row_alloc (projr (find_required_lengths_for_set [3])) 5 (\<lambda>_. 0))
          [3, 1, 4, 1, 5 :: int] 5)) ! 2) ! 2 = Min (set (take 2 (drop 2 [3, 1, 4, 1, 5]))) \<and>
   the (row_even (projr (max_precomputed_row_fill (projr (find_required_lengths_for_set [3]))
          (min_max_precomputed_row_alloc (projr (find_required_lengths_for_set [3])) 5 (\<lambda>_. 0))
          [3, 1, 4, 1, 5 :: int] 5)) ! 2) ! 2 = Max (set (take 2 (drop 2 [3, 1, 4, 1, 5])))"
proof -
  let ?r = "projr (find_required_lengths_for_set [3])"
  let ?a = "min_max_precomputed_row_alloc ?r 5 (\<lambda>_. 0 :: int)"
  let ?x = "[3, 1, 4, 1, 5 :: int]"
  have a: "find_required_lengths_for_set [3] = Inr ?r" by code_simp
  have sh: "prow_shape ?r 5 ?a" by (rule alloc_shape[OF planner_plan_facts(1)[OF a]])
  have len: "length ?x = 5" by simp
  have m: "3 \<le> maxlen_each ?r" "2 \<le> maxlen_even ?r" by code_simp+
  have n: "each_needed ?r 3" "even_needed ?r 2" by code_simp+
  from row_fill_exact[OF a sh len] obtain pmin pmax where
    p: "min_precomputed_row_fill ?r ?a ?x 5 = Inr pmin" "max_precomputed_row_fill ?r ?a ?x 5 = Inr pmax"
    and e: "\<And>L i. 1 \<le> L \<and> L \<le> maxlen_each ?r \<and> each_needed ?r L \<and> i + L \<le> 5 \<Longrightarrow>
              (\<exists>bmin bmax. row_each pmin ! L = Some bmin \<and> row_each pmax ! L = Some bmax \<and>
                 bmin ! i = Min (set (take L (drop i ?x))) \<and>
                 bmax ! i = Max (set (take L (drop i ?x))))"
    and v: "\<And>L i. L \<le> maxlen_even ?r \<and> even_needed ?r L \<and> i mod 2 = 0 \<and> i + L \<le> 5 \<Longrightarrow>
              (\<exists>bmin bmax. row_even pmin ! L = Some bmin \<and> row_even pmax ! L = Some bmax \<and>
                 bmin ! i = Min (set (take L (drop i ?x))) \<and>
                 bmax ! i = Max (set (take L (drop i ?x))))"
    by blast
  from e[of 3 2] m n p have "the (row_each pmin ! 3) ! 2 = Min (set (take 3 (drop 2 ?x)))"
    "the (row_each pmax ! 3) ! 2 = Max (set (take 3 (drop 2 ?x)))" by auto
  moreover from v[of 2 2] m n p have "the (row_even pmin ! 2) ! 2 = Min (set (take 2 (drop 2 ?x)))"
    "the (row_even pmax ! 2) ! 2 = Max (set (take 2 (drop 2 ?x)))" by auto
  ultimately show ?thesis using a n p by simp
qed

section \<open>The sweep executor\<close>

lemma window_set:
  assumes "i + L \<le> length x"
  shows "set (take L (drop i x)) = {x ! (i + t) | t. t < L}"
proof -
  have "length (take L (drop i x)) = L" using assms by simp
  then have "set (take L (drop i x)) = {take L (drop i x) ! t | t. t < L}"
    by (simp add: set_conv_nth)
  also have "\<dots> = {x ! (i + t) | t. t < L}"
  proof -
    have "\<And>t. t < L \<Longrightarrow> take L (drop i x) ! t = x ! (i + t)" using assms by simp
    then show ?thesis by metis
  qed
  finally show ?thesis .
qed

lemma window_extremum_set:
  assumes "i + L \<le> length x"
  shows "window_extremum m x i L = extremum m {x ! (i + t) | t. t < L}"
  by (simp add: window_extremum_def extremum_def window_set[OF assms])

lemma extremum_Un:
  assumes "finite A" "A \<noteq> {}" "finite B" "B \<noteq> {}"
  shows "extremum m (A \<union> B) = pick m (extremum m A) (extremum m B)"
  using assms by (simp add: extremum_def pick_max_min Max_Un Min_Un)

lemma segment_data_ready:
  assumes r: "row_ready m req rowlen x (rows ! seg_row s)"
    and l: "length rows = ky"
    and s: "seg_ok req rowlen width ky s"
  shows "\<exists>sd. segment_data rows s width = Inr sd \<and> length sd = width \<and>
           (\<forall>j < width. sd ! j = extremum m {x ! (seg_col s + j + t) | t. t < seg_len s})"
proof -
  let ?p = "rows ! seg_row s"
  let ?L = "seg_len s"
  from s have s': "seg_row s < ky" "1 \<le> ?L" "?L \<le> maxlen_each req" "each_needed req ?L"
    "seg_col s + ?L + width \<le> rowlen + 1" by (simp_all add: seg_ok_def)
  from r have lx: "length x = rowlen"
    and fi: "fill_inv m req rowlen x ?p (maxlen_each req + 1) (maxlen_each req + 1)"
    by (simp_all add: row_ready_def)
  from fi have sh: "prow_shape req rowlen ?p" and ok: "each_buf_ok m rowlen x ?p ?L"
    using s' by (simp_all add: fill_inv_def)
  from sh have le: "length (row_each ?p) = maxlen_each req + 1" by (simp add: prow_shape_def)
  from ok obtain buf where buf: "row_each ?p ! ?L = Some buf" "length buf = rowlen"
    "\<And>i. i + ?L \<le> rowlen \<Longrightarrow> buf ! i = window_extremum m x i ?L"
    by (auto simp: each_buf_ok_def)
  have cw: "seg_col s + width \<le> length buf" using s' buf(2) by linarith
  have sd: "segment_data rows s width = Inr (take width (drop (seg_col s) buf))"
    using s' l le buf(1) cw by (simp add: segment_data_def buffer_at_def)
  have "take width (drop (seg_col s) buf) ! j = extremum m {x ! (seg_col s + j + t) | t. t < ?L}"
    if "j < width" for j
  proof -
    have b: "seg_col s + j + ?L \<le> rowlen" using that s' by linarith
    have "take width (drop (seg_col s) buf) ! j = buf ! (seg_col s + j)"
      using that cw by simp
    also have "\<dots> = window_extremum m x (seg_col s + j) ?L" by (rule buf(3)[OF b])
    also have "\<dots> = extremum m {x ! (seg_col s + j + t) | t. t < ?L}"
      by (rule window_extremum_set) (use b lx in simp)
    finally show ?thesis .
  qed
  moreover have "length (take width (drop (seg_col s) buf)) = width" using cw by simp
  ultimately show ?thesis using sd by blast
qed

lemma seg_window_cells:
  "(\<lambda>(a, b). X a ! (b + j)) ` seg_cells [s] = {X (seg_row s) ! (seg_col s + j + t) | t. t < seg_len s}"
proof -
  have "seg_cells [s] = (\<lambda>t. (seg_row s, seg_col s + t)) ` {..<seg_len s}"
    by (auto simp: seg_cells_def)
  then have "(\<lambda>(a, b). X a ! (b + j)) ` seg_cells [s]
      = (\<lambda>t. X (seg_row s) ! (seg_col s + t + j)) ` {..<seg_len s}"
    by (simp add: image_image)
  also have "\<dots> = (\<lambda>t. X (seg_row s) ! (seg_col s + j + t)) ` {..<seg_len s}"
  proof -
    have e: "\<And>t. seg_col s + t + j = seg_col s + j + t" by simp
    show ?thesis by (simp only: e)
  qed
  also have "\<dots> = {X (seg_row s) ! (seg_col s + j + t) | t. t < seg_len s}"
    by blast
  finally show ?thesis .
qed

lemma seg_cells_single_finite:
  "finite (seg_cells [s])" "1 \<le> seg_len s \<Longrightarrow> seg_cells [s] \<noteq> {}"
proof -
  have "seg_cells [s] = (\<lambda>t. (seg_row s, seg_col s + t)) ` {..<seg_len s}"
    by (auto simp: seg_cells_def)
  then show "finite (seg_cells [s])" "1 \<le> seg_len s \<Longrightarrow> seg_cells [s] \<noteq> {}"
    by (auto simp: lessThan_empty_iff)
qed

lemma fold_segments_ok:
  assumes r: "\<forall>k < ky. row_ready m req rowlen (X k) (rows ! k)"
    and l: "length rows = ky"
  shows "\<forall>s \<in> set segs. seg_ok req rowlen width ky s \<Longrightarrow> length ob = width \<Longrightarrow>
         finite C \<Longrightarrow> C \<noteq> {} \<Longrightarrow>
         \<forall>j < width. ob ! j = extremum m ((\<lambda>(a, b). X a ! (b + j)) ` C) \<Longrightarrow>
         \<exists>out. fold_segments m rows width segs ob = Inr out \<and> length out = width \<and>
           (\<forall>j < width. out ! j = extremum m ((\<lambda>(a, b). X a ! (b + j)) ` (C \<union> seg_cells segs)))"
proof (induction segs arbitrary: ob C)
  case Nil
  then show ?case by simp
next
  case (Cons s segs)
  from Cons.prems(1) have so: "seg_ok req rowlen width ky s" by simp
  then have sr: "seg_row s < ky" "1 \<le> seg_len s" by (simp_all add: seg_ok_def)
  from segment_data_ready[OF r[rule_format, OF sr(1)] l so]
  obtain sd where sd: "segment_data rows s width = Inr sd" "length sd = width"
    "\<And>j. j < width \<Longrightarrow> sd ! j = extremum m {X (seg_row s) ! (seg_col s + j + t) | t. t < seg_len s}"
    by blast
  let ?ob = "map2 (\<lambda>out s. if m then (if out < s then s else out)
                          else (if out > s then s else out)) ob sd"
  let ?C = "C \<union> seg_cells [s]"
  have f: "finite ?C" "?C \<noteq> {}" using Cons.prems(3,4) seg_cells_single_finite(1) by auto
  have lo: "length ?ob = width" using sd(2) Cons.prems(2) by simp
  have v: "\<forall>j < width. ?ob ! j = extremum m ((\<lambda>(a, b). X a ! (b + j)) ` ?C)"
  proof (intro allI impI)
    fix j assume j: "j < width"
    have "?ob ! j = pick m (ob ! j) (sd ! j)"
      using j sd(2) Cons.prems(2) by (simp add: pick_def)
    also have "\<dots> = pick m (extremum m ((\<lambda>(a, b). X a ! (b + j)) ` C))
                       (extremum m ((\<lambda>(a, b). X a ! (b + j)) ` seg_cells [s]))"
      using Cons.prems(5) j sd(3)[OF j] by (simp add: seg_window_cells)
    also have "\<dots> = extremum m ((\<lambda>(a, b). X a ! (b + j)) ` C \<union> (\<lambda>(a, b). X a ! (b + j)) ` seg_cells [s])"
      by (rule extremum_Un[symmetric])
         (use Cons.prems(3,4) seg_cells_single_finite[of s] sr(2) in auto)
    finally show "?ob ! j = extremum m ((\<lambda>(a, b). X a ! (b + j)) ` ?C)"
      by (simp add: image_Un)
  qed
  from Cons.IH[OF _ lo f v] Cons.prems(1)
  obtain out where out: "fold_segments m rows width segs ?ob = Inr out" "length out = width"
    "\<forall>j < width. out ! j = extremum m ((\<lambda>(a, b). X a ! (b + j)) ` (?C \<union> seg_cells segs))"
    by auto
  have "?C \<union> seg_cells segs = C \<union> seg_cells (s # segs)"
    by (auto simp: seg_cells_Cons seg_cells_def)
  with out sd(1) show ?case by simp
qed

lemma mask_rle_execute_min_max_ok:
  assumes r: "\<forall>k < ky. row_ready m req rowlen (X k) (rows ! k)"
    and l: "length rows = ky"
    and s: "\<forall>s \<in> set segs. seg_ok req rowlen width ky s"
    and ne: "segs \<noteq> []"
  shows "\<exists>out. mask_rle_execute_min_max segs rows width m = Inr out \<and> length out = width \<and>
           (\<forall>j < width. out ! j = extremum m ((\<lambda>(a, b). X a ! (b + j)) ` seg_cells segs))"
proof -
  from ne obtain s0 rest where sg: "segs = s0 # rest" by (cases segs) auto
  from s sg have so: "seg_ok req rowlen width ky s0" by simp
  then have sr: "seg_row s0 < ky" "1 \<le> seg_len s0" by (simp_all add: seg_ok_def)
  from segment_data_ready[OF r[rule_format, OF sr(1)] l so]
  obtain sd where sd: "segment_data rows s0 width = Inr sd" "length sd = width"
    "\<And>j. j < width \<Longrightarrow> sd ! j = extremum m {X (seg_row s0) ! (seg_col s0 + j + t) | t. t < seg_len s0}"
    by blast
  have v: "\<forall>j < width. sd ! j = extremum m ((\<lambda>(a, b). X a ! (b + j)) ` seg_cells [s0])"
    using sd(3) by (simp add: seg_window_cells)
  from fold_segments_ok[OF r l _ sd(2) seg_cells_single_finite(1) seg_cells_single_finite(2)[OF sr(2)] v,
      of rest] s sg
  obtain out where out: "fold_segments m rows width rest sd = Inr out" "length out = width"
    "\<forall>j < width. out ! j = extremum m ((\<lambda>(a, b). X a ! (b + j)) ` (seg_cells [s0] \<union> seg_cells rest))"
    by auto
  have "seg_cells [s0] \<union> seg_cells rest = seg_cells segs"
    by (auto simp: sg seg_cells_Cons)
  with out sd(1) show ?thesis by (simp add: mask_rle_execute_min_max_def sg)
qed

lemma row_ready_shape: "row_ready m req rl x p \<Longrightarrow> prow_shape req rl p"
  by (simp add: row_ready_def fill_inv_def)

lemma copy_ready:
  "row_ready m req rl x src \<Longrightarrow> row_ready m req rl x (min_max_precomputed_row_copy tgt src req rl)"
  by (simp add: row_ready_def fill_inv_def prow_shape_def each_buf_ok_def even_buf_ok_def
      min_max_precomputed_row_copy_def)

lemma copy_shape:
  "prow_shape req rl src \<Longrightarrow> prow_shape req rl (min_max_precomputed_row_copy tgt src req rl)"
  by (simp add: prow_shape_def min_max_precomputed_row_copy_def)

lemma src_row_clamp:
  "clamp_index (yres F) r = clamp_index (yres F) r' \<Longrightarrow>
   src_row F ext col width r = src_row F ext col width r'"
  by (simp add: src_row_def)

lemma clamp_index_low: "r \<le> 0 \<Longrightarrow> clamp_index res r = 0"
  unfolding clamp_index_def by linarith

lemma clamp_index_high: "int res - 1 \<le> r \<Longrightarrow> clamp_index res r = res - 1"
  unfolding clamp_index_def by linarith

lemma field_row_length:
  assumes "length (data F) = xres F * yres F" "r < yres F"
  shows "length (field_row F r) = xres F"
proof -
  have "xres F * r + xres F = xres F * Suc r" by simp
  also have "\<dots> \<le> xres F * yres F" using assms(2) by (intro mult_le_mono2) simp
  finally show ?thesis using assms(1) by (simp add: field_row_def)
qed

lemma clamp_index_lt: "0 < res \<Longrightarrow> clamp_index res r < res"
  unfolding clamp_index_def by linarith

lemma src_row_length:
  assumes c: "exec_ctx F mmp ext col row width height"
  shows "length (src_row F ext col width r) = mmp_rowbuflen mmp"
proof -
  from c have y: "0 < yres F" by (auto simp: exec_ctx_def)
  have "length (field_row F (clamp_index (yres F) r)) = xres F"
    by (rule field_row_length) (use c clamp_index_lt[OF y] in \<open>auto simp: exec_ctx_def\<close>)
  from row_extend_border_length[OF this, of col width "ext_left ext" "ext_right ext"] c
  show ?thesis by (simp add: src_row_def exec_ctx_def)
qed

lemma precompute_field_row_ok:
  assumes c: "exec_ctx F mmp ext col row width height"
    and r: "r < yres F"
    and sh: "prow_shape (mmp_req mmp) (mmp_rowbuflen mmp) prow"
  shows "\<exists>p'. precompute_field_row F mmp m ext col width r prow = Inr p' \<and>
           row_ready m (mmp_req mmp) (mmp_rowbuflen mmp) (src_row F ext col width (int r)) p'"
proof -
  let ?x = "src_row F ext col width (int r)"
  have lx: "length ?x = mmp_rowbuflen mmp" by (rule src_row_length[OF c])
  have e: "row_extend_border (field_row F r) col width (xres F) (ext_left ext) (ext_right ext) = ?x"
    by (simp add: src_row_def clamp_index_inside[OF r])
  from c have p: "plan_ok (mmp_req mmp)" "each_needed (mmp_req mmp) 1" "1 \<le> maxlen_each (mmp_req mmp)"
    by (simp_all add: exec_ctx_def)
  have "mmp_rowbuflen mmp \<le> length ?x" using lx by simp
  from precomputed_row_fill_ok[OF p sh this, of m] lx
  show ?thesis by (simp add: precompute_field_row_def Let_def e row_ready_def)
qed

lemma rows_shaped_update:
  "rows_shaped mmp rows \<Longrightarrow> prow_shape (mmp_req mmp) (mmp_rowbuflen mmp) p \<Longrightarrow>
   rows_shaped mmp (rows[k := p])"
  by (cases "k < length rows") (auto simp: rows_shaped_def nth_list_update)

lemma seed_rows_down_ok:
  assumes c: "exec_ctx F mmp ext col row width height"
    and ns: "ext_up ext = 0 \<or> row + ext_down ext < yres F"
  shows "i \<le> ext_down ext + 1 \<Longrightarrow> rows_shaped mmp rows \<Longrightarrow>
     (\<forall>k. ext_up ext \<le> k \<and> k < ext_up ext + i \<longrightarrow>
        row_ready m (mmp_req mmp) (mmp_rowbuflen mmp)
          (src_row F ext col width (int row + int k - int (ext_up ext))) (rows ! k)) \<Longrightarrow>
     \<exists>rows'. seed_rows_down F mmp m ext col row width rows i = Inr rows' \<and>
        rows_shaped mmp rows' \<and>
        (\<forall>k. ext_up ext \<le> k \<and> k < mmp_kyres mmp \<longrightarrow>
           row_ready m (mmp_req mmp) (mmp_rowbuflen mmp)
             (src_row F ext col width (int row + int k - int (ext_up ext))) (rows' ! k))"
proof (induction "ext_down ext + 1 - i" arbitrary: i rows rule: less_induct)
  case less
  let ?eu = "ext_up ext" and ?ed = "ext_down ext"
  let ?S = "\<lambda>r. src_row F ext col width r"
  let ?rdy = "row_ready m (mmp_req mmp) (mmp_rowbuflen mmp)"
  from c have ky: "?eu + ?ed + 1 = mmp_kyres mmp" and rh: "row + height \<le> yres F" "0 < height"
    by (simp_all add: exec_ctx_def)
  show ?case
  proof (cases "i \<le> ?ed")
    case False
    with less.prems(1) have i: "i = ?ed + 1" by simp
    have "seed_rows_down F mmp m ext col row width rows i = Inr rows"
      using False by (subst seed_rows_down.simps) simp
    moreover have "\<forall>k. ?eu \<le> k \<and> k < mmp_kyres mmp \<longrightarrow> ?rdy (?S (int row + int k - int ?eu)) (rows ! k)"
      using less.prems(3) i ky by simp
    ultimately show ?thesis using less.prems(2) by simp
  next
    case le: True
    have kl: "i + ?eu < mmp_kyres mmp" using le ky by linarith
    show ?thesis
    proof (cases "row + i < yres F")
      case True
      from less.prems(2) kl have sh: "prow_shape (mmp_req mmp) (mmp_rowbuflen mmp) (rows ! (i + ?eu))"
        by (simp add: rows_shaped_def)
      from precompute_field_row_ok[OF c True sh, of m]
      obtain p' where p': "precompute_field_row F mmp m ext col width (row + i) (rows ! (i + ?eu)) = Inr p'"
        "?rdy (?S (int (row + i))) p'" by blast
      let ?rows = "rows[i + ?eu := p']"
      have s1: "rows_shaped mmp ?rows"
        by (rule rows_shaped_update[OF less.prems(2) row_ready_shape[OF p'(2)]])
      have s2: "\<forall>k. ?eu \<le> k \<and> k < ?eu + (i + 1) \<longrightarrow> ?rdy (?S (int row + int k - int ?eu)) (?rows ! k)"
      proof (intro allI impI)
        fix k assume k: "?eu \<le> k \<and> k < ?eu + (i + 1)"
        show "?rdy (?S (int row + int k - int ?eu)) (?rows ! k)"
        proof (cases "k = i + ?eu")
          case True
          have e: "int row + int k - int ?eu = int (row + i)" using True by simp
          have f: "?rows ! k = p'" using True kl less.prems(2) by (simp add: rows_shaped_def)
          show ?thesis unfolding e f by (rule p'(2))
        next
          case False
          with k have "?eu \<le> k \<and> k < ?eu + i" by linarith
          with less.prems(3) False show ?thesis by simp
        qed
      qed
      have "\<exists>rows'. seed_rows_down F mmp m ext col row width ?rows (i + 1) = Inr rows' \<and>
        rows_shaped mmp rows' \<and>
        (\<forall>k. ?eu \<le> k \<and> k < mmp_kyres mmp \<longrightarrow> ?rdy (?S (int row + int k - int ?eu)) (rows' ! k))"
        by (rule less.hyps[OF _ _ s1 s2]) (use le in simp_all)
      then show ?thesis using le True p'(1)
        by (subst seed_rows_down.simps) simp
    next
      case False
      with ns le have eu0: "?eu = 0" by linarith
      have i0: "0 < i"
      proof (rule ccontr)
        assume "\<not> 0 < i"
        then have "i = 0" by simp
        with False rh show False by simp
      qed
      let ?p = "min_max_precomputed_row_copy (rows ! i) (rows ! (i - 1)) (mmp_req mmp) (mmp_rowbuflen mmp)"
      let ?rows = "rows[i := ?p]"
      have r1: "?rdy (?S (int row + int (i - 1) - int ?eu)) (rows ! (i - 1))"
        by (rule less.prems(3)[rule_format]) (use i0 eu0 in simp)
      have "clamp_index (yres F) (int row + int (i - 1) - int ?eu) = clamp_index (yres F) (int row + int i)"
        using False i0 eu0 by (simp add: clamp_index_high)
      from src_row_clamp[OF this] r1
      have r2: "?rdy (?S (int row + int i)) (rows ! (i - 1))" by simp
      have rp: "?rdy (?S (int row + int i)) ?p" by (rule copy_ready[OF r2])
      have s1: "rows_shaped mmp ?rows"
        by (rule rows_shaped_update[OF less.prems(2) row_ready_shape[OF rp]])
      have s2: "\<forall>k. ?eu \<le> k \<and> k < ?eu + (i + 1) \<longrightarrow> ?rdy (?S (int row + int k - int ?eu)) (?rows ! k)"
      proof (intro allI impI)
        fix k assume k: "?eu \<le> k \<and> k < ?eu + (i + 1)"
        show "?rdy (?S (int row + int k - int ?eu)) (?rows ! k)"
        proof (cases "k = i")
          case True
          have e: "int row + int k - int ?eu = int row + int i" using True eu0 by simp
          have f: "?rows ! k = ?p" using True kl eu0 less.prems(2) by (simp add: rows_shaped_def)
          show ?thesis unfolding e f by (rule rp)
        next
          case False
          with k eu0 have "?eu \<le> k \<and> k < ?eu + i" by linarith
          with less.prems(3) False show ?thesis by simp
        qed
      qed
      have "\<exists>rows'. seed_rows_down F mmp m ext col row width ?rows (i + 1) = Inr rows' \<and>
        rows_shaped mmp rows' \<and>
        (\<forall>k. ?eu \<le> k \<and> k < mmp_kyres mmp \<longrightarrow> ?rdy (?S (int row + int k - int ?eu)) (rows' ! k))"
        by (rule less.hyps[OF _ _ s1 s2]) (use le in simp_all)
      then show ?thesis using le False
        by (subst seed_rows_down.simps) simp
    qed
  qed
qed

lemma seed_rows_up_ok:
  assumes c: "exec_ctx F mmp ext col row width height"
  shows "1 \<le> i \<Longrightarrow> i \<le> ext_up ext + 1 \<Longrightarrow> rows_shaped mmp rows \<Longrightarrow>
     (\<forall>k. ext_up ext + 1 - i \<le> k \<and> k < mmp_kyres mmp \<longrightarrow>
        row_ready m (mmp_req mmp) (mmp_rowbuflen mmp)
          (src_row F ext col width (int row + int k - int (ext_up ext))) (rows ! k)) \<Longrightarrow>
     \<exists>rows'. seed_rows_up F mmp m ext col row width rows i = Inr rows' \<and>
        rows_shaped mmp rows' \<and>
        (\<forall>k < mmp_kyres mmp.
           row_ready m (mmp_req mmp) (mmp_rowbuflen mmp)
             (src_row F ext col width (int row + int k - int (ext_up ext))) (rows' ! k))"
proof (induction "ext_up ext + 1 - i" arbitrary: i rows rule: less_induct)
  case less
  let ?eu = "ext_up ext" and ?ed = "ext_down ext"
  let ?S = "\<lambda>r. src_row F ext col width r"
  let ?rdy = "row_ready m (mmp_req mmp) (mmp_rowbuflen mmp)"
  from c have ky: "?eu + ?ed + 1 = mmp_kyres mmp" and rh: "row + height \<le> yres F" "0 < height"
    by (simp_all add: exec_ctx_def)
  show ?case
  proof (cases "i \<le> ?eu")
    case False
    with less.prems(2) have i: "i = ?eu + 1" by simp
    have "seed_rows_up F mmp m ext col row width rows i = Inr rows"
      using False by (subst seed_rows_up.simps) simp
    moreover have "\<forall>k < mmp_kyres mmp. ?rdy (?S (int row + int k - int ?eu)) (rows ! k)"
      using less.prems(4) i by simp
    ultimately show ?thesis using less.prems(3) by simp
  next
    case le: True
    define ii where "ii = ?eu - i"
    have iil: "ii < mmp_kyres mmp" "ii + 1 < mmp_kyres mmp" "ii + i = ?eu"
      using le ky less.prems(1) by (simp_all add: ii_def)
    show ?thesis
    proof (cases "i \<le> row")
      case True
      have ry: "row - i < yres F" using rh by linarith
      from less.prems(3) iil have sh: "prow_shape (mmp_req mmp) (mmp_rowbuflen mmp) (rows ! ii)"
        by (simp add: rows_shaped_def)
      from precompute_field_row_ok[OF c ry sh, of m]
      obtain p' where p': "precompute_field_row F mmp m ext col width (row - i) (rows ! ii) = Inr p'"
        "?rdy (?S (int (row - i))) p'" by blast
      let ?rows = "rows[ii := p']"
      have s1: "rows_shaped mmp ?rows"
        by (rule rows_shaped_update[OF less.prems(3) row_ready_shape[OF p'(2)]])
      have s2: "\<forall>k. ?eu + 1 - (i + 1) \<le> k \<and> k < mmp_kyres mmp \<longrightarrow>
                  ?rdy (?S (int row + int k - int ?eu)) (?rows ! k)"
      proof (intro allI impI)
        fix k assume k: "?eu + 1 - (i + 1) \<le> k \<and> k < mmp_kyres mmp"
        show "?rdy (?S (int row + int k - int ?eu)) (?rows ! k)"
        proof (cases "k = ii")
          case kt: True
          have e: "int row + int k - int ?eu = int (row - i)" using kt iil(3) True by linarith
          have f: "?rows ! k = p'" using kt iil less.prems(3) by (simp add: rows_shaped_def)
          show ?thesis unfolding e f by (rule p'(2))
        next
          case False
          with k have "?eu + 1 - i \<le> k \<and> k < mmp_kyres mmp" unfolding ii_def by linarith
          with less.prems(4) False show ?thesis by simp
        qed
      qed
      have "\<exists>rows'. seed_rows_up F mmp m ext col row width ?rows (i + 1) = Inr rows' \<and>
        rows_shaped mmp rows' \<and>
        (\<forall>k < mmp_kyres mmp. ?rdy (?S (int row + int k - int ?eu)) (rows' ! k))"
        by (rule less.hyps[OF _ _ _ s1 s2]) (use le in simp_all)
      then show ?thesis using le True p'(1)
        by (subst seed_rows_up.simps) (simp add: ii_def Let_def)
    next
      case False
      have md: "(ii + 1) mod mmp_kyres mmp = ii + 1" using iil by simp
      let ?p = "min_max_precomputed_row_copy (rows ! ii) (rows ! ((ii + 1) mod mmp_kyres mmp))
                  (mmp_req mmp) (mmp_rowbuflen mmp)"
      let ?rows = "rows[ii := ?p]"
      have r1: "?rdy (?S (int row + int (ii + 1) - int ?eu)) (rows ! (ii + 1))"
        using less.prems(4)[rule_format, of "ii + 1"] iil unfolding ii_def by simp
      have "clamp_index (yres F) (int row + int (ii + 1) - int ?eu)
            = clamp_index (yres F) (int row + int ii - int ?eu)"
        using False iil(3) by (simp add: clamp_index_low)
      from src_row_clamp[OF this] r1
      have r2: "?rdy (?S (int row + int ii - int ?eu)) (rows ! (ii + 1))" by simp
      have rp: "?rdy (?S (int row + int ii - int ?eu)) ?p" unfolding md by (rule copy_ready[OF r2])
      have s1: "rows_shaped mmp ?rows"
        by (rule rows_shaped_update[OF less.prems(3) row_ready_shape[OF rp]])
      have s2: "\<forall>k. ?eu + 1 - (i + 1) \<le> k \<and> k < mmp_kyres mmp \<longrightarrow>
                  ?rdy (?S (int row + int k - int ?eu)) (?rows ! k)"
      proof (intro allI impI)
        fix k assume k: "?eu + 1 - (i + 1) \<le> k \<and> k < mmp_kyres mmp"
        show "?rdy (?S (int row + int k - int ?eu)) (?rows ! k)"
        proof (cases "k = ii")
          case kt: True
          have f: "?rows ! k = ?p" using kt iil less.prems(3) by (simp add: rows_shaped_def)
          show ?thesis unfolding f unfolding kt by (rule rp)
        next
          case False
          with k have "?eu + 1 - i \<le> k \<and> k < mmp_kyres mmp" unfolding ii_def by linarith
          with less.prems(4) False show ?thesis by simp
        qed
      qed
      have "\<exists>rows'. seed_rows_up F mmp m ext col row width ?rows (i + 1) = Inr rows' \<and>
        rows_shaped mmp rows' \<and>
        (\<forall>k < mmp_kyres mmp. ?rdy (?S (int row + int k - int ?eu)) (rows' ! k))"
        by (rule less.hyps[OF _ _ _ s1 s2]) (use le in simp_all)
      then show ?thesis using le False
        by (subst seed_rows_up.simps) (simp add: ii_def Let_def)
    qed
  qed
qed

lemma row_index_less:
  assumes "i' < (i::nat)" "j < width"
  shows "i' * width + j < i * width"
proof -
  have "i' * width + j < i' * width + width" using assms(2) by simp
  also have "\<dots> = Suc i' * width" by simp
  also have "\<dots> \<le> i * width" using assms(1) by (intro mult_le_mono1) simp
  finally show ?thesis .
qed

lemma sweep_rows_ok:
  assumes c: "exec_ctx F mmp ext col row width height"
  shows "i < height \<Longrightarrow> rows_shaped mmp rows \<Longrightarrow>
     (\<forall>k < mmp_kyres mmp. row_ready m (mmp_req mmp) (mmp_rowbuflen mmp)
          (src_row F ext col width (int row + int i + int k - int (ext_up ext))) (rows ! k)) \<Longrightarrow>
     length outbuf = i * width \<Longrightarrow>
     (\<forall>i' < i. \<forall>j < width. outbuf ! (i' * width + j) = window_value m F mmp ext col row width i' j) \<Longrightarrow>
     \<exists>rows' out. sweep_rows F mmp m ext col row width height rows outbuf i = Inr (rows', out) \<and>
        rows_shaped mmp rows' \<and> length out = height * width \<and>
        (\<forall>i' < height. \<forall>j < width. out ! (i' * width + j) = window_value m F mmp ext col row width i' j)"
proof (induction "height - i" arbitrary: i rows outbuf rule: less_induct)
  case less
  let ?eu = "ext_up ext" and ?ed = "ext_down ext" and ?ky = "mmp_kyres mmp"
  let ?S = "\<lambda>r. src_row F ext col width r"
  let ?rdy = "row_ready m (mmp_req mmp) (mmp_rowbuflen mmp)"
  let ?V = "window_value m F mmp ext col row width"
  from c have ky: "?eu + ?ed + 1 = ?ky" and rh: "row + height \<le> yres F"
    and segs: "mmp_mrle mmp \<noteq> []"
      "\<forall>s \<in> set (mmp_mrle mmp). seg_ok (mmp_req mmp) (mmp_rowbuflen mmp) width ?ky s"
    unfolding exec_ctx_def by blast+
  from less.prems(2) have lr: "length rows = ?ky" by (simp add: rows_shaped_def)
  from mask_rle_execute_min_max_ok[where X = "\<lambda>k. ?S (int row + int i + int k - int ?eu)",
      OF less.prems(3) lr segs(2) segs(1)]
  obtain out_row where o: "mask_rle_execute_min_max (mmp_mrle mmp) rows width m = Inr out_row"
    "length out_row = width" "\<forall>j < width. out_row ! j = ?V i j"
    unfolding window_value_def by blast
  let ?ob = "outbuf @ out_row"
  have lob: "length ?ob = (i + 1) * width" using less.prems(4) o(2) by simp
  have vob: "\<forall>i' < i + 1. \<forall>j < width. ?ob ! (i' * width + j) = ?V i' j"
  proof (intro allI impI)
    fix i' j assume i': "i' < i + 1" and j: "j < width"
    show "?ob ! (i' * width + j) = ?V i' j"
    proof (cases "i' < i")
      case True
      have "i' * width + j < length outbuf"
        using row_index_less[OF True j] less.prems(4) by simp
      then have "?ob ! (i' * width + j) = outbuf ! (i' * width + j)" by (simp add: nth_append)
      with less.prems(5) True j show ?thesis by simp
    next
      case False
      with i' have e: "i' = i" by simp
      have "?ob ! (i' * width + j) = out_row ! j"
        using less.prems(4) e by (simp add: nth_append)
      with o(3) j e show ?thesis by simp
    qed
  qed
  show ?case
  proof (cases "i + 1 \<ge> height")
    case True
    with less.prems(1) have h: "height = i + 1" by simp
    have "sweep_rows F mmp m ext col row width height rows outbuf i = Inr (rows, ?ob)"
      using o(1) True by (subst sweep_rows.simps) (simp add: Let_def)
    then show ?thesis using less.prems(2) lob vob h by simp
  next
    case nf: False
    let ?rows = "rotate1 rows"
    let ?ii = "row + (i + 1) + ?ed"
    have kyp: "0 < ?ky" using ky by simp
    have rot: "\<And>k. k + 1 < ?ky \<Longrightarrow> ?rows ! k = rows ! (k + 1)"
      using lr by (simp add: nth_rotate1)
    have rotl: "?rows ! (?ky - 1) = rows ! 0"
      using lr kyp by (simp add: nth_rotate1)
    have lrot: "length ?rows = ?ky" using lr by simp
    have shrot: "rows_shaped mmp ?rows"
      unfolding rows_shaped_def
    proof (intro conjI allI impI)
      show "length ?rows = ?ky" by (rule lrot)
      fix k assume k: "k < ?ky"
      have "?rows ! k = rows ! (Suc k mod ?ky)" using k lr by (simp add: nth_rotate1)
      moreover have "Suc k mod ?ky < ?ky" using kyp by simp
      ultimately show "prow_shape (mmp_req mmp) (mmp_rowbuflen mmp) (?rows ! k)"
        using less.prems(2) by (simp add: rows_shaped_def)
    qed
    have sh0: "prow_shape (mmp_req mmp) (mmp_rowbuflen mmp) (rows ! 0)"
      using less.prems(2) kyp by (simp add: rows_shaped_def)
    have step: "\<exists>rows' out. sweep_rows F mmp m ext col row width height (?rows[?ky - 1 := p]) ?ob (i + 1)
          = Inr (rows', out) \<and> rows_shaped mmp rows' \<and> length out = height * width \<and>
          (\<forall>i' < height. \<forall>j < width. out ! (i' * width + j) = ?V i' j)"
      if p: "?rdy (?S (int ?ii)) p" for p
    proof (rule less.hyps[OF _ _ _ _ lob vob])
      show "height - (i + 1) < height - i" using less.prems(1) by simp
      show "i + 1 < height" using nf by simp
      show "rows_shaped mmp (?rows[?ky - 1 := p])"
        by (rule rows_shaped_update[OF shrot row_ready_shape[OF p]])
      show "\<forall>k < ?ky. ?rdy (?S (int row + int (i + 1) + int k - int ?eu)) ((?rows[?ky - 1 := p]) ! k)"
      proof (intro allI impI)
        fix k assume k: "k < ?ky"
        show "?rdy (?S (int row + int (i + 1) + int k - int ?eu)) ((?rows[?ky - 1 := p]) ! k)"
        proof (cases "k = ?ky - 1")
          case True
          have e: "int row + int (i + 1) + int k - int ?eu = int ?ii" using True ky by simp
          have f: "(?rows[?ky - 1 := p]) ! k = p" using True lrot kyp by simp
          show ?thesis unfolding e f by (rule p)
        next
          case False
          with k have k1: "k + 1 < ?ky" by simp
          have e: "int row + int (i + 1) + int k - int ?eu = int row + int i + int (k + 1) - int ?eu"
            by simp
          have f: "(?rows[?ky - 1 := p]) ! k = rows ! (k + 1)" using False rot[OF k1] by simp
          show ?thesis unfolding e f by (rule less.prems(3)[rule_format, OF k1])
        qed
      qed
    qed
    show ?thesis
    proof (cases "?ii < yres F")
      case True
      from precompute_field_row_ok[OF c True sh0, of m]
      obtain p' where p': "precompute_field_row F mmp m ext col width ?ii (rows ! 0) = Inr p'"
        "?rdy (?S (int ?ii)) p'" by blast
      from step[OF p'(2)] show ?thesis
        using o(1) nf True p'(1)
        by (subst sweep_rows.simps) (simp add: Let_def add.assoc)
    next
      case False
      have ed1: "1 \<le> ?ed"
      proof (rule ccontr)
        assume "\<not> 1 \<le> ?ed"
        then have "?ed = 0" by simp
        with False nf rh show False by simp
      qed
      then have ky2: "2 \<le> ?ky" using ky by simp
      let ?p = "min_max_precomputed_row_copy (rows ! 0) (?rows ! (?ky - 2))
                  (mmp_req mmp) (mmp_rowbuflen mmp)"
      have k2: "?ky - 2 + 1 < ?ky" using ky2 by simp
      have k3: "?ky - 2 + 1 = ?ky - 1" using ky2 by linarith
      have r2: "?rows ! (?ky - 2) = rows ! (?ky - 1)"
        using rot[OF k2] unfolding k3 .
      have r1: "?rdy (?S (int row + int i + int (?ky - 1) - int ?eu)) (rows ! (?ky - 1))"
        by (rule less.prems(3)[rule_format]) (use kyp in simp)
      have "clamp_index (yres F) (int row + int i + int (?ky - 1) - int ?eu)
            = clamp_index (yres F) (int ?ii)"
        using False ky by (simp add: clamp_index_high)
      from src_row_clamp[OF this] r1 have "?rdy (?S (int ?ii)) (rows ! (?ky - 1))" by simp
      then have p: "?rdy (?S (int ?ii)) ?p" unfolding r2 by (rule copy_ready)
      from step[OF p] show ?thesis
        using o(1) nf False ky2
        by (subst sweep_rows.simps) (simp add: Let_def add.assoc)
    qed
  qed
qed

lemma execute_ok:
  assumes c: "exec_ctx F mmp (min_max_extends m (mmp_kxres mmp) (mmp_kyres mmp)) col row width height"
    and ns: "seeding_in_field (min_max_extends m (mmp_kxres mmp) (mmp_kyres mmp)) row (yres F)"
    and sh: "rows_shaped mmp (mmp_prows mmp)"
  shows "\<exists>rows' out. gwy_data_field_area_min_max_execute F mmp m col row width height
            = Inr (mmp\<lparr>mmp_prows := rows'\<rparr>, out) \<and>
           rows_shaped mmp rows' \<and> length out = height * width \<and>
           (\<forall>i < height. \<forall>j < width. out ! (i * width + j)
               = window_value m F mmp (min_max_extends m (mmp_kxres mmp) (mmp_kyres mmp))
                   col row width i j)"
proof -
  let ?ext = "min_max_extends m (mmp_kxres mmp) (mmp_kyres mmp)"
  let ?S = "\<lambda>r. src_row F ?ext col width r"
  let ?rdy = "row_ready m (mmp_req mmp) (mmp_rowbuflen mmp)"
  from ns have ns': "ext_up ?ext = 0 \<or> row + ext_down ?ext < yres F"
    by (simp add: seeding_in_field_def)
  from c have h: "0 < height" and ky: "ext_up ?ext + ext_down ?ext + 1 = mmp_kyres mmp"
    unfolding exec_ctx_def by blast+
  have "\<exists>rows'. seed_rows_down F mmp m ?ext col row width (mmp_prows mmp) 0 = Inr rows' \<and>
        rows_shaped mmp rows' \<and>
        (\<forall>k. ext_up ?ext \<le> k \<and> k < mmp_kyres mmp \<longrightarrow>
           ?rdy (?S (int row + int k - int (ext_up ?ext))) (rows' ! k))"
    by (rule seed_rows_down_ok[OF c ns' _ sh]) (simp, linarith)
  then obtain r1 where r1: "seed_rows_down F mmp m ?ext col row width (mmp_prows mmp) 0 = Inr r1"
    "rows_shaped mmp r1"
    "\<forall>k. ext_up ?ext \<le> k \<and> k < mmp_kyres mmp \<longrightarrow>
        ?rdy (?S (int row + int k - int (ext_up ?ext))) (r1 ! k)"
    by blast
  have u0: "\<forall>k. ext_up ?ext + 1 - 1 \<le> k \<and> k < mmp_kyres mmp \<longrightarrow>
        ?rdy (?S (int row + int k - int (ext_up ?ext))) (r1 ! k)"
    using r1(3) by simp
  have "\<exists>rows'. seed_rows_up F mmp m ?ext col row width r1 1 = Inr rows' \<and>
        rows_shaped mmp rows' \<and>
        (\<forall>k < mmp_kyres mmp. ?rdy (?S (int row + int k - int (ext_up ?ext))) (rows' ! k))"
    by (rule seed_rows_up_ok[OF c _ _ r1(2) u0]) simp_all
  then obtain r2 where r2: "seed_rows_up F mmp m ?ext col row width r1 1 = Inr r2"
    "rows_shaped mmp r2"
    "\<forall>k < mmp_kyres mmp. ?rdy (?S (int row + int k - int (ext_up ?ext))) (r2 ! k)"
    by blast
  have s0: "\<forall>k < mmp_kyres mmp. ?rdy (?S (int row + int 0 + int k - int (ext_up ?ext))) (r2 ! k)"
    using r2(3) by simp
  have "\<exists>rows' out. sweep_rows F mmp m ?ext col row width height r2 [] 0 = Inr (rows', out) \<and>
        rows_shaped mmp rows' \<and> length out = height * width \<and>
        (\<forall>i' < height. \<forall>j < width. out ! (i' * width + j) = window_value m F mmp ?ext col row width i' j)"
    by (rule sweep_rows_ok[OF c h r2(2) s0]) simp_all
  then obtain r3 out where r3: "sweep_rows F mmp m ?ext col row width height r2 [] 0 = Inr (r3, out)"
    "rows_shaped mmp r3" "length out = height * width"
    "\<forall>i' < height. \<forall>j < width. out ! (i' * width + j) = window_value m F mmp ?ext col row width i' j"
    by blast
  have "gwy_data_field_area_min_max_execute F mmp m col row width height
            = Inr (mmp\<lparr>mmp_prows := r3\<rparr>, out)"
    using r1(1) r2(1) r3(1) by (simp add: gwy_data_field_area_min_max_execute_def Let_def)
  with r3 show ?thesis by blast
qed

lemma extends_sums:
  "0 < ky \<Longrightarrow> ext_up (min_max_extends m kx ky) + ext_down (min_max_extends m kx ky) + 1 = ky"
  "0 < kx \<Longrightarrow> ext_left (min_max_extends m kx ky) + ext_right (min_max_extends m kx ky) + 1 = kx"
  by (auto simp: min_max_extends_def)

lemma field_row_nth:
  assumes "length (data F) = xres F * yres F" "r < yres F" "t < xres F"
  shows "field_row F r ! t = data F ! (r * xres F + t)"
proof -
  have "xres F * r + xres F = xres F * Suc r" by simp
  also have "\<dots> \<le> xres F * yres F" using assms(2) by (intro mult_le_mono2) simp
  finally have "xres F * r + t < length (data F)" using assms(1,3) by linarith
  then show ?thesis using assms(3) by (simp add: field_row_def mult.commute)
qed

lemma src_row_nth:
  assumes w: "length (data F) = xres F * yres F" "0 < yres F" "col + width \<le> xres F" "0 < width"
    and t: "t < ext_left ext + width + ext_right ext"
  shows "src_row F ext col width r ! t = pixel_at F r (int col + int t - int (ext_left ext))"
proof -
  let ?r = "clamp_index (yres F) r"
  have rl: "?r < yres F" by (rule clamp_index_lt[OF w(2)])
  have l: "length (field_row F ?r) = xres F" by (rule field_row_length[OF w(1) rl])
  have x: "0 < xres F" using w(3,4) by linarith
  have "src_row F ext col width r ! t
      = field_row F ?r ! clamp_index (xres F) (int col + int t - int (ext_left ext))"
    unfolding src_row_def by (rule row_extend_border_nth[OF l w(3) w(4) t])
  also have "\<dots> = data F ! (?r * xres F + clamp_index (xres F) (int col + int t - int (ext_left ext)))"
    by (rule field_row_nth[OF w(1) rl clamp_index_lt[OF x]])
  finally show ?thesis by (simp add: pixel_at_def)
qed

lemma window_value_pixels:
  assumes c: "exec_ctx F mmp ext col row width height"
    and s: "\<forall>s \<in> set (mmp_mrle mmp). seg_wf kx ky s"
    and kx: "ext_left ext + ext_right ext + 1 = kx"
    and j: "j < width"
  shows "window_value m F mmp ext col row width i j =
         extremum m ((\<lambda>(a, b). pixel_at F (int row + int i + int a - int (ext_up ext))
                                   (int col + int j + int b - int (ext_left ext)))
                      ` seg_cells (mmp_mrle mmp))"
proof -
  from c have w: "length (data F) = xres F * yres F" "col + width \<le> xres F" "0 < width"
    "row + height \<le> yres F" "0 < height"
    unfolding exec_ctx_def by blast+
  then have y: "0 < yres F" by linarith
  have "src_row F ext col width (int row + int i + int a - int (ext_up ext)) ! (b + j)
        = pixel_at F (int row + int i + int a - int (ext_up ext))
            (int col + int j + int b - int (ext_left ext))"
    if "(a, b) \<in> seg_cells (mmp_mrle mmp)" for a b
  proof -
    from that s have "b < kx" by (auto simp: seg_cells_def seg_wf_def)
    then have "b + j < ext_left ext + width + ext_right ext" using kx j by linarith
    from src_row_nth[OF w(1) y w(2) w(3) this]
    show ?thesis by (simp add: add.commute add.left_commute)
  qed
  then have "(\<lambda>(a, b). src_row F ext col width (int row + int i + int a - int (ext_up ext)) ! (b + j))
               ` seg_cells (mmp_mrle mmp)
           = (\<lambda>(a, b). pixel_at F (int row + int i + int a - int (ext_up ext))
                                   (int col + int j + int b - int (ext_left ext)))
               ` seg_cells (mmp_mrle mmp)"
    by (intro image_cong) auto
  then show ?thesis by (simp add: window_value_def)
qed

lemma analysed_facts:
  assumes "analysed (gwy_data_field_area_rle_analyse storage K w) = Inr mmp"
  shows "mmp_mrle mmp = run_length_encode_mask K"
    "find_required_lengths_for_set (map seg_len (run_length_encode_mask K)) = Inr (mmp_req mmp)"
    "mmp_prows mmp = map (\<lambda>i. min_max_precomputed_row_alloc (mmp_req mmp) (mmp_rowbuflen mmp) (storage i))
                       [0..<yres K]"
    "mmp_rowbuflen mmp = w + xres K - 1" "mmp_kxres mmp = xres K" "mmp_kyres mmp = yres K"
  using assms
  by (auto simp: analysed_def gwy_data_field_area_rle_analyse_def Let_def
      find_required_lengths_for_rle_def split: sum.splits option.splits if_splits)

lemma exec_ctx_of_plan:
  assumes plan: "find_required_lengths_for_set lens = Inr (mmp_req mmp)"
    and lens: "seg_len ` set (mmp_mrle mmp) \<subseteq> set lens"
    and wf: "\<forall>s \<in> set (mmp_mrle mmp). seg_wf (mmp_kxres mmp) (mmp_kyres mmp) s"
    and ne: "mmp_mrle mmp \<noteq> []"
    and rl: "mmp_rowbuflen mmp = width + mmp_kxres mmp - 1"
    and F: "length (data F) = xres F * yres F"
    and reg: "0 < width" "0 < height" "col + width \<le> xres F" "row + height \<le> yres F"
  shows "exec_ctx F mmp (min_max_extends m (mmp_kxres mmp) (mmp_kyres mmp)) col row width height"
proof -
  let ?ext = "min_max_extends m (mmp_kxres mmp) (mmp_kyres mmp)"
  note pf = planner_plan_facts[OF plan]
  from ne obtain s0 where s0: "s0 \<in> set (mmp_mrle mmp)" by (cases "mmp_mrle mmp") auto
  with wf have "seg_wf (mmp_kxres mmp) (mmp_kyres mmp) s0" by simp
  then have kp: "0 < mmp_kxres mmp" "0 < mmp_kyres mmp" by (auto simp: seg_wf_def)
  have so: "seg_ok (mmp_req mmp) (mmp_rowbuflen mmp) width (mmp_kyres mmp) s"
    if "s \<in> set (mmp_mrle mmp)" for s
  proof -
    from that wf have w: "seg_row s < mmp_kyres mmp" "1 \<le> seg_len s"
      "seg_col s + seg_len s \<le> mmp_kxres mmp" by (auto simp: seg_wf_def)
    from that lens have "seg_len s \<in> set lens" by auto
    with pf(4) have "seg_len s \<le> maxlen_each (mmp_req mmp)" "each_needed (mmp_req mmp) (seg_len s)"
      by auto
    moreover have "seg_col s + seg_len s + width \<le> mmp_rowbuflen mmp + 1"
      using w(3) kp(1) rl by linarith
    ultimately show ?thesis using w by (simp add: seg_ok_def)
  qed
  have "mmp_rowbuflen mmp = ext_left ?ext + width + ext_right ?ext"
    using extends_sums(2)[OF kp(1), of m "mmp_kyres mmp"] rl by linarith
  moreover have "ext_up ?ext + ext_down ?ext + 1 = mmp_kyres mmp"
    by (rule extends_sums(1)[OF kp(2)])
  ultimately show ?thesis
    unfolding exec_ctx_def using pf(1,2,3) so ne F reg by blast
qed

lemma alloc_rows_shaped:
  assumes "plan_ok (mmp_req mmp)"
    "mmp_prows mmp = map (\<lambda>i. min_max_precomputed_row_alloc (mmp_req mmp) (mmp_rowbuflen mmp) (storage i))
                       [0..<mmp_kyres mmp]"
  shows "rows_shaped mmp (mmp_prows mmp)"
  using assms by (simp add: rows_shaped_def alloc_shape)

lemma rows_shaped_cong:
  "rows_shaped mmp rows \<Longrightarrow> mmp_req mmp' = mmp_req mmp \<Longrightarrow> mmp_rowbuflen mmp' = mmp_rowbuflen mmp
   \<Longrightarrow> mmp_kyres mmp' = mmp_kyres mmp \<Longrightarrow> rows_shaped mmp' rows"
  by (simp add: rows_shaped_def)

lemma kernel_cells_finite_nonempty:
  assumes "run_length_encode_mask K \<noteq> []"
  shows "set (kernel_cells K) \<noteq> {}"
proof -
  from assms obtain s where s: "s \<in> set (run_length_encode_mask K)"
    by (cases "run_length_encode_mask K") auto
  with run_length_encode_mask_cells(2)[of K] have "1 \<le> seg_len s" by (auto simp: seg_wf_def)
  then have "(seg_row s, seg_col s + 0) \<in> seg_cells (run_length_encode_mask K)"
    unfolding seg_cells_def using s by (intro CollectI exI[of _ s] exI[of _ 0]) simp
  then show ?thesis unfolding run_length_encode_mask_cells(1) by auto
qed

lemma erosion_window:
  assumes "seg_cells (mmp_mrle mmp) = set (kernel_cells K)"
    "ext = min_max_extends False (xres K) (yres K)"
  shows "extremum False ((\<lambda>(a, b). pixel_at F (int row + int i + int a - int (ext_up ext))
                                   (int col + int j + int b - int (ext_left ext)))
                      ` seg_cells (mmp_mrle mmp))
         = erosion_at F K (int row + int i) (int col + int j)"
proof -
  have "(\<lambda>(a, b). pixel_at F (int row + int i + int a - int (ext_up ext))
                                   (int col + int j + int b - int (ext_left ext)))
      = (\<lambda>(a, b). pixel_at F (int row + int i + (int a - int ((yres K - 1) div 2)))
                                (int col + int j + (int b - int ((xres K - 1) div 2))))"
    by (auto simp: assms(2) min_max_extends_def fun_eq_iff algebra_simps)
  then show ?thesis by (simp add: extremum_def erosion_at_def assms(1))
qed

lemma flip_offset: "a < k \<Longrightarrow> int (k - 1 - a) - int (k div 2) = - (int a - int ((k - 1) div 2))"
proof -
  assume a: "a < k"
  then have "int (k - 1 - a) = int k - 1 - int a" by linarith
  moreover have "int (k div 2) + int ((k - 1) div 2) = int k - 1" using a by linarith
  ultimately show ?thesis by linarith
qed

lemma dilation_window:
  assumes c: "seg_cells (mmp_mrle mmp) = (\<lambda>(a, b). (yres K - 1 - a, xres K - 1 - b)) ` set (kernel_cells K)"
    and e: "ext = min_max_extends True (xres K) (yres K)"
  shows "extremum True ((\<lambda>(a, b). pixel_at F (int row + int i + int a - int (ext_up ext))
                                   (int col + int j + int b - int (ext_left ext)))
                      ` seg_cells (mmp_mrle mmp))
         = dilation_at F K (int row + int i) (int col + int j)"
proof -
  let ?f = "\<lambda>(a, b). pixel_at F (int row + int i + int a - int (ext_up ext))
                                   (int col + int j + int b - int (ext_left ext))"
  let ?g = "\<lambda>(a, b). pixel_at F (int row + int i - (int a - int ((yres K - 1) div 2)))
                                (int col + int j - (int b - int ((xres K - 1) div 2)))"
  have "?f (yres K - 1 - a, xres K - 1 - b) = ?g (a, b)" if "(a, b) \<in> set (kernel_cells K)" for a b
  proof -
    from that have ab: "a < yres K" "b < xres K" by (auto simp: set_kernel_cells)
    have u: "ext_up ext = yres K div 2" "ext_left ext = xres K div 2"
      by (simp_all add: e min_max_extends_def)
    have r: "int row + int i + int (yres K - 1 - a) - int (yres K div 2)
          = int row + int i - (int a - int ((yres K - 1) div 2))"
      using flip_offset[OF ab(1)] by linarith
    have q: "int col + int j + int (xres K - 1 - b) - int (xres K div 2)
          = int col + int j - (int b - int ((xres K - 1) div 2))"
      using flip_offset[OF ab(2)] by linarith
    show ?thesis unfolding prod.case u r q ..
  qed
  then have "?f ` (\<lambda>(a, b). (yres K - 1 - a, xres K - 1 - b)) ` set (kernel_cells K)
           = ?g ` set (kernel_cells K)"
    unfolding image_image by (intro image_cong) auto
  then show ?thesis by (simp add: extremum_def dilation_at_def c)
qed

lemma analysed_mmp_for:
  assumes "analysed (gwy_data_field_area_rle_analyse storage K w) = Inr mmp"
  shows "mmp_for K w mmp"
proof -
  note f = analysed_facts[OF assms]
  have ne: "run_length_encode_mask K \<noteq> []" using analysed_mrle(2)[OF assms] .
  have "rows_shaped mmp (mmp_prows mmp)"
    by (rule alloc_rows_shaped[OF planner_plan_facts(1)[OF f(2)], of storage]) (use f in simp)
  with f ne show ?thesis by (simp add: mmp_for_def)
qed

lemma min_pass_ok:
  assumes m: "mmp_for K w mmp"
    and F: "length (data F) = xres F * yres F"
    and reg: "0 < w" "0 < h" "col + w \<le> xres F" "row + h \<le> yres F"
    and ns: "seeding_in_field (min_max_extends False (xres K) (yres K)) row (yres F)"
  shows "\<exists>mmp' out. gwy_data_field_area_min_max_execute F mmp False col row w h = Inr (mmp', out) \<and>
           mmp_for K w mmp' \<and> length out = h * w \<and>
           (\<forall>i < h. \<forall>j < w. out ! (i * w + j) = erosion_at F K (int row + int i) (int col + int j))"
proof -
  let ?ext = "min_max_extends False (mmp_kxres mmp) (mmp_kyres mmp)"
  from m have f: "mmp_mrle mmp = run_length_encode_mask K" "run_length_encode_mask K \<noteq> []"
    "find_required_lengths_for_set (map seg_len (run_length_encode_mask K)) = Inr (mmp_req mmp)"
    "mmp_rowbuflen mmp = w + xres K - 1" "mmp_kxres mmp = xres K" "mmp_kyres mmp = yres K"
    "rows_shaped mmp (mmp_prows mmp)"
    by (simp_all add: mmp_for_def)
  have wf: "\<forall>s \<in> set (mmp_mrle mmp). seg_wf (mmp_kxres mmp) (mmp_kyres mmp) s"
    using run_length_encode_mask_cells(2)[of K] f by simp
  have c: "exec_ctx F mmp ?ext col row w h"
    by (rule exec_ctx_of_plan[OF f(3) _ wf _ _ F reg]) (use f in simp_all)
  have ns': "seeding_in_field ?ext row (yres F)" using ns f by simp
  from execute_ok[OF c ns' f(7)]
  obtain rows' out where e: "gwy_data_field_area_min_max_execute F mmp False col row w h
            = Inr (mmp\<lparr>mmp_prows := rows'\<rparr>, out)"
    "rows_shaped mmp rows'" "length out = h * w"
    "\<forall>i < h. \<forall>j < w. out ! (i * w + j) = window_value False F mmp ?ext col row w i j"
    by blast
  have kp: "0 < mmp_kxres mmp"
  proof -
    from f(1,2) have "mmp_mrle mmp \<noteq> []" by simp
    then obtain s0 where "s0 \<in> set (mmp_mrle mmp)" by (cases "mmp_mrle mmp") auto
    with wf show ?thesis by (auto simp: seg_wf_def)
  qed
  have v: "out ! (i * w + j) = erosion_at F K (int row + int i) (int col + int j)"
    if "i < h" "j < w" for i j
  proof -
    have "out ! (i * w + j) = window_value False F mmp ?ext col row w i j" using e(4) that by simp
    also have "\<dots> = extremum False ((\<lambda>(a, b). pixel_at F (int row + int i + int a - int (ext_up ?ext))
                                   (int col + int j + int b - int (ext_left ?ext)))
                      ` seg_cells (mmp_mrle mmp))"
      by (rule window_value_pixels[OF c wf extends_sums(2)[OF kp] that(2)])
    also have "\<dots> = erosion_at F K (int row + int i) (int col + int j)"
      by (rule erosion_window) (use f run_length_encode_mask_cells(1)[of K] in simp_all)
    finally show ?thesis .
  qed
  have "mmp_for K w (mmp\<lparr>mmp_prows := rows'\<rparr>)"
    using f e(2) by (simp add: mmp_for_def rows_shaped_def)
  with e(1,3) v show ?thesis by blast
qed

lemma max_pass_ok:
  assumes m: "mmp_for K w mmp"
    and F: "length (data F) = xres F * yres F"
    and reg: "0 < w" "0 < h" "col + w \<le> xres F" "row + h \<le> yres F"
    and ns: "seeding_in_field (min_max_extends True (xres K) (yres K)) row (yres F)"
  shows "\<exists>mmp' out. gwy_data_field_area_min_max_execute F (flip_mrle mmp) True col row w h
             = Inr (mmp', out) \<and> length out = h * w \<and>
           (\<forall>i < h. \<forall>j < w. out ! (i * w + j) = dilation_at F K (int row + int i) (int col + int j))"
proof -
  let ?m = "flip_mrle mmp"
  let ?ext = "min_max_extends True (mmp_kxres ?m) (mmp_kyres ?m)"
  from m have f: "mmp_mrle mmp = run_length_encode_mask K" "run_length_encode_mask K \<noteq> []"
    "find_required_lengths_for_set (map seg_len (run_length_encode_mask K)) = Inr (mmp_req mmp)"
    "mmp_rowbuflen mmp = w + xres K - 1" "mmp_kxres mmp = xres K" "mmp_kyres mmp = yres K"
    "rows_shaped mmp (mmp_prows mmp)"
    by (simp_all add: mmp_for_def)
  have g: "mmp_mrle ?m = gwy_data_field_area_rle_flip (run_length_encode_mask K) (xres K) (yres K)"
    "mmp_req ?m = mmp_req mmp" "mmp_rowbuflen ?m = mmp_rowbuflen mmp" "mmp_kxres ?m = xres K"
    "mmp_kyres ?m = yres K" "mmp_prows ?m = mmp_prows mmp"
    using f by (simp_all add: flip_mrle_def)
  note fc = flip_cells[OF run_length_encode_mask_cells(2)[of K]]
  have wf: "\<forall>s \<in> set (mmp_mrle ?m). seg_wf (mmp_kxres ?m) (mmp_kyres ?m) s"
    using fc(2) g by simp
  have ne: "mmp_mrle ?m \<noteq> []" using f(2) g(1) by (simp add: flip_nonempty)
  have c: "exec_ctx F ?m ?ext col row w h"
  proof (rule exec_ctx_of_plan[OF _ _ wf ne _ F reg])
    show "find_required_lengths_for_set (map seg_len (run_length_encode_mask K)) = Inr (mmp_req ?m)"
      using f(3) g(2) by simp
    show "seg_len ` set (mmp_mrle ?m) \<subseteq> set (map seg_len (run_length_encode_mask K))"
      using fc(3) g(1) by simp
    show "mmp_rowbuflen ?m = w + mmp_kxres ?m - 1" using f g by simp
  qed
  have ns': "seeding_in_field ?ext row (yres F)" using ns g by simp
  have sh: "rows_shaped ?m (mmp_prows ?m)"
    unfolding g(6) by (rule rows_shaped_cong[OF f(7)]) (use f g in simp_all)
  from execute_ok[OF c ns' sh]
  obtain rows' out where e: "gwy_data_field_area_min_max_execute F ?m True col row w h
            = Inr (?m\<lparr>mmp_prows := rows'\<rparr>, out)"
    "length out = h * w"
    "\<forall>i < h. \<forall>j < w. out ! (i * w + j) = window_value True F ?m ?ext col row w i j"
    by blast
  have kp: "0 < mmp_kxres ?m"
  proof -
    from ne obtain s0 where "s0 \<in> set (mmp_mrle ?m)" by (cases "mmp_mrle ?m") auto
    with wf show ?thesis by (auto simp: seg_wf_def)
  qed
  have v: "out ! (i * w + j) = dilation_at F K (int row + int i) (int col + int j)"
    if "i < h" "j < w" for i j
  proof -
    have "out ! (i * w + j) = window_value True F ?m ?ext col row w i j" using e(3) that by simp
    also have "\<dots> = extremum True ((\<lambda>(a, b). pixel_at F (int row + int i + int a - int (ext_up ?ext))
                                   (int col + int j + int b - int (ext_left ?ext)))
                      ` seg_cells (mmp_mrle ?m))"
      by (rule window_value_pixels[OF c wf extends_sums(2)[OF kp] that(2)])
    also have "\<dots> = dilation_at F K (int row + int i) (int col + int j)"
      by (rule dilation_window)
         (use fc(1) g run_length_encode_mask_cells(1)[of K] in simp_all)
    finally show ?thesis .
  qed
  from e(1,2) v show ?thesis by blast
qed

lemma erosion_le:
  assumes "(a, b) \<in> set (kernel_cells K)"
  shows "erosion_at F K r c \<le> pixel_at F (r + (int a - int ((yres K - 1) div 2)))
                                          (c + (int b - int ((xres K - 1) div 2)))"
  unfolding erosion_at_def
  by (rule Min_le) (use assms in \<open>auto intro!: rev_image_eqI[of "(a, b)"]\<close>)

lemma dilation_ge:
  assumes "(a, b) \<in> set (kernel_cells K)"
  shows "pixel_at F (r - (int a - int ((yres K - 1) div 2)))
                    (c - (int b - int ((xres K - 1) div 2))) \<le> dilation_at F K r c"
  unfolding dilation_at_def
  by (rule Max_ge) (use assms in \<open>auto intro!: rev_image_eqI[of "(a, b)"]\<close>)

lemma erosion_le_dilation:
  assumes "has_reflected_pair K"
  shows "erosion_at F K r c \<le> dilation_at F K r c"
proof -
  from assms obtain a b a' b' where p: "(a, b) \<in> set (kernel_cells K)" "(a', b') \<in> set (kernel_cells K)"
    "a + a' = 2 * ((yres K - 1) div 2)" "b + b' = 2 * ((xres K - 1) div 2)"
    by (auto simp: has_reflected_pair_def list_ex_iff)
  have e: "r + (int a - int ((yres K - 1) div 2)) = r - (int a' - int ((yres K - 1) div 2))"
    "c + (int b - int ((xres K - 1) div 2)) = c - (int b' - int ((xres K - 1) div 2))"
    using p(3,4) by linarith+
  have "erosion_at F K r c \<le> pixel_at F (r + (int a - int ((yres K - 1) div 2)))
                                          (c + (int b - int ((xres K - 1) div 2)))"
    by (rule erosion_le[OF p(1)])
  also have "\<dots> = pixel_at F (r - (int a' - int ((yres K - 1) div 2)))
                    (c - (int b' - int ((xres K - 1) div 2)))"
    unfolding e ..
  also have "\<dots> \<le> dilation_at F K r c" by (rule dilation_ge[OF p(2)])
  finally show ?thesis .
qed

lemma centre_between:
  assumes "has_centre_cell K"
  shows "erosion_at F K r c \<le> pixel_at F r c" "pixel_at F r c \<le> dilation_at F K r c"
  using erosion_le[of "(yres K - 1) div 2" "(xres K - 1) div 2" K F r c]
    dilation_ge[of "(yres K - 1) div 2" "(xres K - 1) div 2" K F r c] assms
  by (simp_all add: has_centre_cell_def)

lemma pixel_at_inside:
  assumes "r < yres F" "c < xres F"
  shows "pixel_at F (int r) (int c) = data F ! (r * xres F + c)"
  by (simp add: pixel_at_def clamp_index_inside assms)

lemma range_or_normalization_ok:
  assumes F: "length (data F) = xres F * yres F"
    and reg: "0 < w" "0 < h" "c + w \<le> xres F" "r + h \<le> yres F"
    and k: "kernel_is_nonempty K"
    and ns: "seeding_in_field (min_max_extends False (xres K) (yres K)) r (yres F)"
            "seeding_in_field (min_max_extends True (xres K) (yres K)) r (yres F)"
  shows "\<exists>F'. filter_range_or_normalization storage F K is_range c r w h = Inr F' \<and>
           (\<forall>i < h. \<forall>j < w. data F' ! ((r + i) * xres F + c + j) =
              (let mn = erosion_at F K (int r + int i) (int c + int j);
                   mx = dilation_at F K (int r + int i) (int c + int j)
               in if is_range then mx - mn
                  else if mn = mx then 1 / 2
                  else (data F ! ((r + i) * xres F + c + j) - mn) / (mx - mn)))"
proof -
  from analysed_nonempty[OF k, of "storage 0" w]
  obtain mmp where a: "analysed (gwy_data_field_area_rle_analyse (storage 0) K w) = Inr mmp"
    by blast
  note m = analysed_mmp_for[OF a]
  from min_pass_ok[OF m F reg ns(1)]
  obtain mmp1 out1 where p1: "gwy_data_field_area_min_max_execute F mmp False c r w h = Inr (mmp1, out1)"
    "mmp_for K w mmp1" "length out1 = h * w"
    "\<forall>i < h. \<forall>j < w. out1 ! (i * w + j) = erosion_at F K (int r + int i) (int c + int j)"
    by blast
  from max_pass_ok[OF p1(2) F reg ns(2)]
  obtain mmp2 out2 where p2: "gwy_data_field_area_min_max_execute F (flip_mrle mmp1) True c r w h
      = Inr (mmp2, out2)" "length out2 = h * w"
    "\<forall>i < h. \<forall>j < w. out2 ! (i * w + j) = dilation_at F K (int r + int i) (int c + int j)"
    by blast
  let ?f = "\<lambda>i j v. out2 ! (i * w + j) - out1 ! (i * w + j)"
  let ?g = "\<lambda>i j v. let mn = out1 ! (i * w + j); mx = out2 ! (i * w + j)
                     in if mn = mx then 1 / 2 else (v - mn) / (mx - mn)"
  have res: "filter_range_or_normalization storage F K is_range c r w h
     = Inr (F\<lparr>data := area_update (if is_range then ?f else ?g) (xres F) c r w h (data F)\<rparr>)"
    using a p1(1) p2(1) by (simp add: filter_range_or_normalization_def)
  have len: "(r + h) * xres F \<le> length (data F)"
    using reg(4) F by (simp add: mult.commute)
  have "area_update (if is_range then ?f else ?g) (xres F) c r w h (data F) ! ((r + i) * xres F + c + j)
      = (let mn = erosion_at F K (int r + int i) (int c + int j);
             mx = dilation_at F K (int r + int i) (int c + int j)
         in if is_range then mx - mn
            else if mn = mx then 1 / 2
            else (data F ! ((r + i) * xres F + c + j) - mn) / (mx - mn))"
    if "i < h" "j < w" for i j
    using area_update_inside[OF reg(3) len that, of "if is_range then ?f else ?g"]
      p1(4) p2(3) that by (simp add: Let_def)
  with res show ?thesis by simp
qed

section \<open>Erosion, dilation, range and normalization\<close>

lemma min_or_max_ok:
  assumes F: "length (data F) = xres F * yres F"
    and reg: "0 < w" "0 < h" "c + w \<le> xres F" "r + h \<le> yres F"
    and k: "kernel_is_nonempty K"
    and ns: "seeding_in_field (min_max_extends is_max (xres K) (yres K)) r (yres F)"
  shows "\<exists>F'. filter_min_or_max storage F K is_max c r w h = Inr F' \<and>
           (\<forall>i < h. \<forall>j < w. data F' ! ((r + i) * xres F + c + j) =
              (if is_max then dilation_at F K (int r + int i) (int c + int j)
               else erosion_at F K (int r + int i) (int c + int j)))"
proof -
  from analysed_nonempty[OF k, of "storage 0" w]
  obtain mmp where a: "analysed (gwy_data_field_area_rle_analyse (storage 0) K w) = Inr mmp"
    by blast
  note m = analysed_mmp_for[OF a]
  have "\<exists>mmp' out. gwy_data_field_area_min_max_execute F (if is_max then flip_mrle mmp else mmp)
            is_max c r w h = Inr (mmp', out) \<and> length out = h * w \<and>
          (\<forall>i < h. \<forall>j < w. out ! (i * w + j) =
              (if is_max then dilation_at F K (int r + int i) (int c + int j)
               else erosion_at F K (int r + int i) (int c + int j)))"
  proof (cases is_max)
    case True
    with max_pass_ok[OF m F reg] ns show ?thesis by simp
  next
    case False
    with min_pass_ok[OF m F reg] ns show ?thesis by auto
  qed
  then obtain mmp' out where p: "gwy_data_field_area_min_max_execute F
        (if is_max then flip_mrle mmp else mmp) is_max c r w h = Inr (mmp', out)"
    "\<forall>i < h. \<forall>j < w. out ! (i * w + j) =
              (if is_max then dilation_at F K (int r + int i) (int c + int j)
               else erosion_at F K (int r + int i) (int c + int j))"
    by blast
  have res: "filter_min_or_max storage F K is_max c r w h
     = Inr (F\<lparr>data := area_update (\<lambda>i j v. out ! (i * w + j)) (xres F) c r w h (data F)\<rparr>)"
    using a p(1) by (simp add: filter_min_or_max_def)
  have len: "(r + h) * xres F \<le> length (data F)"
    using reg(4) F by (simp add: mult.commute)
  have "area_update (\<lambda>i j v. out ! (i * w + j)) (xres F) c r w h (data F) ! ((r + i) * xres F + c + j)
      = (if is_max then dilation_at F K (int r + int i) (int c + int j)
               else erosion_at F K (int r + int i) (int c + int j))"
    if "i < h" "j < w" for i j
    using area_update_inside[OF reg(3) len that, of "\<lambda>i j v. out ! (i * w + j)"] p(2) that
    by simp
  with res show ?thesis by simp
qed

text \<open>
  Claim C2. Erosion (dilation) should set every region pixel to the minimum (maximum) of
  the border-extended input over the kernel neighbourhood (its point reflection), the values
  \<open>erosion_at\<close> and \<open>dilation_at\<close>; by \<open>min_or_max_ok\<close> the code does so whenever the first
  seeding loop stays inside the field or \<open>extend_up\<close> is zero. At the bottom edge it does
  not. On the field with rows 1 2 3, 4 5 6, 7 8 9, with the kernel of one column and three
  rows of ones, filtering the last row alone: the border-extended minimum is 4 5 6 and the
  maximum 7 8 9, but the minimum filter writes whatever the row buffers held when they were
  allocated (here -777) and the maximum filter likewise (here 1000). The first seeding loop
  copies into \<open>prows[i]\<close> from \<open>prows[i-1]\<close> where the buffer of index \<open>i + extend_up\<close> is
  meant, so that the buffers of the rows below the field are never written.
\<close>

theorem erosion_dilation_wrong_at_bottom_edge:
  "kernel_is_nonempty \<lparr>xres = 1, yres = 3, data = [1, 1, 1 :: rat]\<rparr> \<and>
   gwy_data_field_area_filter_min_max_real (\<lambda>a b c. - 777)
       \<lparr>xres = 3, yres = 3, data = [1, 2, 3, 4, 5, 6, 7, 8, 9 :: rat]\<rparr>
       \<lparr>xres = 1, yres = 3, data = [1, 1, 1 :: rat]\<rparr>
       GWY_MIN_MAX_FILTER_MINIMUM 0 2 3 1
     = Inr \<lparr>xres = 3, yres = 3, data = [1, 2, 3, 4, 5, 6, - 777, - 777, - 777]\<rparr> \<and>
   map (erosion_at \<lparr>xres = 3, yres = 3, data = [1, 2, 3, 4, 5, 6, 7, 8, 9 :: rat]\<rparr>
          \<lparr>xres = 1, yres = 3, data = [1, 1, 1 :: rat]\<rparr> 2) [0, 1, 2] = [4, 5, 6] \<and>
   gwy_data_field_area_filter_min_max_real (\<lambda>a b c. 1000)
       \<lparr>xres = 3, yres = 3, data = [1, 2, 3, 4, 5, 6, 7, 8, 9 :: rat]\<rparr>
       \<lparr>xres = 1, yres = 3, data = [1, 1, 1 :: rat]\<rparr>
       GWY_MIN_MAX_FILTER_MAXIMUM 0 2 3 1
     = Inr \<lparr>xres = 3, yres = 3, data = [1, 2, 3, 4, 5, 6, 1000, 1000, 1000]\<rparr> \<and>
   map (dilation_at \<lparr>xres = 3, yres = 3, data = [1, 2, 3, 4, 5, 6, 7, 8, 9 :: rat]\<rparr>
          \<lparr>xres = 1, yres = 3, data = [1, 1, 1 :: rat]\<rparr> 2) [0, 1, 2] = [7, 8, 9]"
  by code_simp

text \<open>
  Claim C3. Seeding should leave, in the buffer of every kernel row, the precomputed data
  of the clamped source row, rows below the field being copies of the last row. On the same
  field and kernel as above, for the region made of the last row (\<open>extend_up = 1\<close>,
  \<open>extend_down = 1\<close>), with the three buffers allocated holding -1, -2 and -3: after both
  seeding loops the buffer of index 0 holds row 1 (4 5 6), as it should; the buffer of
  index 1, which should hold the region's row 2 (7 8 9) and did after the first step, holds
  the allocation contents -1 of buffer 0, copied over it; and the buffer of index 2, which
  should hold the copy of row 2 for the offset below the field, still holds its own
  allocation contents -3. The else-branch of the first loop writes index \<open>i\<close> from index
  \<open>i - 1\<close>, not index \<open>i + extend_up\<close> from \<open>i + extend_up - 1\<close>.
\<close>

theorem seeding_copies_into_wrong_buffer:
  "min_max_extends False 1 3 = \<lparr>ext_up = 1, ext_down = 1, ext_left = 0, ext_right = 0\<rparr> \<and>
   map row_each (mmp_prows (projr (analysed (gwy_data_field_area_rle_analyse
         (\<lambda>i p. - 1 - of_nat i) \<lparr>xres = 1, yres = 3, data = [1, 1, 1 :: rat]\<rparr> 3))))
     = [[None, Some [- 1, - 1, - 1]], [None, Some [- 2, - 2, - 2]], [None, Some [- 3, - 3, - 3]]] \<and>
   map row_each (projr (seed_rows_up
         \<lparr>xres = 3, yres = 3, data = [1, 2, 3, 4, 5, 6, 7, 8, 9 :: rat]\<rparr>
         (projr (analysed (gwy_data_field_area_rle_analyse
            (\<lambda>i p. - 1 - of_nat i) \<lparr>xres = 1, yres = 3, data = [1, 1, 1 :: rat]\<rparr> 3)))
         False (min_max_extends False 1 3) 0 2 3
         (projr (seed_rows_down
            \<lparr>xres = 3, yres = 3, data = [1, 2, 3, 4, 5, 6, 7, 8, 9 :: rat]\<rparr>
            (projr (analysed (gwy_data_field_area_rle_analyse
               (\<lambda>i p. - 1 - of_nat i) \<lparr>xres = 1, yres = 3, data = [1, 1, 1 :: rat]\<rparr> 3)))
            False (min_max_extends False 1 3) 0 2 3
            (mmp_prows (projr (analysed (gwy_data_field_area_rle_analyse
               (\<lambda>i p. - 1 - of_nat i) \<lparr>xres = 1, yres = 3, data = [1, 1, 1 :: rat]\<rparr> 3))))
            0))
         1))
     = [[None, Some [4, 5, 6]], [None, Some [- 1, - 1, - 1]], [None, Some [- 3, - 3, - 3]]] \<and>
   row_each (projr (precompute_field_row
         \<lparr>xres = 3, yres = 3, data = [1, 2, 3, 4, 5, 6, 7, 8, 9 :: rat]\<rparr>
         (projr (analysed (gwy_data_field_area_rle_analyse
            (\<lambda>i p. - 1 - of_nat i) \<lparr>xres = 1, yres = 3, data = [1, 1, 1 :: rat]\<rparr> 3)))
         False (min_max_extends False 1 3) 0 3 2
         (mmp_prows (projr (analysed (gwy_data_field_area_rle_analyse
            (\<lambda>i p. - 1 - of_nat i) \<lparr>xres = 1, yres = 3, data = [1, 1, 1 :: rat]\<rparr> 3))) ! 2)))
     = [None, Some [7, 8, 9]]"
  by code_simp


text \<open>
  Claim C4 (amended). For every well-formed image, valid region and kernel with a nonzero
  cell, when in both passes the first seeding loop stays inside the field or \<open>extend_up\<close>
  is zero, the Range operation returns normally and writes at each region pixel the
  dilation value minus the erosion value, \<open>dilation_at - erosion_at\<close>. That difference is
  non-negative at every pixel whenever the kernel has a cell whose point reflection about
  the centre \<open>((kyres - 1) div 2, (kxres - 1) div 2)\<close> is a cell of the kernel too (the centre
  cell itself, for instance); for other kernels it can be negative, as the dilation uses
  the reflected offsets.
\<close>

theorem range_is_dilation_minus_erosion:
  assumes "length (data F) = xres F * yres F"
    and "0 \<le> col" "0 \<le> row" "0 < width" "0 < height"
    and "col + width \<le> int (xres F)" "row + height \<le> int (yres F)"
    and "kernel_is_nonempty K"
    and "seeding_in_field (min_max_extends False (xres K) (yres K)) (nat row) (yres F)"
    and "seeding_in_field (min_max_extends True (xres K) (yres K)) (nat row) (yres F)"
  shows "\<exists>F'. gwy_data_field_area_filter_min_max_real storage F K GWY_MIN_MAX_FILTER_RANGE
                 col row width height = Inr F' \<and>
           (\<forall>i < nat height. \<forall>j < nat width.
              data F' ! ((nat row + i) * xres F + nat col + j)
                = dilation_at F K (row + int i) (col + int j)
                  - erosion_at F K (row + int i) (col + int j) \<and>
              (has_reflected_pair K \<longrightarrow> 0 \<le> data F' ! ((nat row + i) * xres F + nat col + j)))"
proof -
  have reg: "0 < nat width" "0 < nat height" "nat col + nat width \<le> xres F"
    "nat row + nat height \<le> yres F"
    using assms(2-7) by linarith+
  from range_or_normalization_ok[OF assms(1) reg assms(8,9,10), of storage True]
  obtain F' where F': "filter_range_or_normalization storage F K True (nat col) (nat row)
        (nat width) (nat height) = Inr F'"
    "\<forall>i < nat height. \<forall>j < nat width. data F' ! ((nat row + i) * xres F + nat col + j) =
        dilation_at F K (int (nat row) + int i) (int (nat col) + int j)
        - erosion_at F K (int (nat row) + int i) (int (nat col) + int j)"
    by (auto simp: Let_def)
  have r: "gwy_data_field_area_filter_min_max_real storage F K GWY_MIN_MAX_FILTER_RANGE
                 col row width height = Inr F'"
    using assms(2-7) F'(1) by (simp add: gwy_data_field_area_filter_min_max_real_def)
  have "data F' ! ((nat row + i) * xres F + nat col + j)
                = dilation_at F K (row + int i) (col + int j)
                  - erosion_at F K (row + int i) (col + int j) \<and>
        (has_reflected_pair K \<longrightarrow> 0 \<le> data F' ! ((nat row + i) * xres F + nat col + j))"
    if "i < nat height" "j < nat width" for i j
  proof -
    have e: "data F' ! ((nat row + i) * xres F + nat col + j)
                = dilation_at F K (row + int i) (col + int j)
                  - erosion_at F K (row + int i) (col + int j)"
      using F'(2) that assms(2,3) by simp
    moreover have "0 \<le> dilation_at F K (row + int i) (col + int j)
                  - erosion_at F K (row + int i) (col + int j)" if "has_reflected_pair K"
      using erosion_le_dilation[OF that, of F "row + int i" "col + int j"] by simp
    ultimately show ?thesis by simp
  qed
  with r show ?thesis by blast
qed

theorem range_is_dilation_minus_erosion_witness:
  "length (data \<lparr>xres = 3, yres = 3, data = [0, 1, 2, 1, 2, 3, 2, 3, 9 :: rat]\<rparr>) = 3 * 3 \<and>
   kernel_is_nonempty \<lparr>xres = 3, yres = 3, data = [0, 1, 0, 1, 0, 1, 0, 1, 0 :: rat]\<rparr> \<and>
   seeding_in_field (min_max_extends False 3 3) 0 3 \<and>
   seeding_in_field (min_max_extends True 3 3) 0 3 \<and>
   has_reflected_pair \<lparr>xres = 3, yres = 3, data = [0, 1, 0, 1, 0, 1, 0, 1, 0 :: rat]\<rparr> \<and>
   gwy_data_field_area_filter_min_max_real (\<lambda>a b c. - 777)
       \<lparr>xres = 3, yres = 3, data = [0, 1, 2, 1, 2, 3, 2, 3, 9 :: rat]\<rparr>
       \<lparr>xres = 3, yres = 3, data = [0, 1, 0, 1, 0, 1, 0, 1, 0 :: rat]\<rparr>
       GWY_MIN_MAX_FILTER_RANGE 0 0 3 3
     = Inr \<lparr>xres = 3, yres = 3, data = [1, 2, 2, 2, 2, 7, 2, 7, 6]\<rparr> \<and>
   dilation_at \<lparr>xres = 3, yres = 3, data = [0, 1, 2, 1, 2, 3, 2, 3, 9 :: rat]\<rparr>
       \<lparr>xres = 3, yres = 3, data = [0, 1, 0, 1, 0, 1, 0, 1, 0 :: rat]\<rparr> 2 1
     - erosion_at \<lparr>xres = 3, yres = 3, data = [0, 1, 2, 1, 2, 3, 2, 3, 9 :: rat]\<rparr>
       \<lparr>xres = 3, yres = 3, data = [0, 1, 0, 1, 0, 1, 0, 1, 0 :: rat]\<rparr> 2 1 = 7"
proof -
  let ?F = "\<lparr>xres = 3, yres = 3, data = [0, 1, 2, 1, 2, 3, 2, 3, 9 :: rat]\<rparr>"
  let ?K = "\<lparr>xres = 3, yres = 3, data = [0, 1, 0, 1, 0, 1, 0, 1, 0 :: rat]\<rparr>"
  have h: "length (data ?F) = xres ?F * yres ?F" "kernel_is_nonempty ?K"
    "seeding_in_field (min_max_extends False (xres ?K) (yres ?K)) (nat 0) (yres ?F)"
    "seeding_in_field (min_max_extends True (xres ?K) (yres ?K)) (nat 0) (yres ?F)"
    "has_reflected_pair ?K"
    by code_simp+
  have v: "gwy_data_field_area_filter_min_max_real (\<lambda>a b c. - 777) ?F ?K
       GWY_MIN_MAX_FILTER_RANGE 0 0 3 3
     = Inr \<lparr>xres = 3, yres = 3, data = [1, 2, 2, 2, 2, 7, 2, 7, 6]\<rparr>"
    by code_simp
  from range_is_dilation_minus_erosion[OF h(1) _ _ _ _ _ _ h(2,3,4), of 0 3 3 "\<lambda>a b c. - 777"]
  obtain F' where F': "gwy_data_field_area_filter_min_max_real (\<lambda>a b c. - 777) ?F ?K
       GWY_MIN_MAX_FILTER_RANGE 0 0 3 3 = Inr F'"
    "\<And>i j. i < 3 \<Longrightarrow> j < 3 \<Longrightarrow>
        data F' ! ((nat 0 + i) * xres ?F + nat 0 + j)
          = dilation_at ?F ?K (0 + int i) (0 + int j) - erosion_at ?F ?K (0 + int i) (0 + int j)"
    by auto
  from F'(1) v have "F' = \<lparr>xres = 3, yres = 3, data = [1, 2, 2, 2, 2, 7, 2, 7, 6]\<rparr>" by simp
  with F'(2)[of 2 1] have "dilation_at ?F ?K 2 1 - erosion_at ?F ?K 2 1 = 7" by simp
  with h v show ?thesis by simp
qed

theorem range_negative_counterexample:
  "kernel_is_nonempty \<lparr>xres = 2, yres = 2, data = [0, 1, 1, 0 :: rat]\<rparr> \<and>
   gwy_data_field_area_filter_min_max_real (\<lambda>a b c. 0)
       \<lparr>xres = 3, yres = 3, data = [0, 1, 2, 1, 2, 3, 2, 3, 4 :: rat]\<rparr>
       \<lparr>xres = 2, yres = 2, data = [0, 1, 1, 0 :: rat]\<rparr>
       GWY_MIN_MAX_FILTER_RANGE 0 0 3 3
     = Inr \<lparr>xres = 3, yres = 3, data = [- 1, - 1, 0, - 1, - 2, - 1, 0, - 1, - 1]\<rparr> \<and>
   dilation_at \<lparr>xres = 3, yres = 3, data = [0, 1, 2, 1, 2, 3, 2, 3, 4 :: rat]\<rparr>
       \<lparr>xres = 2, yres = 2, data = [0, 1, 1, 0 :: rat]\<rparr> 1 1 = 1 \<and>
   erosion_at \<lparr>xres = 3, yres = 3, data = [0, 1, 2, 1, 2, 3, 2, 3, 4 :: rat]\<rparr>
       \<lparr>xres = 2, yres = 2, data = [0, 1, 1, 0 :: rat]\<rparr> 1 1 = 3 \<and>
   \<not> (0 :: rat) \<le> [- 1, - 1, 0, - 1, - 2, - 1, 0, - 1, - 1] ! 4"
  by code_simp

text \<open>
  Claim C6 (amended). For every well-formed image, valid region and kernel with a nonzero
  cell, when in both passes the first seeding loop stays inside the field or \<open>extend_up\<close>
  is zero, the Normalization operation returns normally and writes at each region pixel
  \<open>(x - min) / (max - min)\<close>, where \<open>x\<close> is the pixel's previous value, \<open>min\<close> the erosion
  value and \<open>max\<close> the dilation value at that pixel, and exactly \<open>1 / 2\<close> where
  \<open>min = max\<close>. Every output value lies in \<open>[0, 1]\<close> whenever the centre cell
  \<open>((kyres - 1) div 2, (kxres - 1) div 2)\<close> of the kernel is nonzero; for other kernels the
  pixel's own value need not lie between \<open>min\<close> and \<open>max\<close>.
\<close>

theorem normalization_formula:
  assumes "length (data F) = xres F * yres F"
    and "0 \<le> col" "0 \<le> row" "0 < width" "0 < height"
    and "col + width \<le> int (xres F)" "row + height \<le> int (yres F)"
    and "kernel_is_nonempty K"
    and "seeding_in_field (min_max_extends False (xres K) (yres K)) (nat row) (yres F)"
    and "seeding_in_field (min_max_extends True (xres K) (yres K)) (nat row) (yres F)"
  shows "\<exists>F'. gwy_data_field_area_filter_min_max_real storage F K GWY_MIN_MAX_FILTER_NORMALIZATION
                 col row width height = Inr F' \<and>
           (\<forall>i < nat height. \<forall>j < nat width.
              data F' ! ((nat row + i) * xres F + nat col + j)
                = (if erosion_at F K (row + int i) (col + int j)
                      = dilation_at F K (row + int i) (col + int j) then 1 / 2
                   else (data F ! ((nat row + i) * xres F + nat col + j)
                           - erosion_at F K (row + int i) (col + int j))
                        / (dilation_at F K (row + int i) (col + int j)
                           - erosion_at F K (row + int i) (col + int j))) \<and>
              (has_centre_cell K \<longrightarrow>
                 0 \<le> data F' ! ((nat row + i) * xres F + nat col + j) \<and>
                 data F' ! ((nat row + i) * xres F + nat col + j) \<le> 1))"
proof -
  have reg: "0 < nat width" "0 < nat height" "nat col + nat width \<le> xres F"
    "nat row + nat height \<le> yres F"
    using assms(2-7) by linarith+
  from range_or_normalization_ok[OF assms(1) reg assms(8,9,10), of storage False]
  obtain F' where F': "filter_range_or_normalization storage F K False (nat col) (nat row)
        (nat width) (nat height) = Inr F'"
    "\<forall>i < nat height. \<forall>j < nat width. data F' ! ((nat row + i) * xres F + nat col + j) =
        (if erosion_at F K (int (nat row) + int i) (int (nat col) + int j)
            = dilation_at F K (int (nat row) + int i) (int (nat col) + int j) then 1 / 2
         else (data F ! ((nat row + i) * xres F + nat col + j)
                 - erosion_at F K (int (nat row) + int i) (int (nat col) + int j))
              / (dilation_at F K (int (nat row) + int i) (int (nat col) + int j)
                 - erosion_at F K (int (nat row) + int i) (int (nat col) + int j)))"
    by (auto simp: Let_def)
  have r: "gwy_data_field_area_filter_min_max_real storage F K GWY_MIN_MAX_FILTER_NORMALIZATION
                 col row width height = Inr F'"
    using assms(2-7) F'(1) by (simp add: gwy_data_field_area_filter_min_max_real_def)
  have "data F' ! ((nat row + i) * xres F + nat col + j)
                = (if erosion_at F K (row + int i) (col + int j)
                      = dilation_at F K (row + int i) (col + int j) then 1 / 2
                   else (data F ! ((nat row + i) * xres F + nat col + j)
                           - erosion_at F K (row + int i) (col + int j))
                        / (dilation_at F K (row + int i) (col + int j)
                           - erosion_at F K (row + int i) (col + int j))) \<and>
              (has_centre_cell K \<longrightarrow>
                 0 \<le> data F' ! ((nat row + i) * xres F + nat col + j) \<and>
                 data F' ! ((nat row + i) * xres F + nat col + j) \<le> 1)"
    if ij: "i < nat height" "j < nat width" for i j
  proof -
    let ?p = "(nat row + i) * xres F + nat col + j"
    let ?mn = "erosion_at F K (row + int i) (col + int j)"
    let ?mx = "dilation_at F K (row + int i) (col + int j)"
    have e: "data F' ! ?p = (if ?mn = ?mx then 1 / 2 else (data F ! ?p - ?mn) / (?mx - ?mn))"
      using F'(2) ij assms(2,3) by simp
    have b: "0 \<le> data F' ! ?p \<and> data F' ! ?p \<le> 1" if c: "has_centre_cell K"
    proof (cases "?mn = ?mx")
      case True
      then show ?thesis using e by simp
    next
      case False
      have ri: "nat row + i < yres F" "nat col + j < xres F" using reg ij by linarith+
      have "pixel_at F (row + int i) (col + int j) = data F ! ?p"
        using pixel_at_inside[OF ri] assms(2,3) by (simp add: add.assoc)
      with centre_between[OF c, of F "row + int i" "col + int j"]
      have le: "?mn \<le> data F ! ?p" "data F ! ?p \<le> ?mx" by simp_all
      then have lt: "0 < ?mx - ?mn" using False by simp
      have "0 \<le> (data F ! ?p - ?mn) / (?mx - ?mn)" using le lt by simp
      moreover have "(data F ! ?p - ?mn) / (?mx - ?mn) \<le> 1" using le lt by simp
      ultimately show ?thesis using e False by simp
    qed
    from e b show ?thesis by blast
  qed
  with r show ?thesis by blast
qed

theorem normalization_formula_witness:
  "length (data \<lparr>xres = 3, yres = 3, data = [0, 1, 2, 1, 2, 3, 2, 3, 9 :: rat]\<rparr>) = 3 * 3 \<and>
   kernel_is_nonempty \<lparr>xres = 3, yres = 3, data = [0, 1, 0, 1, 1, 1, 0, 1, 0 :: rat]\<rparr> \<and>
   seeding_in_field (min_max_extends False 3 3) 0 3 \<and>
   seeding_in_field (min_max_extends True 3 3) 0 3 \<and>
   has_centre_cell \<lparr>xres = 3, yres = 3, data = [0, 1, 0, 1, 1, 1, 0, 1, 0 :: rat]\<rparr> \<and>
   gwy_data_field_area_filter_min_max_real (\<lambda>a b c. - 777)
       \<lparr>xres = 3, yres = 3, data = [0, 1, 2, 1, 2, 3, 2, 3, 9 :: rat]\<rparr>
       \<lparr>xres = 3, yres = 3, data = [0, 1, 0, 1, 1, 1, 0, 1, 0 :: rat]\<rparr>
       GWY_MIN_MAX_FILTER_NORMALIZATION 0 0 3 3
     = Inr \<lparr>xres = 3, yres = 3, data = [0, 1 / 2, 1 / 2, 1 / 2, 1 / 2, 1 / 7, 1 / 2, 1 / 7, 1]\<rparr> \<and>
   erosion_at \<lparr>xres = 3, yres = 3, data = [0, 1, 2, 1, 2, 3, 2, 3, 9 :: rat]\<rparr>
       \<lparr>xres = 3, yres = 3, data = [0, 1, 0, 1, 1, 1, 0, 1, 0 :: rat]\<rparr> 1 2 = 2 \<and>
   dilation_at \<lparr>xres = 3, yres = 3, data = [0, 1, 2, 1, 2, 3, 2, 3, 9 :: rat]\<rparr>
       \<lparr>xres = 3, yres = 3, data = [0, 1, 0, 1, 1, 1, 0, 1, 0 :: rat]\<rparr> 1 2 = 9 \<and>
   (0 :: rat) \<le> 1 / 7 \<and> (1 / 7 :: rat) \<le> 1"
proof -
  let ?F = "\<lparr>xres = 3, yres = 3, data = [0, 1, 2, 1, 2, 3, 2, 3, 9 :: rat]\<rparr>"
  let ?K = "\<lparr>xres = 3, yres = 3, data = [0, 1, 0, 1, 1, 1, 0, 1, 0 :: rat]\<rparr>"
  have h: "length (data ?F) = xres ?F * yres ?F" "kernel_is_nonempty ?K"
    "seeding_in_field (min_max_extends False (xres ?K) (yres ?K)) (nat 0) (yres ?F)"
    "seeding_in_field (min_max_extends True (xres ?K) (yres ?K)) (nat 0) (yres ?F)"
    "has_centre_cell ?K"
    by code_simp+
  have v: "gwy_data_field_area_filter_min_max_real (\<lambda>a b c. - 777) ?F ?K
       GWY_MIN_MAX_FILTER_NORMALIZATION 0 0 3 3
     = Inr \<lparr>xres = 3, yres = 3, data = [0, 1 / 2, 1 / 2, 1 / 2, 1 / 2, 1 / 7, 1 / 2, 1 / 7, 1]\<rparr>"
    by code_simp
  have ed: "erosion_at ?F ?K 1 2 = 2" "dilation_at ?F ?K 1 2 = 9" by code_simp+
  from normalization_formula[OF h(1) _ _ _ _ _ _ h(2,3,4), of 0 3 3 "\<lambda>a b c. - 777"]
  obtain F' where F': "gwy_data_field_area_filter_min_max_real (\<lambda>a b c. - 777) ?F ?K
       GWY_MIN_MAX_FILTER_NORMALIZATION 0 0 3 3 = Inr F'"
    "\<And>i j. i < 3 \<Longrightarrow> j < 3 \<Longrightarrow> has_centre_cell ?K \<Longrightarrow>
        0 \<le> data F' ! ((nat 0 + i) * xres ?F + nat 0 + j) \<and>
        data F' ! ((nat 0 + i) * xres ?F + nat 0 + j) \<le> 1"
    by auto
  from F'(1) v have "F' = \<lparr>xres = 3, yres = 3, data = [0, 1 / 2, 1 / 2, 1 / 2, 1 / 2, 1 / 7, 1 / 2, 1 / 7, 1]\<rparr>"
    by simp
  with F'(2)[of 1 2, OF _ _ h(5)] have "(0 :: rat) \<le> 1 / 7 \<and> (1 / 7 :: rat) \<le> 1" by simp
  with h v ed show ?thesis by simp
qed

theorem normalization_out_of_range_counterexample:
  "kernel_is_nonempty \<lparr>xres = 3, yres = 1, data = [1, 0, 1 :: rat]\<rparr> \<and>
   gwy_data_field_area_filter_min_max_real (\<lambda>a b c. 0)
       \<lparr>xres = 3, yres = 1, data = [0, 5, 1 :: rat]\<rparr>
       \<lparr>xres = 3, yres = 1, data = [1, 0, 1 :: rat]\<rparr>
       GWY_MIN_MAX_FILTER_NORMALIZATION 0 0 3 1
     = Inr \<lparr>xres = 3, yres = 1, data = [0, 5, 0]\<rparr> \<and>
   erosion_at \<lparr>xres = 3, yres = 1, data = [0, 5, 1 :: rat]\<rparr>
       \<lparr>xres = 3, yres = 1, data = [1, 0, 1 :: rat]\<rparr> 0 1 = 0 \<and>
   dilation_at \<lparr>xres = 3, yres = 1, data = [0, 5, 1 :: rat]\<rparr>
       \<lparr>xres = 3, yres = 1, data = [1, 0, 1 :: rat]\<rparr> 0 1 = 1 \<and>
   \<not> ([0, 5, 0 :: rat] ! 1 \<le> 1)"
  by code_simp

end
